(* ===== verification/Prelude.thy ===== *)
theory Prelude
  imports Main "HOL-Library.Word"
begin

text \<open>
  The shared part of the development: results that can fail, the pieces of the C language
  and of its standard library the modelled sources use (character codes, strings that end
  at a NUL, decimal printing and reading, regular files with an offset), and the generic
  lemmas on lists the component theories rest on.

  Conventions.  A C string is the list of the characters before its NUL; a buffer is the
  list of its bytes, NULs included, and \<open>cstr\<close> reads the string at its start.  Integers
  whose range matters are written with \<open>mod 2 ^ w\<close> or as words; the others are \<open>int\<close>
  or \<open>nat\<close>.
\<close>

named_theorems file_simps \<open>reading and writing slices of a byte list\<close>
named_theorems cstr_simps \<open>C strings and buffers\<close>
named_theorems dec_simps \<open>decimal numerals\<close>

section \<open>Results that can fail\<close>

definition andthen :: "'e + 'a \<Rightarrow> ('a \<Rightarrow> 'e + 'b) \<Rightarrow> 'e + 'b" where
  "andthen m f = (case m of Inl e \<Rightarrow> Inl e | Inr x \<Rightarrow> f x)"

section \<open>Characters and strings\<close>

abbreviation NUL :: char where "NUL \<equiv> CHR 0x00"
abbreviation NL :: char where "NL \<equiv> CHR 0x0A"

text \<open>The value of a \<open>char\<close>: as \<open>unsigned char\<close> and, as on the platforms the
  sources were written for, as a signed 8-bit \<open>char\<close>.\<close>

definition uchar :: "char \<Rightarrow> int" where
  "uchar c = int (of_char c :: nat)"

definition schar :: "char \<Rightarrow> int" where
  "schar c = (if uchar c < 128 then uchar c else uchar c - 256)"

definition isdigit :: "char \<Rightarrow> bool" where
  "isdigit c \<longleftrightarrow> 48 \<le> uchar c \<and> uchar c \<le> 57"

definition isalpha :: "char \<Rightarrow> bool" where
  "isalpha c \<longleftrightarrow> (65 \<le> uchar c \<and> uchar c \<le> 90) \<or> (97 \<le> uchar c \<and> uchar c \<le> 122)"

definition isalnum :: "char \<Rightarrow> bool" where
  "isalnum c \<longleftrightarrow> isalpha c \<or> isdigit c"

text \<open>\<open>isspace\<close> in the C locale: space, \<open>\t\<close>, \<open>\n\<close>, \<open>\v\<close>, \<open>\f\<close>, \<open>\r\<close>.\<close>

definition isspace :: "char \<Rightarrow> bool" where
  "isspace c \<longleftrightarrow> uchar c = 32 \<or> (9 \<le> uchar c \<and> uchar c \<le> 13)"

definition cstr :: "char list \<Rightarrow> string" where
  "cstr b = takeWhile (\<lambda>c. c \<noteq> NUL) b"

definition strlen :: "char list \<Rightarrow> nat" where
  "strlen b = length (cstr b)"

text \<open>\<open>strchr(s, c)\<close> for \<open>c\<close> other than NUL: the index of the first \<open>c\<close>.\<close>

definition strchr :: "char list \<Rightarrow> char \<Rightarrow> nat option" where
  "strchr b c =
     (let s = cstr b; i = length (takeWhile (\<lambda>x. x \<noteq> c) s)
      in if i < length s then Some i else None)"

section \<open>Decimal numerals\<close>

definition digit_char :: "nat \<Rightarrow> char" where
  "digit_char d = char_of (48 + d)"

definition digit_val :: "char \<Rightarrow> nat" where
  "digit_val c = of_char c - 48"

fun dec :: "nat \<Rightarrow> string" where
  "dec n = (if n < 10 then [digit_char n] else dec (n div 10) @ [digit_char (n mod 10)])"

declare dec.simps [simp del]

text \<open>\<open>sprintf("%d")\<close> and \<open>"%lld"\<close> of a signed integer, and the field width
  of \<open>"%*d"\<close>, which pads with spaces on the left and never truncates.\<close>

definition dec_int :: "int \<Rightarrow> string" where
  "dec_int z = (if z < 0 then CHR ''-'' # dec (nat (- z)) else dec (nat z))"

definition padl :: "nat \<Rightarrow> string \<Rightarrow> string" where
  "padl w s = replicate (w - length s) (CHR '' '') @ s"

text \<open>The value of the digits at the front of a string.\<close>

fun digits_val :: "nat \<Rightarrow> string \<Rightarrow> nat" where
  "digits_val n [] = n"
| "digits_val n (c # cs) = (if isdigit c then digits_val (10 * n + digit_val c) cs else n)"

text \<open>\<open>strtol\<close> in base 10: leading white space, an optional sign, digits, with the
  result clamped to the range of a 64-bit \<open>long\<close>; \<open>atol\<close> is \<open>strtol\<close>, and
  \<open>atoi\<close> converts its result to a 32-bit \<open>int\<close>.\<close>

definition clamp_long :: "int \<Rightarrow> int" where
  "clamp_long z = max (- (2 ^ 63)) (min (2 ^ 63 - 1) z)"

definition atol :: "char list \<Rightarrow> int" where
  "atol b =
     (case dropWhile isspace (cstr b) of
        [] \<Rightarrow> 0
      | c # cs \<Rightarrow>
          clamp_long
            (if c = CHR ''-'' then - int (digits_val 0 cs)
             else if c = CHR ''+'' then int (digits_val 0 cs)
             else int (digits_val 0 (c # cs))))"

definition to_int32 :: "int \<Rightarrow> int" where
  "to_int32 z = (z + 2 ^ 31) mod 2 ^ 32 - 2 ^ 31"

definition atoi :: "char list \<Rightarrow> int" where
  "atoi b = to_int32 (atol b)"

text \<open>Conversion to the 64-bit unsigned \<open>size_t\<close> and \<open>unsigned long\<close>.\<close>

definition to_size :: "int \<Rightarrow> int" where
  "to_size z = z mod 2 ^ 64"

section \<open>Regular files\<close>

text \<open>\<open>segment off n f\<close> is what \<open>n\<close> bytes read at offset \<open>off\<close> give (fewer at
  the end of the file); \<open>overlay off s f\<close> is the file after \<open>s\<close> was written at
  \<open>off\<close>: bytes are overwritten, the file grows, and a gap is filled with NULs.\<close>

definition segment :: "nat \<Rightarrow> nat \<Rightarrow> 'a list \<Rightarrow> 'a list" where
  "segment off n f = take n (drop off f)"

definition overlay :: "nat \<Rightarrow> char list \<Rightarrow> char list \<Rightarrow> char list" where
  "overlay off s f =
     (if s = [] then f
      else take off f @ replicate (off - length f) NUL @ s @ drop (off + length s) f)"

record cfile =
  fbytes :: "char list"
  fpos :: nat

datatype whence = SEEK_SET | SEEK_CUR | SEEK_END

definition f_lseek :: "cfile \<Rightarrow> int \<Rightarrow> whence \<Rightarrow> cfile option" where
  "f_lseek f off w =
     (let p = off + (case w of SEEK_SET \<Rightarrow> 0
                     | SEEK_CUR \<Rightarrow> int (fpos f)
                     | SEEK_END \<Rightarrow> int (length (fbytes f)))
      in if p < 0 then None else Some (f\<lparr>fpos := nat p\<rparr>))"

definition f_read :: "cfile \<Rightarrow> nat \<Rightarrow> char list \<times> cfile" where
  "f_read f n =
     (let s = segment (fpos f) n (fbytes f) in (s, f\<lparr>fpos := fpos f + length s\<rparr>))"

definition f_write :: "cfile \<Rightarrow> char list \<Rightarrow> cfile" where
  "f_write f s =
     f\<lparr>fbytes := overlay (fpos f) s (fbytes f), fpos := fpos f + length s\<rparr>"

section \<open>Lemmas on results\<close>

lemma andthen_simps [simp]:
  "andthen (Inr x) f = f x"
  "andthen (Inl e) f = Inl e"
  by (simp_all add: andthen_def)

lemma andthen_Inr_iff:
  "andthen m f = Inr y \<longleftrightarrow> (\<exists>x. m = Inr x \<and> f x = Inr y)"
  by (cases m) auto

lemma andthen_cong [fundef_cong]:
  "m = m' \<Longrightarrow> (\<And>x. m' = Inr x \<Longrightarrow> f x = f' x) \<Longrightarrow> andthen m f = andthen m' f'"
  by (cases m') auto

section \<open>Lemmas on slices\<close>

lemma length_segment [simp]: "length (segment off n f) = min n (length f - off)"
  by (simp add: segment_def)

lemma segment_append_here [file_simps]:
  "length a = off \<Longrightarrow> n = length b \<Longrightarrow> segment off n (a @ b @ c) = b"
  by (simp add: segment_def)

lemma segment_append_end [file_simps]:
  "length a = off \<Longrightarrow> n = length b \<Longrightarrow> segment off n (a @ b) = b"
  by (simp add: segment_def)

lemma overlay_append_here [file_simps]:
  "length a = off \<Longrightarrow> length s = length b \<Longrightarrow> overlay off s (a @ b @ c) = a @ s @ c"
  by (cases "s = []") (simp_all add: overlay_def)

lemma overlay_append_end [file_simps]:
  "length a = off \<Longrightarrow> overlay off s a = a @ s"
  by (cases "s = []") (simp_all add: overlay_def)

lemma length_overlay:
  "s \<noteq> [] \<Longrightarrow> length (overlay off s f) = max (length f) (off + length s)"
  by (simp add: overlay_def)

lemma segment_overlay_other:
  assumes "off' + n \<le> off \<or> off + length s \<le> off'"
    and "off \<le> length f" "off' + n \<le> length f"
  shows "segment off' n (overlay off s f) = segment off' n f"
proof (cases "s = []")
  case False
  have len: "length (overlay off s f) = max (length f) (off + length s)"
    using False by (rule length_overlay)
  show ?thesis
  proof (rule nth_equalityI)
    show "length (segment off' n (overlay off s f)) = length (segment off' n f)"
      using assms(3) len by simp
  next
    fix i assume "i < length (segment off' n (overlay off s f))"
    then have i: "i < n" "off' + i < length f" using assms(3) len by auto
    have "overlay off s f ! (off' + i) = f ! (off' + i)"
    proof (cases "off' + n \<le> off")
      case True
      with i assms(2) False show ?thesis
        by (simp add: overlay_def nth_append)
    next
      case False
      with assms(1) have "off + length s \<le> off'" by simp
      then have "\<not> off' + i - off < length s" by simp
      with i assms(2) \<open>s \<noteq> []\<close> \<open>off + length s \<le> off'\<close> show ?thesis
        by (simp add: overlay_def nth_append)
    qed
    then show "segment off' n (overlay off s f) ! i = segment off' n f ! i"
      using i assms(3) len by (simp add: segment_def)
  qed
qed (simp add: overlay_def)

lemma segment_overlay_same:
  assumes "off \<le> length f" "n = length s"
  shows "segment off n (overlay off s f) = s"
  using assms by (cases "s = []") (simp_all add: overlay_def segment_def)

section \<open>Lemmas on C strings\<close>

lemma cstr_no_nul [cstr_simps]: "NUL \<notin> set s \<Longrightarrow> cstr s = s"
  by (auto simp: cstr_def takeWhile_eq_all_conv)

lemma cstr_append_nul [cstr_simps]: "NUL \<notin> set s \<Longrightarrow> cstr (s @ NUL # t) = s"
  by (induction s) (auto simp: cstr_def)

lemma nul_notin_cstr [simp]: "NUL \<notin> set (cstr b)"
  by (auto simp: cstr_def dest: set_takeWhileD)

lemma strchr_append:
  assumes "c \<notin> set s" "NUL \<notin> set s" "c \<noteq> NUL"
  shows "strchr (s @ c # t) c = Some (length s)"
proof -
  have t: "takeWhile P (s @ c # t) = s @ takeWhile P (c # t)" if "\<forall>x\<in>set s. P x" for P
    using that by (induction s) auto
  have c: "cstr (s @ c # t) = s @ c # cstr t"
    using assms by (subst cstr_def, subst t) (auto simp: cstr_def)
  have "takeWhile (\<lambda>x. x \<noteq> c) (s @ c # u) = s" for u
    using assms(1) by (induction s) auto
  then show ?thesis by (simp add: strchr_def c Let_def)
qed

lemma strchr_none:
  assumes "c \<notin> set (cstr b)"
  shows "strchr b c = None"
proof -
  have "takeWhile (\<lambda>x. x \<noteq> c) (cstr b) = cstr b"
    using assms by (auto simp: takeWhile_eq_all_conv)
  then show ?thesis by (metis less_irrefl strchr_def)
qed

section \<open>Lemmas on decimal numerals\<close>

lemma of_char_digit: "d < 10 \<Longrightarrow> (of_char (digit_char d) :: nat) = 48 + d"
  by (simp add: digit_char_def)

lemma uchar_digit [dec_simps]: "d < 10 \<Longrightarrow> uchar (digit_char d) = 48 + int d"
  by (simp add: uchar_def of_char_digit)

lemma isdigit_digit [dec_simps]: "d < 10 \<Longrightarrow> isdigit (digit_char d)"
  by (simp add: isdigit_def uchar_digit)

lemma digit_val_digit [dec_simps]: "d < 10 \<Longrightarrow> digit_val (digit_char d) = d"
  by (simp add: digit_val_def of_char_digit)

lemma set_dec: "c \<in> set (dec n) \<Longrightarrow> \<exists>d<10. c = digit_char d"
proof (induction n rule: dec.induct)
  case (1 n)
  show ?case
  proof (cases "n < 10")
    case True
    with 1(2) show ?thesis by (auto simp: dec.simps [of n])
  next
    case False
    with 1(2) consider "c \<in> set (dec (n div 10))" | "c = digit_char (n mod 10)"
      by (auto simp: dec.simps [of n])
    then show ?thesis
    proof cases
      case 1
      with "1.IH" False show ?thesis by simp
    next
      case 2
      then show ?thesis by (intro exI [of _ "n mod 10"]) simp
    qed
  qed
qed

lemma dec_isdigit: "c \<in> set (dec n) \<Longrightarrow> isdigit c"
  by (auto dest!: set_dec simp: dec_simps)

lemma dec_nonempty [simp]: "dec n \<noteq> []"
  by (subst dec.simps) simp

lemma length_dec_pos [simp]: "0 < length (dec n)"
  by simp

lemma digits_val_append:
  "(\<forall>c\<in>set s. isdigit c) \<Longrightarrow> digits_val n (s @ t) = digits_val (digits_val n s) t"
  by (induction s arbitrary: n) auto

lemma digits_val_stop:
  "\<not> isdigit c \<Longrightarrow> digits_val n (c # t) = n"
  by simp

lemma digits_val_dec: "digits_val 0 (dec n) = n"
proof (induction n rule: dec.induct)
  case (1 n)
  show ?case
  proof (cases "n < 10")
    case True
    then show ?thesis by (simp add: dec.simps [of n] dec_simps)
  next
    case False
    have "digits_val 0 (dec (n div 10) @ [digit_char (n mod 10)])
        = digits_val (digits_val 0 (dec (n div 10))) [digit_char (n mod 10)]"
      by (rule digits_val_append) (auto dest: dec_isdigit)
    also have "\<dots> = 10 * (n div 10) + n mod 10"
      using False "1.IH" by (simp add: dec_simps)
    finally show ?thesis using False by (simp add: dec.simps [of n])
  qed
qed

lemma length_dec_le: "0 < w \<Longrightarrow> n < 10 ^ w \<Longrightarrow> length (dec n) \<le> w"
proof (induction w arbitrary: n)
  case (Suc w)
  show ?case
  proof (cases "n < 10")
    case False
    then have "0 < w" using Suc.prems(2) by (cases w) auto
    moreover have "n div 10 < 10 ^ w" using Suc.prems(2) by auto
    ultimately have "length (dec (n div 10)) \<le> w" by (rule Suc.IH)
    with False show ?thesis by (simp add: dec.simps [of n])
  qed (simp add: dec.simps [of n])
qed simp

lemma length_padl [simp]: "length (padl w s) = max w (length s)"
  by (simp add: padl_def)

lemma digit_not_space: "isdigit c \<Longrightarrow> \<not> isspace c"
  by (simp add: isdigit_def isspace_def)

lemma digit_not_sign: "isdigit c \<Longrightarrow> c \<noteq> CHR ''-'' \<and> c \<noteq> CHR ''+'' \<and> c \<noteq> NUL \<and> c \<noteq> NL"
  by (auto simp: isdigit_def uchar_def)

lemma isspace_blank [simp]: "isspace (CHR '' '')"
  by (simp add: isspace_def uchar_def)

lemma nul_notin_dec [simp]: "NUL \<notin> set (dec n)"
  using dec_isdigit digit_not_sign by blast

lemma nul_notin_padl_dec [simp]: "NUL \<notin> set (padl w (dec n))"
  by (simp add: padl_def)

text \<open>Reading back what was printed: the round trip of \<open>sprintf("%*lld")\<close> and
  \<open>atol\<close>, also when other characters follow the field's end.\<close>

lemma dropWhile_replicate_append:
  "P c \<Longrightarrow> dropWhile P (replicate k c @ s) = dropWhile P s"
  by (induction k) auto

lemma atol_padl_dec:
  assumes "int n < 2 ^ 63" and "cstr b = padl w (dec n)"
  shows "atol b = int n"
proof -
  obtain c cs where d: "dec n = c # cs" by (cases "dec n") auto
  then have c: "isdigit c" using dec_isdigit [of c n] by simp
  have "dropWhile isspace (cstr b) = c # cs"
    using assms(2) c d by (simp add: padl_def dropWhile_replicate_append digit_not_space)
  moreover have "digits_val 0 (c # cs) = n"
    using digits_val_dec [of n] d by simp
  ultimately show ?thesis
    using digit_not_sign [OF c] assms(1)
    by (simp add: atol_def clamp_long_def del: digits_val.simps)
qed

lemma atol_dec:
  assumes "int n < 2 ^ 63" and "cstr b = dec n"
  shows "atol b = int n"
  using atol_padl_dec [of n b 0] assms by (simp add: padl_def)

lemma to_int32_id: "- (2 ^ 31) \<le> z \<Longrightarrow> z < 2 ^ 31 \<Longrightarrow> to_int32 z = z"
  by (simp add: to_int32_def)

lemma atoi_padl_dec:
  assumes "int n < 2 ^ 31" and "cstr b = padl w (dec n)"
  shows "atoi b = int n"
proof -
  have "atol b = int n" using assms by (intro atol_padl_dec) simp_all
  with assms(1) show ?thesis by (simp add: atoi_def to_int32_id)
qed

lemma to_size_id: "0 \<le> z \<Longrightarrow> z < 2 ^ 64 \<Longrightarrow> to_size z = z"
  by (simp add: to_size_def)

section \<open>Counting elements\<close>

lemma length_filter_update:
  "i < length xs \<Longrightarrow> int (length (filter P (xs[i := x]))) = int (length (filter P xs)) - of_bool (P (xs ! i)) + of_bool (P x)"
proof (induction xs arbitrary: i)
  case (Cons y xs)
  then show ?case by (cases i) auto
qed simp

section \<open>Sequences of calls\<close>

text \<open>A component's calls run one after the other on its state; the same calls on the abstract
  state; and the calls a client may make, each admissible in the state it meets.\<close>

fun run_steps :: "('s \<Rightarrow> 'c \<Rightarrow> 'e + 'r \<times> 's) \<Rightarrow> 's \<Rightarrow> 'c list \<Rightarrow> 'e + 'r list \<times> 's" where
  "run_steps step s [] = Inr ([], s)"
| "run_steps step s (c # cs) =
     andthen (step s c) (\<lambda>(r, s). andthen (run_steps step s cs) (\<lambda>(rs, s). Inr (r # rs, s)))"

fun run_spec :: "('m \<Rightarrow> 'c \<Rightarrow> 'r \<times> 'm) \<Rightarrow> 'm \<Rightarrow> 'c list \<Rightarrow> 'r list \<times> 'm" where
  "run_spec spec m [] = ([], m)"
| "run_spec spec m (c # cs) =
     (let (r, m) = spec m c; (rs, m) = run_spec spec m cs in (r # rs, m))"

fun adm_run :: "('s \<Rightarrow> 'c \<Rightarrow> bool) \<Rightarrow> ('s \<Rightarrow> 'c \<Rightarrow> 'e + 'r \<times> 's) \<Rightarrow> 's \<Rightarrow> 'c list \<Rightarrow> bool" where
  "adm_run adm step s [] = True"
| "adm_run adm step s (c # cs) =
     (adm s c \<and> (case step s c of Inl e \<Rightarrow> True | Inr (r, s') \<Rightarrow> adm_run adm step s' cs))"

text \<open>The interface of a component whose calls implement abstract ones.\<close>

locale simulation =
  fixes repr :: "'s \<Rightarrow> 'm \<Rightarrow> bool"
    and adm :: "'s \<Rightarrow> 'c \<Rightarrow> bool"
    and step :: "'s \<Rightarrow> 'c \<Rightarrow> 'e + 'r \<times> 's"
    and spec :: "'m \<Rightarrow> 'c \<Rightarrow> 'r \<times> 'm"
  assumes sim: "repr s m \<Longrightarrow> adm s c \<Longrightarrow>
    \<exists>s'. step s c = Inr (fst (spec m c), s') \<and> repr s' (snd (spec m c))"
begin

lemma run_refines:
  "repr s m \<Longrightarrow> adm_run adm step s cs \<Longrightarrow>
   \<exists>s'. run_steps step s cs = Inr (fst (run_spec spec m cs), s') \<and> repr s' (snd (run_spec spec m cs))"
proof (induction cs arbitrary: s m)
  case (Cons c cs)
  from sim [of s m c] Cons.prems obtain s1 where s1:
    "step s c = Inr (fst (spec m c), s1)" "repr s1 (snd (spec m c))" by auto
  with Cons.prems have "adm_run adm step s1 cs" by simp
  from Cons.IH [OF s1(2) this] s1 show ?case by (auto simp: split_beta Let_def)
qed simp

end

end
