(* ===== verification/Db.thy ===== *)
theory Db
  imports Prelude
begin

text \<open>
  The key/value database library of \<^verbatim>\<open>src/c_code/apue/mydb/db.c\<close>: an index file
  (a free-list pointer, 137 hash-chain pointers, a newline, then index records) and a data
  file, both in ASCII.  Every function of the source is a definition of the same name
  without the leading underscore; the \<open>DB\<close> structure is the record \<open>db\<close>, passed in
  and returned.

  \<open>err_dump\<close> and \<open>err_quit\<close> end the process, so an operation returns
  \<open>db_error + result\<close>.  System calls fail as the environment decides: \<open>faults\<close> lists
  the fate of the coming calls (\<open>True\<close> fails), and an exhausted list means success.
  Writes that succeed are complete; the process is alone on the files, so a lock request
  that does not fail is granted, and \<open>locks\<close> records what is held.
\<close>

section \<open>Constants and the DB structure\<close>

definition IDXLEN_SZ :: nat where "IDXLEN_SZ = 4"
definition SEP :: char where "SEP = CHR '':''"
definition SPACE :: char where "SPACE = CHR '' ''"
definition NEWLINE :: char where "NEWLINE = NL"
definition PTR_SZ :: nat where "PTR_SZ = 7"
definition PTR_MAX :: int where "PTR_MAX = 99999"
definition NHASH_DEF :: nat where "NHASH_DEF = 137"
definition FREE_OFF :: int where "FREE_OFF = 0"
definition HASH_OFF :: int where "HASH_OFF = int PTR_SZ"
definition IDXLEN_MIN :: int where "IDXLEN_MIN = 6"
definition IDXLEN_MAX :: int where "IDXLEN_MAX = 1024"
definition DATLEN_MIN :: int where "DATLEN_MIN = 2"
definition DATLEN_MAX :: int where "DATLEN_MAX = 1024"

datatype store_flag = DB_INSERT | DB_REPLACE | DB_STORE | OtherFlag int

datatype db_error = Err_dump string | Err_quit string | Diverges

datatype errno = ENONE | EINVAL | ENOENT

datatype fdsel = IdxFd | DatFd
datatype lock_type = F_RDLCK | F_WRLCK | F_UNLCK
datatype lock_cmd = F_SETLK | F_SETLKW

record db =
  faults :: "bool list"
  locks :: "(fdsel \<times> int \<times> int \<times> lock_type) list"
  errno :: errno
  idxfd :: cfile
  datfd :: cfile
  idxbuf :: "char list"
  datbuf :: "char list"
  name :: string
  idxoff :: int
  idxlen :: int
  datoff :: int
  datlen :: int
  ptrval :: int
  ptroff :: int
  chainoff :: int
  hashoff :: int
  nhash :: nat
  cnt_delok :: "64 word"
  cnt_delerr :: "64 word"
  cnt_fetchok :: "64 word"
  cnt_fetcherr :: "64 word"
  cnt_nextrec :: "64 word"
  cnt_stor1 :: "64 word"
  cnt_stor2 :: "64 word"
  cnt_stor3 :: "64 word"
  cnt_stor4 :: "64 word"
  cnt_storerr :: "64 word"

section \<open>System calls\<close>

definition syscall :: "db \<Rightarrow> bool \<times> db" where
  "syscall db =
     (case faults db of [] \<Rightarrow> (True, db) | b # bs \<Rightarrow> (\<not> b, db\<lparr>faults := bs\<rparr>))"

definition lock_reg ::
  "db \<Rightarrow> fdsel \<Rightarrow> lock_cmd \<Rightarrow> lock_type \<Rightarrow> int \<Rightarrow> whence \<Rightarrow> int \<Rightarrow> bool \<times> db" where
  "lock_reg db fd cmd type offset whence len =
     (case syscall db of (ok, db) \<Rightarrow>
        if \<not> ok then (False, db)
        else let rest = filter (\<lambda>(f, o', l, t). \<not> (f = fd \<and> o' = offset \<and> l = len)) (locks db)
             in (True, db\<lparr>locks :=
                   (if type = F_UNLCK then rest else (fd, offset, len, type) # rest)\<rparr>))"

text \<open>The lock macros of \<open>apue.h\<close>, followed by the \<open>err_dump\<close> of their callers.\<close>

definition writew_lock :: "db \<Rightarrow> fdsel \<Rightarrow> int \<Rightarrow> int \<Rightarrow> string \<Rightarrow> db_error + db" where
  "writew_lock db fd offset len msg =
     (case lock_reg db fd F_SETLKW F_WRLCK offset SEEK_SET len of
        (ok, db) \<Rightarrow> if ok then Inr db else Inl (Err_dump msg))"

definition readw_lock :: "db \<Rightarrow> fdsel \<Rightarrow> int \<Rightarrow> int \<Rightarrow> string \<Rightarrow> db_error + db" where
  "readw_lock db fd offset len msg =
     (case lock_reg db fd F_SETLKW F_RDLCK offset SEEK_SET len of
        (ok, db) \<Rightarrow> if ok then Inr db else Inl (Err_dump msg))"

definition un_lock :: "db \<Rightarrow> fdsel \<Rightarrow> int \<Rightarrow> int \<Rightarrow> string \<Rightarrow> db_error + db" where
  "un_lock db fd offset len msg =
     (case lock_reg db fd F_SETLK F_UNLCK offset SEEK_SET len of
        (ok, db) \<Rightarrow> if ok then Inr db else Inl (Err_dump msg))"

definition idx_lseek :: "db \<Rightarrow> int \<Rightarrow> whence \<Rightarrow> string \<Rightarrow> db_error + db" where
  "idx_lseek db off w msg =
     (case syscall db of (ok, db) \<Rightarrow>
        if \<not> ok then Inl (Err_dump msg)
        else case f_lseek (idxfd db) off w of
               None \<Rightarrow> Inl (Err_dump msg)
             | Some f \<Rightarrow> Inr (db\<lparr>idxfd := f\<rparr>))"

definition dat_lseek :: "db \<Rightarrow> int \<Rightarrow> whence \<Rightarrow> string \<Rightarrow> db_error + db" where
  "dat_lseek db off w msg =
     (case syscall db of (ok, db) \<Rightarrow>
        if \<not> ok then Inl (Err_dump msg)
        else case f_lseek (datfd db) off w of
               None \<Rightarrow> Inl (Err_dump msg)
             | Some f \<Rightarrow> Inr (db\<lparr>datfd := f\<rparr>))"

text \<open>\<open>read\<close> and \<open>readv\<close> on the index file: \<open>None\<close> for the return value -1.\<close>

definition idx_read :: "db \<Rightarrow> nat \<Rightarrow> char list option \<times> db" where
  "idx_read db n =
     (case syscall db of (ok, db) \<Rightarrow>
        if \<not> ok then (None, db)
        else case f_read (idxfd db) n of (s, f) \<Rightarrow> (Some s, db\<lparr>idxfd := f\<rparr>))"

definition dat_read :: "db \<Rightarrow> nat \<Rightarrow> char list option \<times> db" where
  "dat_read db n =
     (case syscall db of (ok, db) \<Rightarrow>
        if \<not> ok then (None, db)
        else case f_read (datfd db) n of (s, f) \<Rightarrow> (Some s, db\<lparr>datfd := f\<rparr>))"

definition idx_write :: "db \<Rightarrow> char list \<Rightarrow> string \<Rightarrow> db_error + db" where
  "idx_write db s msg =
     (case syscall db of (ok, db) \<Rightarrow>
        if ok then Inr (db\<lparr>idxfd := f_write (idxfd db) s\<rparr>) else Inl (Err_dump msg))"

definition dat_write :: "db \<Rightarrow> char list \<Rightarrow> string \<Rightarrow> db_error + db" where
  "dat_write db s msg =
     (case syscall db of (ok, db) \<Rightarrow>
        if ok then Inr (db\<lparr>datfd := f_write (datfd db) s\<rparr>) else Inl (Err_dump msg))"

section \<open>Reading the files\<close>

text \<open>\<open>hval += c * i\<close> in an \<open>unsigned long\<close>, then modulo 137.\<close>

fun db_hash_loop :: "int \<Rightarrow> int \<Rightarrow> string \<Rightarrow> int" where
  "db_hash_loop i hval [] = hval"
| "db_hash_loop i hval (c # key) = db_hash_loop (i + 1) (to_size (hval + schar c * i)) key"

definition db_hash :: "db \<Rightarrow> string \<Rightarrow> int" where
  "db_hash db key = db_hash_loop 1 0 key mod 137"

definition db_readptr :: "db \<Rightarrow> int \<Rightarrow> db_error + int \<times> db" where
  "db_readptr db offset =
     andthen (idx_lseek db offset SEEK_SET ''_db_readptr:lseek error'') (\<lambda>db.
     case idx_read db PTR_SZ of
       (Some asciiptr, db) \<Rightarrow>
         if length asciiptr \<noteq> PTR_SZ then Inl (Err_dump ''_db_readptr:read error'')
         else Inr (atol asciiptr, db)
     | (None, db) \<Rightarrow> Inl (Err_dump ''_db_readptr:read error''))"

text \<open>The part of \<open>_db_readidx\<close> after the record's bytes were read: check the newline,
  split at the separators (which become NULs in \<open>idxbuf\<close>) and check the numbers.\<close>

definition db_parseidx :: "db \<Rightarrow> char list \<Rightarrow> db_error + int \<times> db" where
  "db_parseidx db buf =
     (let n = length buf in
      if buf ! (n - 1) \<noteq> NEWLINE then Inl (Err_dump ''_db_readidx:missing newline'')
      else let buf = buf[n - 1 := NUL] in
      case strchr buf SEP of
        None \<Rightarrow> Inl (Err_dump ''_db_readidx:missing first separator'')
      | Some i \<Rightarrow>
          let ptr1 = i + 1; buf = buf[i := NUL] in
          case strchr (drop ptr1 buf) SEP of
            None \<Rightarrow> Inl (Err_dump ''_db_readidx:missing second separator'')
          | Some j \<Rightarrow>
              let ptr2 = ptr1 + j + 1; buf = buf[ptr1 + j := NUL] in
              if strchr (drop ptr2 buf) SEP \<noteq> None
              then Inl (Err_dump ''_db_readidx:too many separator'')
              else let doff = atol (drop ptr1 buf); dlen = to_size (atol (drop ptr2 buf)) in
              if doff < 0 then Inl (Err_dump ''_db_readidx:starting offset < 0'')
              else if dlen \<le> 0 \<or> dlen > DATLEN_MAX
              then Inl (Err_dump ''_db_readidx:invalid length'')
              else Inr (ptrval db, db\<lparr>idxbuf := buf, datoff := doff, datlen := dlen\<rparr>))"

definition db_readidx :: "db \<Rightarrow> int \<Rightarrow> db_error + int \<times> db" where
  "db_readidx db offset =
     andthen (idx_lseek db offset (if offset = 0 then SEEK_CUR else SEEK_SET)
                ''_db_readidx:lseek error'') (\<lambda>db.
     let db = db\<lparr>idxoff := int (fpos (idxfd db))\<rparr> in
     case idx_read db (PTR_SZ + IDXLEN_SZ) of
       (None, db) \<Rightarrow> Inl (Err_dump ''_db_readidx:readv error of index record'')
     | (Some s, db) \<Rightarrow>
         if length s \<noteq> PTR_SZ + IDXLEN_SZ then
           (if s = [] \<and> offset = 0 then Inr (- 1, db)
            else Inl (Err_dump ''_db_readidx:readv error of index record''))
         else
           let asciiptr = take PTR_SZ s; asciilen = drop PTR_SZ s;
               db = db\<lparr>ptrval := atol asciiptr, idxlen := to_size (atoi asciilen)\<rparr> in
           if idxlen db < IDXLEN_MIN \<or> idxlen db > IDXLEN_MAX
           then Inl (Err_dump ''_db_readidx:invalid length'')
           else case idx_read db (nat (idxlen db)) of
                  (Some buf, db) \<Rightarrow>
                    if int (length buf) \<noteq> idxlen db
                    then Inl (Err_dump ''_db_readidx:readerror of index record'')
                    else db_parseidx db buf
                | (None, db) \<Rightarrow> Inl (Err_dump ''_db_readidx:readerror of index record''))"

definition db_readdat :: "db \<Rightarrow> db_error + string \<times> db" where
  "db_readdat db =
     andthen (dat_lseek db (datoff db) SEEK_SET ''_db_readdat:lseek error'') (\<lambda>db.
     case dat_read db (nat (datlen db)) of
       (Some buf, db) \<Rightarrow>
         if int (length buf) \<noteq> datlen db then Inl (Err_dump ''_db_readdat:read error'')
         else if buf ! (length buf - 1) \<noteq> NEWLINE
         then Inl (Err_dump ''_db_readdat:missing newline'')
         else let buf = buf[length buf - 1 := NUL]
              in Inr (cstr buf, db\<lparr>datbuf := buf\<rparr>)
     | (None, db) \<Rightarrow> Inl (Err_dump ''_db_readdat:read error''))"

section \<open>Writing the files\<close>

definition db_writedat :: "db \<Rightarrow> string \<Rightarrow> int \<Rightarrow> whence \<Rightarrow> db_error + db" where
  "db_writedat db data offset whence =
     andthen (if whence = SEEK_END
              then writew_lock db DatFd 0 0 ''_db_writedat:writew_lock error'' else Inr db) (\<lambda>db.
     andthen (dat_lseek db offset whence ''_db_writedat:lseek error'') (\<lambda>db.
     let db = db\<lparr>datoff := int (fpos (datfd db)), datlen := int (length data) + 1\<rparr> in
     andthen (dat_write db (data @ [NEWLINE]) ''_db_writedat:writev error of data record'') (\<lambda>db.
     if whence = SEEK_END
     then un_lock db DatFd 0 0 ''_db_writedat:un_lock error'' else Inr db)))"

definition db_writeidx :: "db \<Rightarrow> string \<Rightarrow> int \<Rightarrow> whence \<Rightarrow> int \<Rightarrow> db_error + db" where
  "db_writeidx db key offset whence pval =
     (let db = db\<lparr>ptrval := pval\<rparr> in
      if pval < 0 \<or> pval > PTR_MAX then Inl (Err_quit ''_db_writeidx:invalid ptr'')
      else
      let body = key @ [SEP] @ dec_int (datoff db) @ [SEP] @ dec_int (datlen db) @ [NEWLINE];
          db = db\<lparr>idxbuf := body @ [NUL]\<rparr>;
          len = int (length body) in
      if len < IDXLEN_MIN \<or> len > IDXLEN_MAX
      then Inl (Err_dump ''_db_writeidx:invalid length'')
      else
      let asciiptrlen = padl PTR_SZ (dec_int pval) @ padl IDXLEN_SZ (dec_int len);
          lockoff = (int (nhash db) + 1) * int PTR_SZ + 1 in
      andthen (if whence = SEEK_END
               then writew_lock db IdxFd lockoff 0 ''_db_writeidx:writew_lock error''
               else Inr db) (\<lambda>db.
      andthen (idx_lseek db offset whence ''_db_writeidx:lseek error'') (\<lambda>db.
      let db = db\<lparr>idxoff := int (fpos (idxfd db))\<rparr> in
      andthen (idx_write db (asciiptrlen @ body) ''_db_writeidx:writev error'') (\<lambda>db.
      if whence = SEEK_END
      then un_lock db IdxFd lockoff 0 ''_db_writeidx:un_lock error'' else Inr db))))"

definition db_writeptr :: "db \<Rightarrow> int \<Rightarrow> int \<Rightarrow> db_error + db" where
  "db_writeptr db offset pval =
     (if pval < 0 \<or> pval > PTR_MAX then Inl (Err_quit ''_db_writeptr:ptrval invalid'')
      else
      let asciiptr = padl PTR_SZ (dec_int pval) in
      andthen (idx_lseek db offset SEEK_SET ''_db_writeptr:lseek error'') (\<lambda>db.
      idx_write db asciiptr ''_db_writeptr:write error''))"

section \<open>Searching a chain\<close>

text \<open>The loop of \<open>_db_find_and_lock\<close>.  It reads the file only, so a chain longer than
  the file has bytes visits an offset twice and never ends; that is what the fuel, one more
  than the length of the index file, stands for.\<close>

fun find_loop :: "nat \<Rightarrow> db \<Rightarrow> string \<Rightarrow> int \<Rightarrow> db_error + int \<times> db" where
  "find_loop 0 db key offset = Inl Diverges"
| "find_loop (Suc fuel) db key offset =
     (if offset = 0 then Inr (offset, db)
      else
      andthen (db_readidx db offset) (\<lambda>(nextoffset, db).
      if cstr (idxbuf db) = key then Inr (offset, db)
      else find_loop fuel (db\<lparr>ptroff := offset\<rparr>) key nextoffset))"

definition db_find_and_lock :: "db \<Rightarrow> string \<Rightarrow> bool \<Rightarrow> db_error + int \<times> db" where
  "db_find_and_lock db key writelock =
     (let j = db_hash db key;
          db = db\<lparr>chainoff := j * int PTR_SZ + hashoff db\<rparr>;
          db = db\<lparr>ptroff := chainoff db\<rparr> in
      andthen (if writelock
               then writew_lock db IdxFd (chainoff db) 1 ''_db_find_and_lock:writew_lock error''
               else readw_lock db IdxFd (chainoff db) 1 ''_db_find_and_lock:readw_lock error'') (\<lambda>db.
      andthen (db_readptr db (ptroff db)) (\<lambda>(offset, db).
      andthen (find_loop (Suc (length (fbytes (idxfd db)))) db key offset) (\<lambda>(offset, db).
      Inr (if offset = 0 then - 1 else 0, db)))))"

text \<open>The loop of \<open>_db_findfree\<close>: exact fit on key and data length.\<close>

fun findfree_loop ::
  "nat \<Rightarrow> db \<Rightarrow> nat \<Rightarrow> int \<Rightarrow> int \<Rightarrow> int \<Rightarrow> db_error + (int \<times> int) \<times> db" where
  "findfree_loop 0 db keylen dlen saveoffset offset = Inl Diverges"
| "findfree_loop (Suc fuel) db keylen dlen saveoffset offset =
     (if offset = 0 then Inr ((saveoffset, offset), db)
      else
      andthen (db_readidx db offset) (\<lambda>(nextoffset, db).
      if strlen (idxbuf db) = keylen \<and> datlen db = dlen then Inr ((saveoffset, offset), db)
      else findfree_loop fuel db keylen dlen offset nextoffset))"

definition db_findfree :: "db \<Rightarrow> nat \<Rightarrow> int \<Rightarrow> db_error + int \<times> db" where
  "db_findfree db keylen dlen =
     andthen (writew_lock db IdxFd FREE_OFF 1 ''_db_findfree:writew_lock error'') (\<lambda>db.
     let saveoffset = FREE_OFF in
     andthen (db_readptr db saveoffset) (\<lambda>(offset, db).
     andthen (findfree_loop (Suc (length (fbytes (idxfd db)))) db keylen dlen saveoffset offset)
       (\<lambda>((saveoffset, offset), db).
     andthen (if offset = 0 then Inr (- 1, db)
              else andthen (db_writeptr db saveoffset (ptrval db)) (\<lambda>db. Inr (0, db))) (\<lambda>(rc, db).
     andthen (un_lock db IdxFd FREE_OFF 1 ''_db_findfree:un_lock error'') (\<lambda>db.
     Inr (rc, db))))))"

section \<open>The operations\<close>

definition db_fetch :: "db \<Rightarrow> string \<Rightarrow> db_error + string option \<times> db" where
  "db_fetch db key =
     andthen (db_find_and_lock db key False) (\<lambda>(rc, db).
     andthen (if rc < 0 then Inr (None, db\<lparr>cnt_fetcherr := cnt_fetcherr db + 1\<rparr>)
              else andthen (db_readdat db) (\<lambda>(ptr, db).
                   Inr (Some ptr, db\<lparr>cnt_fetchok := cnt_fetchok db + 1\<rparr>))) (\<lambda>(ptr, db).
     andthen (un_lock db IdxFd (chainoff db) 1 ''db_fetch:un_lock error'') (\<lambda>db.
     Inr (ptr, db))))"

definition db_dodelete :: "db \<Rightarrow> db_error + db" where
  "db_dodelete db =
     (let db = db\<lparr>datbuf := replicate (nat (datlen db - 1)) SPACE @ [NUL]\<rparr>;
          k = strlen (idxbuf db);
          db = db\<lparr>idxbuf := replicate k SPACE @ drop k (idxbuf db)\<rparr> in
      andthen (writew_lock db IdxFd FREE_OFF 1 ''_db_dodelete:writew_lock error'') (\<lambda>db.
      andthen (db_writedat db (cstr (datbuf db)) (datoff db) SEEK_SET) (\<lambda>db.
      andthen (db_readptr db FREE_OFF) (\<lambda>(freeptr, db).
      let saveptr = ptrval db in
      andthen (db_writeidx db (cstr (idxbuf db)) (idxoff db) SEEK_SET freeptr) (\<lambda>db.
      andthen (db_writeptr db FREE_OFF (idxoff db)) (\<lambda>db.
      andthen (db_writeptr db (ptroff db) saveptr) (\<lambda>db.
      un_lock db IdxFd FREE_OFF 1 ''_db_dodelete:un_lock error'')))))))"

definition db_delete :: "db \<Rightarrow> string \<Rightarrow> db_error + int \<times> db" where
  "db_delete db key =
     andthen (db_find_and_lock db key True) (\<lambda>(rc, db).
     andthen (if rc = 0
              then andthen (db_dodelete db) (\<lambda>db.
                   Inr (0, db\<lparr>cnt_delok := cnt_delok db + 1\<rparr>))
              else Inr (- 1, db\<lparr>cnt_delerr := cnt_delerr db + 1\<rparr>)) (\<lambda>(rc, db).
     andthen (un_lock db IdxFd (chainoff db) 1 ''db_delete:un_lock error'') (\<lambda>db.
     Inr (rc, db))))"

text \<open>The branches of \<open>db_store\<close> once \<open>_db_find_and_lock\<close> has returned: the key is
  absent, or present with its record loaded.\<close>

definition db_store_new ::
  "db \<Rightarrow> string \<Rightarrow> string \<Rightarrow> store_flag \<Rightarrow> db_error + int \<times> db" where
  "db_store_new db key data flag =
     (if flag = DB_REPLACE
      then Inr (- 1, db\<lparr>cnt_storerr := cnt_storerr db + 1, errno := ENOENT\<rparr>)
      else
      andthen (db_readptr db (chainoff db)) (\<lambda>(pval, db).
      andthen (db_findfree db (length key) (int (length data) + 1)) (\<lambda>(rc, db).
      if rc < 0 then
        andthen (db_writedat db data 0 SEEK_END) (\<lambda>db.
        andthen (db_writeidx db key 0 SEEK_END pval) (\<lambda>db.
        andthen (db_writeptr db (chainoff db) (idxoff db)) (\<lambda>db.
        Inr (0, db\<lparr>cnt_stor1 := cnt_stor1 db + 1\<rparr>))))
      else
        andthen (db_writedat db data (datoff db) SEEK_SET) (\<lambda>db.
        andthen (db_writeidx db key (idxoff db) SEEK_SET pval) (\<lambda>db.
        andthen (db_writeptr db (chainoff db) (idxoff db)) (\<lambda>db.
        Inr (0, db\<lparr>cnt_stor2 := cnt_stor2 db + 1\<rparr>)))))))"

definition db_store_found ::
  "db \<Rightarrow> string \<Rightarrow> string \<Rightarrow> store_flag \<Rightarrow> db_error + int \<times> db" where
  "db_store_found db key data flag =
     (if flag = DB_INSERT then Inr (1, db\<lparr>cnt_storerr := cnt_storerr db + 1\<rparr>)
      else if int (length data) + 1 \<noteq> datlen db then
        andthen (db_dodelete db) (\<lambda>db.
        andthen (db_readptr db (chainoff db)) (\<lambda>(pval, db).
        andthen (db_writedat db data 0 SEEK_END) (\<lambda>db.
        andthen (db_writeidx db key 0 SEEK_END pval) (\<lambda>db.
        andthen (db_writeptr db (chainoff db) (idxoff db)) (\<lambda>db.
        Inr (0, db\<lparr>cnt_stor3 := cnt_stor3 db + 1\<rparr>))))))
      else
        andthen (db_writedat db data (datoff db) SEEK_SET) (\<lambda>db.
        Inr (0, db\<lparr>cnt_stor4 := cnt_stor4 db + 1\<rparr>)))"

definition db_store ::
  "db \<Rightarrow> string \<Rightarrow> string \<Rightarrow> store_flag \<Rightarrow> db_error + int \<times> db" where
  "db_store db key data flag =
     (if flag \<noteq> DB_INSERT \<and> flag \<noteq> DB_REPLACE \<and> flag \<noteq> DB_STORE
      then Inr (- 1, db\<lparr>errno := EINVAL\<rparr>)
      else
      let dlen = int (length data) + 1 in
      if dlen < DATLEN_MIN \<or> dlen > DATLEN_MAX
      then Inl (Err_dump ''db_store:invalid length of data'')
      else
      andthen (db_find_and_lock db key True) (\<lambda>(rc, db).
      andthen (if rc < 0 then db_store_new db key data flag
               else db_store_found db key data flag) (\<lambda>(rc, db).
      andthen (un_lock db IdxFd (chainoff db) 1 ''db_store:un_lock error'') (\<lambda>db.
      Inr (rc, db)))))"

definition db_rewind :: "db \<Rightarrow> db_error + db" where
  "db_rewind db =
     (let offset = (int (nhash db) + 1) * int PTR_SZ in
      andthen (idx_lseek db (offset + 1) SEEK_SET ''db_rewind:lseek error'') (\<lambda>db.
      Inr (db\<lparr>idxoff := int (fpos (idxfd db))\<rparr>)))"

text \<open>\<open>db_nextrec\<close> skips deleted records, whose key is all blanks.  Every turn of its loop
  moves the file offset forward, so the fuel never runs out.  The result is the record's key
  (the buffer \<open>key\<close> of the caller) and its data, \<open>None\<close> at the end of the file.\<close>

fun nextrec_loop :: "nat \<Rightarrow> db \<Rightarrow> db_error + bool \<times> db" where
  "nextrec_loop 0 db = Inl Diverges"
| "nextrec_loop (Suc fuel) db =
     andthen (db_readidx db 0) (\<lambda>(rc, db).
     if rc < 0 then Inr (False, db)
     else if \<forall>c\<in>set (cstr (idxbuf db)). c = SPACE then nextrec_loop fuel db
     else Inr (True, db))"

definition db_nextrec :: "db \<Rightarrow> db_error + (string \<times> string) option \<times> db" where
  "db_nextrec db =
     andthen (readw_lock db IdxFd FREE_OFF 1 ''db_nextrec:readw_lock error'') (\<lambda>db.
     andthen (nextrec_loop (Suc (length (fbytes (idxfd db)))) db) (\<lambda>(more, db).
     andthen (if more
              then let key = cstr (idxbuf db) in
                   andthen (db_readdat db) (\<lambda>(ptr, db).
                   Inr (Some (key, ptr), db\<lparr>cnt_nextrec := cnt_nextrec db + 1\<rparr>))
              else Inr (None, db)) (\<lambda>(r, db).
     andthen (un_lock db IdxFd FREE_OFF 1 ''db_nextrec:un_lock error'') (\<lambda>db.
     Inr (r, db)))))"

section \<open>Opening and closing\<close>

text \<open>\<open>open(2)\<close> on one of the two files, given its contents if it exists; of the flags,
  \<open>O_CREAT\<close> and \<open>O_TRUNC\<close>.\<close>

definition os_open :: "bool \<Rightarrow> bool \<Rightarrow> char list option \<Rightarrow> cfile option" where
  "os_open creat trunc old =
     (case old of
        None \<Rightarrow> if creat then Some \<lparr>fbytes = [], fpos = 0\<rparr> else None
      | Some b \<Rightarrow> Some \<lparr>fbytes = if trunc then [] else b, fpos = 0\<rparr>)"

definition db_alloc :: "bool list \<Rightarrow> db_error + db" where
  "db_alloc fl =
     (let db = \<lparr>faults = fl, locks = [], errno = ENONE,
                idxfd = \<lparr>fbytes = [], fpos = 0\<rparr>, datfd = \<lparr>fbytes = [], fpos = 0\<rparr>,
                idxbuf = [], datbuf = [], name = [],
                idxoff = 0, idxlen = 0, datoff = 0, datlen = 0, ptrval = 0, ptroff = 0,
                chainoff = 0, hashoff = 0, nhash = 0,
                cnt_delok = 0, cnt_delerr = 0, cnt_fetchok = 0, cnt_fetcherr = 0,
                cnt_nextrec = 0, cnt_stor1 = 0, cnt_stor2 = 0, cnt_stor3 = 0, cnt_stor4 = 0,
                cnt_storerr = 0\<rparr> in
      case syscall db of (ok, db) \<Rightarrow>
      if \<not> ok then Inl (Err_dump ''_db_alloc:calloc error'') else
      case syscall db of (ok, db) \<Rightarrow>
      if \<not> ok then Inl (Err_dump ''_db_alloc:malloc error'') else
      case syscall db of (ok, db) \<Rightarrow>
      if \<not> ok then Inl (Err_dump ''_db_alloc:malloc error for index buffer'') else
      case syscall db of (ok, db) \<Rightarrow>
      if \<not> ok then Inl (Err_dump ''_db_alloc:malloc error for data buffer'') else
      Inr db)"

definition db_free :: "db \<Rightarrow> char list \<times> char list" where
  "db_free db = (fbytes (idxfd db), fbytes (datfd db))"

definition db_close :: "db \<Rightarrow> char list \<times> char list" where
  "db_close db = db_free db"

definition db_initial_index :: string where
  "db_initial_index =
     concat (replicate (NHASH_DEF + 1) (padl PTR_SZ (dec_int 0))) @ [NEWLINE]"

definition db_open ::
  "string \<Rightarrow> bool \<Rightarrow> bool \<Rightarrow> char list option \<Rightarrow> char list option \<Rightarrow> bool list
     \<Rightarrow> db_error + db option" where
  "db_open pathname creat trunc oldidx olddat fl =
     andthen (db_alloc fl) (\<lambda>db.
     let db = db\<lparr>nhash := NHASH_DEF, hashoff := HASH_OFF, name := pathname @ ''.dat''\<rparr> in
     case (os_open creat trunc oldidx, os_open creat trunc olddat) of
       (Some fi, Some fd) \<Rightarrow>
         let db = db\<lparr>idxfd := fi, datfd := fd\<rparr> in
         andthen (if creat \<and> trunc then
             andthen (writew_lock db IdxFd 0 0 ''db_open:writew_lock error'') (\<lambda>db.
             case syscall db of (ok, db) \<Rightarrow>
             if \<not> ok then Inl (Err_dump ''db_open:fstat error '') else
             andthen (if fbytes (idxfd db) = []
                      then idx_write db db_initial_index ''db_open:index file init write error''
                      else Inr db) (\<lambda>db.
             un_lock db IdxFd 0 0 ''db_open:un_lock error''))
           else Inr db) (\<lambda>db.
         andthen (db_rewind db) (\<lambda>db. Inr (Some db)))
     | _ \<Rightarrow> Inr None)"

end
