(* ===== verification/Db_Layout.thy ===== *)
theory Db_Layout
  imports Db
begin

text \<open>
  The layout of the index file of \<^verbatim>\<open>mydb/db.c\<close> and what the primitive operations do on a
  file with that layout.  \<open>idx_bytes ps rs\<close> is the file that holds the pointers \<open>ps\<close>
  (the free list first, then the 137 hash chains) and the index records \<open>rs\<close>; \<open>offs rs i\<close>
  is the offset of record \<open>i\<close>.  A pointer lives in a slot of the header or at the start of a
  record (\<open>loc\<close>); reading and writing one at its offset is reading and updating \<open>ps\<close> or
  \<open>rs\<close>, and reading a record at its offset loads its fields.
\<close>

section \<open>Index records and their encoding\<close>

record irec =
  r_ptr :: nat
  r_key :: string
  r_doff :: nat
  r_dlen :: nat

definition irec_body :: "irec \<Rightarrow> string" where
  "irec_body r = r_key r @ [SEP] @ dec (r_doff r) @ [SEP] @ dec (r_dlen r) @ [NEWLINE]"

definition irec_enc :: "irec \<Rightarrow> string" where
  "irec_enc r = padl 7 (dec (r_ptr r)) @ padl 4 (dec (length (irec_body r))) @ irec_body r"

definition irec_ok :: "irec \<Rightarrow> bool" where
  "irec_ok r \<longleftrightarrow>
     r_ptr r \<le> 99999 \<and> NUL \<notin> set (r_key r) \<and> SEP \<notin> set (r_key r) \<and>
     6 \<le> length (irec_body r) \<and> length (irec_body r) \<le> 1024 \<and>
     int (r_doff r) < 2 ^ 63 \<and> 0 < r_dlen r \<and> r_dlen r \<le> 1024"

definition hdr_bytes :: "nat list \<Rightarrow> string" where
  "hdr_bytes ps = concat (map (\<lambda>p. padl 7 (dec p)) ps)"

definition recs_bytes :: "irec list \<Rightarrow> string" where
  "recs_bytes rs = concat (map irec_enc rs)"

definition idx_bytes :: "nat list \<Rightarrow> irec list \<Rightarrow> string" where
  "idx_bytes ps rs = hdr_bytes ps @ [NEWLINE] @ recs_bytes rs"

definition offs :: "irec list \<Rightarrow> nat \<Rightarrow> nat" where
  "offs rs i = 967 + length (recs_bytes (take i rs))"

datatype loc = Slot nat | Rec nat

fun loc_ok :: "irec list \<Rightarrow> loc \<Rightarrow> bool" where
  "loc_ok rs (Slot j) = (j < 138)"
| "loc_ok rs (Rec i) = (i < length rs)"

fun loc_off :: "irec list \<Rightarrow> loc \<Rightarrow> nat" where
  "loc_off rs (Slot j) = 7 * j"
| "loc_off rs (Rec i) = offs rs i"

fun loc_get :: "nat list \<Rightarrow> irec list \<Rightarrow> loc \<Rightarrow> nat" where
  "loc_get ps rs (Slot j) = ps ! j"
| "loc_get ps rs (Rec i) = r_ptr (rs ! i)"

fun put_ps :: "nat list \<Rightarrow> loc \<Rightarrow> nat \<Rightarrow> nat list" where
  "put_ps ps (Slot j) p = ps[j := p]"
| "put_ps ps (Rec i) p = ps"

fun put_rs :: "irec list \<Rightarrow> loc \<Rightarrow> nat \<Rightarrow> irec list" where
  "put_rs rs (Slot j) p = rs"
| "put_rs rs (Rec i) p = rs[i := (rs ! i)\<lparr>r_ptr := p\<rparr>]"

text \<open>A database handle at rest on such files: no faults to come, the sizes of the header,
  every pointer and every record in range.\<close>

definition lay :: "db \<Rightarrow> nat list \<Rightarrow> irec list \<Rightarrow> string \<Rightarrow> bool" where
  "lay db ps rs dat \<longleftrightarrow>
     faults db = [] \<and> nhash db = 137 \<and> hashoff db = 7 \<and>
     fbytes (idxfd db) = idx_bytes ps rs \<and> fbytes (datfd db) = dat \<and>
     length ps = 138 \<and> (\<forall>p\<in>set ps. p \<le> 99999) \<and> (\<forall>r\<in>set rs. irec_ok r)"

text \<open>The record loaded by the last \<open>_db_readidx\<close>.\<close>

definition loaded :: "db \<Rightarrow> irec list \<Rightarrow> nat \<Rightarrow> bool" where
  "loaded db rs i \<longleftrightarrow>
     idxoff db = int (offs rs i) \<and> ptrval db = int (r_ptr (rs ! i)) \<and>
     cstr (idxbuf db) = r_key (rs ! i) \<and>
     datoff db = int (r_doff (rs ! i)) \<and> datlen db = int (r_dlen (rs ! i))"

text \<open>What the reading operations leave alone.\<close>

definition keeps :: "db \<Rightarrow> db \<Rightarrow> bool" where
  "keeps db db' \<longleftrightarrow>
     ptroff db' = ptroff db \<and> chainoff db' = chainoff db \<and> locks db' = locks db \<and>
     errno db' = errno db"

lemmas layout_consts =
  PTR_SZ_def IDXLEN_SZ_def PTR_MAX_def NHASH_DEF_def FREE_OFF_def HASH_OFF_def
  IDXLEN_MIN_def IDXLEN_MAX_def DATLEN_MIN_def DATLEN_MAX_def

section \<open>Lengths and offsets\<close>

lemma length_padl_ptr: "p \<le> 99999 \<Longrightarrow> length (padl 7 (dec p)) = 7"
  using length_dec_le [of 7 p] by simp

lemma length_padl_len: "n \<le> 1024 \<Longrightarrow> length (padl 4 (dec n)) = 4"
  using length_dec_le [of 4 n] by simp

lemma length_irec_enc: "irec_ok r \<Longrightarrow> length (irec_enc r) = 11 + length (irec_body r)"
  by (simp add: irec_enc_def irec_ok_def length_padl_ptr length_padl_len del: length_padl)

lemma length_hdr_bytes:
  "\<forall>p\<in>set ps. p \<le> 99999 \<Longrightarrow> length (hdr_bytes ps) = 7 * length ps"
  by (induction ps) (simp_all add: hdr_bytes_def length_padl_ptr del: length_padl)

lemma recs_bytes_append: "recs_bytes (xs @ ys) = recs_bytes xs @ recs_bytes ys"
  by (simp add: recs_bytes_def)

lemma recs_bytes_Cons: "recs_bytes (x # xs) = irec_enc x @ recs_bytes xs"
  by (simp add: recs_bytes_def)

lemma offs_pos [simp]: "0 < offs rs i"
  by (simp add: offs_def)

lemma offs_neq_0 [simp]: "offs rs i \<noteq> 0"
  by (simp add: offs_def)

lemma irec_enc_split:
  "i < length rs \<Longrightarrow>
   recs_bytes rs = recs_bytes (take i rs) @ irec_enc (rs ! i) @ recs_bytes (drop (Suc i) rs)"
  by (metis id_take_nth_drop recs_bytes_append recs_bytes_Cons)

lemma length_recs_update:
  "length (irec_enc r) = length (irec_enc (rs ! i)) \<Longrightarrow>
   length (recs_bytes (rs[i := r])) = length (recs_bytes rs)"
  by (cases "i < length rs")
     (simp_all add: upd_conv_take_nth_drop recs_bytes_append recs_bytes_Cons
        irec_enc_split [of i rs] list_update_beyond)

lemma offs_update:
  assumes "length (irec_enc r) = length (irec_enc (rs ! i))"
  shows "offs (rs[i := r]) k = offs rs k"
proof (cases "i < k")
  case True
  have "take k (rs[i := r]) = (take k rs)[i := r]" by (simp add: take_update_swap)
  moreover have "length (recs_bytes ((take k rs)[i := r])) = length (recs_bytes (take k rs))"
    using assms True by (intro length_recs_update) simp
  ultimately show ?thesis by (simp add: offs_def)
qed (simp add: offs_def)

lemma offs_append: "k \<le> length rs \<Longrightarrow> offs (rs @ ys) k = offs rs k"
  by (simp add: offs_def)

lemma offs_Suc: "i < length rs \<Longrightarrow> offs rs (Suc i) = offs rs i + length (irec_enc (rs ! i))"
  by (simp add: offs_def take_Suc_conv_app_nth recs_bytes_append recs_bytes_Cons recs_bytes_def)

lemma offs_mono: "i \<le> k \<Longrightarrow> offs rs i \<le> offs rs k"
proof -
  assume "i \<le> k"
  then have "take k rs = take i rs @ take (k - i) (drop i rs)"
    by (metis le_add_diff_inverse take_add)
  then show ?thesis by (simp add: offs_def recs_bytes_append)
qed

lemma offs_less:
  assumes "\<forall>r\<in>set rs. irec_ok r" "i < k" "k \<le> length rs"
  shows "offs rs i < offs rs k"
proof -
  have "offs rs i < offs rs (Suc i)"
    using assms by (simp add: offs_Suc length_irec_enc)
  also have "\<dots> \<le> offs rs k" using assms by (simp add: offs_mono)
  finally show ?thesis .
qed

lemma offs_inj:
  assumes "\<forall>r\<in>set rs. irec_ok r" "i < length rs" "k < length rs" "offs rs i = offs rs k"
  shows "i = k"
  using assms offs_less [of rs i k] offs_less [of rs k i] by (metis less_irrefl less_imp_le linorder_neqE_nat)

lemma length_idx_bytes:
  "length ps = 138 \<Longrightarrow> \<forall>p\<in>set ps. p \<le> 99999 \<Longrightarrow>
   length (idx_bytes ps rs) = offs rs (length rs)"
  by (simp add: idx_bytes_def length_hdr_bytes offs_def)

section \<open>Slices and overlays of the index file\<close>

lemma hdr_split:
  "j < length ps \<Longrightarrow>
   hdr_bytes ps = hdr_bytes (take j ps) @ padl 7 (dec (ps ! j)) @ hdr_bytes (drop (Suc j) ps)"
  unfolding hdr_bytes_def
  by (metis concat.simps(2) concat_append id_take_nth_drop list.map(2) map_append)

lemma slot_prefix_length:
  "j < length ps \<Longrightarrow> \<forall>p\<in>set ps. p \<le> 99999 \<Longrightarrow> length (hdr_bytes (take j ps)) = 7 * j"
  using length_hdr_bytes [of "take j ps"] by (auto dest: in_set_takeD)

lemma slot_slice:
  assumes "j < length ps" "\<forall>p\<in>set ps. p \<le> 99999"
  shows "segment (7 * j) 7 (idx_bytes ps rs) = padl 7 (dec (ps ! j))"
proof -
  have "length (padl 7 (dec (ps ! j))) = 7" using assms by (intro length_padl_ptr) simp
  then show ?thesis
    using assms by (simp add: idx_bytes_def hdr_split [of j ps] segment_append_here
        slot_prefix_length del: length_padl)
qed

lemma slot_overlay:
  assumes "j < length ps" "\<forall>p\<in>set ps. p \<le> 99999" "p \<le> 99999"
  shows "overlay (7 * j) (padl 7 (dec p)) (idx_bytes ps rs) = idx_bytes (ps[j := p]) rs"
proof -
  have "length (padl 7 (dec p)) = length (padl 7 (dec (ps ! j)))"
    using assms by (simp add: length_padl_ptr del: length_padl)
  moreover have "hdr_bytes (ps[j := p]) =
      hdr_bytes (take j ps) @ padl 7 (dec p) @ hdr_bytes (drop (Suc j) ps)"
    using assms(1) by (simp add: hdr_bytes_def upd_conv_take_nth_drop)
  ultimately show ?thesis
    using assms by (simp add: idx_bytes_def hdr_split [of j ps] overlay_append_here
        slot_prefix_length del: length_padl)
qed

lemma rec_prefix_length:
  "length ps = 138 \<Longrightarrow> \<forall>p\<in>set ps. p \<le> 99999 \<Longrightarrow>
   length (hdr_bytes ps @ [NEWLINE] @ recs_bytes (take i rs)) = offs rs i"
  by (simp add: length_hdr_bytes offs_def)

lemma idx_bytes_split:
  "i < length rs \<Longrightarrow> idx_bytes ps rs =
   (hdr_bytes ps @ [NEWLINE] @ recs_bytes (take i rs)) @ irec_enc (rs ! i) @
     recs_bytes (drop (Suc i) rs)"
  by (simp add: idx_bytes_def irec_enc_split [of i rs])

lemma rec_overlay:
  assumes "i < length rs" "length ps = 138" "\<forall>p\<in>set ps. p \<le> 99999"
    and "length (irec_enc r) = length (irec_enc (rs ! i))"
  shows "overlay (offs rs i) (irec_enc r) (idx_bytes ps rs) = idx_bytes ps (rs[i := r])"
  unfolding idx_bytes_split [OF assms(1)]
  by (subst overlay_append_here [OF rec_prefix_length])
     (use assms in \<open>simp_all add: idx_bytes_def upd_conv_take_nth_drop recs_bytes_append recs_bytes_Cons\<close>)

lemma rec_append:
  assumes "length ps = 138" "\<forall>p\<in>set ps. p \<le> 99999"
  shows "overlay (offs rs (length rs)) (irec_enc r) (idx_bytes ps rs) = idx_bytes ps (rs @ [r])"
proof -
  have "length (idx_bytes ps rs) = offs rs (length rs)"
    using assms by (rule length_idx_bytes)
  from overlay_append_end [OF this] show ?thesis
    by (simp add: idx_bytes_def recs_bytes_append recs_bytes_Cons recs_bytes_def)
qed

lemma overlay_prefix:
  assumes "length s = length b" "length a = off"
  shows "overlay off s (a @ (b @ c) @ d) = a @ (s @ c) @ d"
  using overlay_append_here [OF assms(2,1), of "c @ d"] by simp

lemma rec_ptr_overlay:
  assumes "i < length rs" "length ps = 138" "\<forall>p\<in>set ps. p \<le> 99999" "irec_ok (rs ! i)" "p \<le> 99999"
  shows "overlay (offs rs i) (padl 7 (dec p)) (idx_bytes ps rs)
       = idx_bytes ps (rs[i := (rs ! i)\<lparr>r_ptr := p\<rparr>])"
proof -
  let ?a = "hdr_bytes ps @ [NEWLINE] @ recs_bytes (take i rs)"
  let ?b = "padl 4 (dec (length (irec_body (rs ! i)))) @ irec_body (rs ! i)"
  have "idx_bytes ps rs = ?a @ (padl 7 (dec (r_ptr (rs ! i))) @ ?b) @ recs_bytes (drop (Suc i) rs)"
    using idx_bytes_split [OF assms(1)] by (simp add: irec_enc_def)
  moreover have "length (padl 7 (dec p)) = length (padl 7 (dec (r_ptr (rs ! i))))"
    using assms(4,5) by (simp add: length_padl_ptr irec_ok_def del: length_padl)
  moreover have "length ?a = offs rs i" using assms(2,3) by (rule rec_prefix_length)
  ultimately have "overlay (offs rs i) (padl 7 (dec p)) (idx_bytes ps rs)
      = ?a @ (padl 7 (dec p) @ ?b) @ recs_bytes (drop (Suc i) rs)"
    by (simp only: overlay_prefix)
  also have "padl 7 (dec p) @ ?b = irec_enc ((rs ! i)\<lparr>r_ptr := p\<rparr>)"
    by (simp add: irec_enc_def irec_body_def)
  finally show ?thesis
    using assms(1) by (simp add: idx_bytes_def upd_conv_take_nth_drop recs_bytes_append recs_bytes_Cons)
qed

lemma rec_head_slice:
  assumes "i < length rs" "length ps = 138" "\<forall>p\<in>set ps. p \<le> 99999" "irec_ok (rs ! i)"
  shows "segment (offs rs i) 11 (idx_bytes ps rs)
       = padl 7 (dec (r_ptr (rs ! i))) @ padl 4 (dec (length (irec_body (rs ! i))))"
    (is "_ = ?h")
proof -
  have "idx_bytes ps rs = (hdr_bytes ps @ [NEWLINE] @ recs_bytes (take i rs)) @ ?h @
      (irec_body (rs ! i) @ recs_bytes (drop (Suc i) rs))"
    using idx_bytes_split [OF assms(1)] by (simp add: irec_enc_def)
  moreover have "11 = length ?h"
    using assms(4) by (simp add: length_padl_ptr length_padl_len irec_ok_def del: length_padl)
  ultimately show ?thesis
    using rec_prefix_length [OF assms(2,3)] by (simp only: segment_append_here)
qed

lemma rec_ptr_slice:
  assumes "i < length rs" "length ps = 138" "\<forall>p\<in>set ps. p \<le> 99999" "irec_ok (rs ! i)"
  shows "segment (offs rs i) 7 (idx_bytes ps rs) = padl 7 (dec (r_ptr (rs ! i)))"
proof -
  have "segment (offs rs i) 7 (idx_bytes ps rs) = take 7 (segment (offs rs i) 11 (idx_bytes ps rs))"
    by (simp add: segment_def)
  also have "\<dots> = padl 7 (dec (r_ptr (rs ! i)))"
    using assms length_padl_ptr [of "r_ptr (rs ! i)"]
    by (simp add: rec_head_slice irec_ok_def del: length_padl)
  finally show ?thesis .
qed

lemma rec_body_slice:
  assumes "i < length rs" "length ps = 138" "\<forall>p\<in>set ps. p \<le> 99999" "irec_ok (rs ! i)"
  shows "segment (offs rs i + 11) (length (irec_body (rs ! i))) (idx_bytes ps rs) = irec_body (rs ! i)"
proof -
  let ?h = "padl 7 (dec (r_ptr (rs ! i))) @ padl 4 (dec (length (irec_body (rs ! i))))"
  have "idx_bytes ps rs = ((hdr_bytes ps @ [NEWLINE] @ recs_bytes (take i rs)) @ ?h) @
      irec_body (rs ! i) @ recs_bytes (drop (Suc i) rs)"
    using idx_bytes_split [OF assms(1)] by (simp add: irec_enc_def)
  moreover have "length ((hdr_bytes ps @ [NEWLINE] @ recs_bytes (take i rs)) @ ?h) = offs rs i + 11"
    using assms(4) rec_prefix_length [OF assms(2,3), of i rs]
    by (simp add: length_padl_ptr length_padl_len irec_ok_def del: length_padl)
  ultimately show ?thesis by (simp only: segment_append_here)
qed

section \<open>System calls that succeed\<close>

lemma syscall_ok [simp]: "faults db = [] \<Longrightarrow> syscall db = (True, db)"
  by (simp add: syscall_def)

lemma lock_ok:
  assumes "faults db = []"
  shows "writew_lock db fd off len msg = Inr (db\<lparr>locks := (fd, off, len, F_WRLCK) #
           filter (\<lambda>(f, o', l, t). \<not> (f = fd \<and> o' = off \<and> l = len)) (locks db)\<rparr>)"
    and "readw_lock db fd off len msg = Inr (db\<lparr>locks := (fd, off, len, F_RDLCK) #
           filter (\<lambda>(f, o', l, t). \<not> (f = fd \<and> o' = off \<and> l = len)) (locks db)\<rparr>)"
    and "un_lock db fd off len msg = Inr (db\<lparr>locks :=
           filter (\<lambda>(f, o', l, t). \<not> (f = fd \<and> o' = off \<and> l = len)) (locks db)\<rparr>)"
  using assms
  by (simp_all add: writew_lock_def readw_lock_def un_lock_def lock_reg_def Let_def)

lemma lseek_set_ok:
  assumes "faults db = []"
  shows "idx_lseek db (int n) SEEK_SET msg = Inr (db\<lparr>idxfd := (idxfd db)\<lparr>fpos := n\<rparr>\<rparr>)"
    and "dat_lseek db (int n) SEEK_SET msg = Inr (db\<lparr>datfd := (datfd db)\<lparr>fpos := n\<rparr>\<rparr>)"
  using assms by (simp_all add: idx_lseek_def dat_lseek_def f_lseek_def)

lemma lseek_cur_ok:
  assumes "faults db = []"
  shows "idx_lseek db 0 SEEK_CUR msg = Inr db"
  using assms by (simp add: idx_lseek_def f_lseek_def)

lemma lseek_end_ok:
  assumes "faults db = []"
  shows "idx_lseek db 0 SEEK_END msg =
           Inr (db\<lparr>idxfd := (idxfd db)\<lparr>fpos := length (fbytes (idxfd db))\<rparr>\<rparr>)"
    and "dat_lseek db 0 SEEK_END msg =
           Inr (db\<lparr>datfd := (datfd db)\<lparr>fpos := length (fbytes (datfd db))\<rparr>\<rparr>)"
  using assms by (simp_all add: idx_lseek_def dat_lseek_def f_lseek_def)

lemma read_ok:
  assumes "faults db = []"
  shows "segment (fpos (idxfd db)) n (fbytes (idxfd db)) = s \<Longrightarrow> idx_read db n =
           (Some s, db\<lparr>idxfd := (idxfd db)\<lparr>fpos := fpos (idxfd db) + length s\<rparr>\<rparr>)"
    and "segment (fpos (datfd db)) n (fbytes (datfd db)) = s \<Longrightarrow> dat_read db n =
           (Some s, db\<lparr>datfd := (datfd db)\<lparr>fpos := fpos (datfd db) + length s\<rparr>\<rparr>)"
  using assms by (auto simp: idx_read_def dat_read_def f_read_def Let_def simp del: length_segment)

lemma write_ok:
  assumes "faults db = []"
  shows "idx_write db s msg = Inr (db\<lparr>idxfd := f_write (idxfd db) s\<rparr>)"
    and "dat_write db s msg = Inr (db\<lparr>datfd := f_write (datfd db) s\<rparr>)"
  using assms by (simp_all add: idx_write_def dat_write_def)

lemmas sys_ok = lock_ok lseek_set_ok lseek_cur_ok lseek_end_ok write_ok

section \<open>The primitive operations on the layout\<close>

lemma layD:
  assumes "lay db ps rs dat"
  shows "faults db = []" "nhash db = 137" "hashoff db = 7"
    "fbytes (idxfd db) = idx_bytes ps rs" "fbytes (datfd db) = dat"
    "length ps = 138" "\<forall>p\<in>set ps. p \<le> 99999" "\<forall>r\<in>set rs. irec_ok r"
  using assms by (simp_all add: lay_def)

lemma lay_nth_ok: "lay db ps rs dat \<Longrightarrow> i < length rs \<Longrightarrow> irec_ok (rs ! i)"
  by (simp add: lay_def)

lemma loc_slice:
  assumes "lay db ps rs dat" "loc_ok rs l"
  shows "segment (loc_off rs l) 7 (idx_bytes ps rs) = padl 7 (dec (loc_get ps rs l))"
  using assms layD [OF assms(1)]
  by (cases l) (simp_all add: slot_slice rec_ptr_slice lay_nth_ok)

lemma loc_get_le:
  assumes "lay db ps rs dat" "loc_ok rs l"
  shows "loc_get ps rs l \<le> 99999"
  using assms layD [OF assms(1)] lay_nth_ok [OF assms(1)]
  by (cases l) (auto simp: irec_ok_def)

lemma loc_overlay:
  assumes "lay db ps rs dat" "loc_ok rs l" "p \<le> 99999"
  shows "overlay (loc_off rs l) (padl 7 (dec p)) (idx_bytes ps rs)
       = idx_bytes (put_ps ps l p) (put_rs rs l p)"
  using assms layD [OF assms(1)]
  by (cases l) (simp_all add: slot_overlay rec_ptr_overlay lay_nth_ok)

lemma readptr_ok:
  assumes "lay db ps rs dat" "loc_ok rs l" "off = int (loc_off rs l)"
  shows "db_readptr db off = Inr (int (loc_get ps rs l),
           db\<lparr>idxfd := (idxfd db)\<lparr>fpos := loc_off rs l + 7\<rparr>\<rparr>)"
proof -
  let ?s = "padl 7 (dec (loc_get ps rs l))"
  let ?db = "db\<lparr>idxfd := (idxfd db)\<lparr>fpos := loc_off rs l\<rparr>\<rparr>"
  have p: "loc_get ps rs l \<le> 99999" using assms(1,2) by (rule loc_get_le)
  have len: "length ?s = 7" using p by (rule length_padl_ptr)
  have "segment (fpos (idxfd ?db)) 7 (fbytes (idxfd ?db)) = ?s"
    using loc_slice [OF assms(1,2)] layD [OF assms(1)] by simp
  then have "idx_read ?db 7 = (Some ?s, ?db\<lparr>idxfd := (idxfd ?db)\<lparr>fpos := loc_off rs l + 7\<rparr>\<rparr>)"
    using layD(1) [OF assms(1)] len
    by (subst read_ok(1) [where s = ?s]) (simp_all del: length_padl)
  moreover have "atol ?s = int (loc_get ps rs l)"
    using p by (intro atol_padl_dec) (simp_all add: cstr_no_nul)
  ultimately show ?thesis
    using assms(3) layD(1) [OF assms(1)] len
    by (simp add: db_readptr_def sys_ok PTR_SZ_def del: length_padl)
qed

lemma dec_int_of_nat [simp]: "dec_int (int n) = dec n"
  by (simp add: dec_int_def)

lemma writeptr_ok:
  assumes "lay db ps rs dat" "loc_ok rs l" "p \<le> 99999"
    and "off = int (loc_off rs l)" "pval = int p"
  shows "db_writeptr db off pval = Inr (db\<lparr>idxfd :=
           (idxfd db)\<lparr>fbytes := idx_bytes (put_ps ps l p) (put_rs rs l p),
                      fpos := loc_off rs l + 7\<rparr>\<rparr>)"
  using assms layD [OF assms(1)] loc_overlay [OF assms(1-3)] length_padl_ptr [OF assms(3)]
  by (simp add: db_writeptr_def sys_ok f_write_def PTR_SZ_def PTR_MAX_def del: length_padl)

section \<open>Reading an index record\<close>

lemma sep_notin_dec [simp]: "SEP \<notin> set (dec n)"
  using dec_isdigit [of SEP n] by (auto simp: SEP_def isdigit_def uchar_def)

lemma parseidx_ok:
  assumes "irec_ok r"
  shows "db_parseidx db (irec_body r) = Inr (ptrval db,
           db\<lparr>idxbuf := r_key r @ NUL # dec (r_doff r) @ NUL # dec (r_dlen r) @ [NUL],
              datoff := int (r_doff r), datlen := int (r_dlen r)\<rparr>)"
proof -
  let ?k = "r_key r" and ?o = "dec (r_doff r)" and ?l = "dec (r_dlen r)"
  note ok = assms [unfolded irec_ok_def]
  have body: "irec_body r = (?k @ SEP # ?o @ SEP # ?l) @ [NEWLINE]"
    by (simp add: irec_body_def)
  have b0: "irec_body r ! (length (irec_body r) - 1) = NEWLINE"
    "(irec_body r)[length (irec_body r) - 1 := NUL] = ?k @ SEP # ?o @ SEP # ?l @ [NUL]"
    unfolding body by (simp_all add: nth_append list_update_append)
  have sep: "SEP \<noteq> NUL" by (simp add: SEP_def)
  have c1: "strchr (?k @ SEP # t) SEP = Some (length ?k)" for t
    using ok sep by (intro strchr_append) auto
  have c2: "strchr (?o @ SEP # t) SEP = Some (length ?o)" for t
    using sep by (intro strchr_append) auto
  have c3: "strchr (?l @ [NUL]) SEP = None"
    by (rule strchr_none) (simp add: cstr_append_nul)
  have u1: "(?k @ SEP # t)[length ?k := NUL] = ?k @ NUL # t" for t by simp
  have u2: "(?k @ NUL # ?o @ SEP # t)[Suc (length ?k + length ?o) := NUL] = ?k @ NUL # ?o @ NUL # t" for t
    by (simp add: list_update_append)
  have a: "atol (?o @ NUL # t) = int (r_doff r)" for t
    using ok by (intro atol_dec) (simp_all add: cstr_append_nul)
  have l: "atol (?l @ NUL # t) = int (r_dlen r)" for t
    using ok by (intro atol_dec) (simp_all add: cstr_append_nul)
  have d2: "drop (Suc (Suc (length ?k + length ?o))) (?k @ NUL # ?o @ NUL # t) = t" for t
    by simp
  show ?thesis
    using ok b0
    by (simp add: db_parseidx_def Let_def c1 c2 c3 u1 u2 a l d2 to_size_id layout_consts)
qed

definition after_readidx :: "db \<Rightarrow> irec list \<Rightarrow> nat \<Rightarrow> db" where
  "after_readidx db rs i =
     db\<lparr>idxfd := (idxfd db)\<lparr>fpos := offs rs i + length (irec_enc (rs ! i))\<rparr>,
        idxbuf := r_key (rs ! i) @ NUL # dec (r_doff (rs ! i)) @ NUL # dec (r_dlen (rs ! i)) @ [NUL],
        idxoff := int (offs rs i), idxlen := int (length (irec_body (rs ! i))),
        datoff := int (r_doff (rs ! i)), datlen := int (r_dlen (rs ! i)),
        ptrval := int (r_ptr (rs ! i))\<rparr>"

lemma after_readidx_loaded [simp]: "irec_ok (rs ! i) \<Longrightarrow> loaded (after_readidx db rs i) rs i"
  by (simp add: after_readidx_def loaded_def irec_ok_def cstr_append_nul)

lemma after_readidx_keeps [simp]: "keeps db (after_readidx db rs i)"
  by (simp add: after_readidx_def keeps_def)

lemma after_readidx_lay [simp]: "lay (after_readidx db rs i) ps rs' dat = lay db ps rs' dat"
  by (simp add: after_readidx_def lay_def)

lemma readidx_after_lseek:
  assumes lay: "lay db ps rs dat" and i: "i < length rs"
    and seek: "idx_lseek db offset (if offset = 0 then SEEK_CUR else SEEK_SET)
           ''_db_readidx:lseek error'' = Inr (db\<lparr>idxfd := (idxfd db)\<lparr>fpos := offs rs i\<rparr>\<rparr>)"
  shows "db_readidx db offset = Inr (int (r_ptr (rs ! i)), after_readidx db rs i)"
proof -
  note L = layD [OF lay] and ok = lay_nth_ok [OF lay i]
  note o = ok [unfolded irec_ok_def]
  let ?r = "rs ! i"
  let ?s = "padl 7 (dec (r_ptr ?r)) @ padl 4 (dec (length (irec_body ?r)))"
  let ?d1 = "db\<lparr>idxfd := (idxfd db)\<lparr>fpos := offs rs i\<rparr>, idxoff := int (offs rs i)\<rparr>"
  let ?d2 = "?d1\<lparr>idxfd := (idxfd db)\<lparr>fpos := offs rs i + 11\<rparr>\<rparr>"
  let ?d3 = "?d2\<lparr>ptrval := int (r_ptr ?r), idxlen := int (length (irec_body ?r))\<rparr>"
  have l7: "length (padl 7 (dec (r_ptr ?r))) = 7" and l4: "length (padl 4 (dec (length (irec_body ?r)))) = 4"
    using o by (simp_all add: length_padl_ptr length_padl_len del: length_padl)
  have r1: "idx_read ?d1 11 = (Some ?s, ?d2)"
    using rec_head_slice [OF i L(6,7) ok] L l7 l4
    by (subst read_ok(1) [where s = ?s]) (simp_all del: length_padl)
  have r2: "idx_read ?d3 (length (irec_body ?r)) = (Some (irec_body ?r),
      ?d3\<lparr>idxfd := (idxfd db)\<lparr>fpos := offs rs i + 11 + length (irec_body ?r)\<rparr>\<rparr>)"
    using rec_body_slice [OF i L(6,7) ok] L
    by (subst read_ok(1) [where s = "irec_body ?r"]) simp_all
  have n1: "atol (padl 7 (dec (r_ptr ?r))) = int (r_ptr ?r)"
    using o by (intro atol_padl_dec) (simp_all add: cstr_no_nul)
  have n2: "atoi (padl 4 (dec (length (irec_body ?r)))) = int (length (irec_body ?r))"
    using o by (intro atoi_padl_dec) (simp_all add: cstr_no_nul)
  have sz: "length (irec_enc ?r) = 11 + length (irec_body ?r)" using ok by (rule length_irec_enc)
  show ?thesis
    using o r1 r2 sz l7 l4
    by (simp add: db_readidx_def seek Let_def n1 n2 to_size_id layout_consts parseidx_ok [OF ok]
        after_readidx_def add.assoc del: length_padl)
qed

lemma readidx_ok:
  assumes "lay db ps rs dat" "i < length rs" "off = int (offs rs i)"
  shows "db_readidx db off = Inr (int (r_ptr (rs ! i)), after_readidx db rs i)"
proof -
  have "offs rs i \<noteq> 0" using offs_pos [of rs i] by simp
  then show ?thesis
    using assms(3) layD(1) [OF assms(1)]
    by (intro readidx_after_lseek [OF assms(1,2)]) (simp add: lseek_set_ok)
qed

lemma readidx_cur_ok:
  assumes "lay db ps rs dat" "i < length rs" "fpos (idxfd db) = offs rs i"
  shows "db_readidx db 0 = Inr (int (r_ptr (rs ! i)), after_readidx db rs i)"
  using assms layD(1) [OF assms(1)]
  by (intro readidx_after_lseek [OF assms(1,2)]) (simp add: lseek_cur_ok flip: assms(3))

lemma readidx_eof:
  assumes "lay db ps rs dat" "fpos (idxfd db) = offs rs (length rs)"
  shows "db_readidx db 0 = Inr (- 1, db\<lparr>idxoff := int (fpos (idxfd db))\<rparr>)"
proof -
  have "segment (fpos (idxfd db)) 11 (fbytes (idxfd db)) = []"
    using assms layD [OF assms(1)] by (simp add: segment_def length_idx_bytes)
  then have "idx_read (db\<lparr>idxoff := int (fpos (idxfd db))\<rparr>) 11 = (Some [], db\<lparr>idxoff := int (fpos (idxfd db))\<rparr>)"
    using layD(1) [OF assms(1)] by (subst read_ok(1) [where s = "[]"]) simp_all
  then show ?thesis
    using layD(1) [OF assms(1)] by (simp add: db_readidx_def lseek_cur_ok layout_consts Let_def)
qed

section \<open>Writing index and data records\<close>

lemma writeidx_arith:
  assumes "irec_ok r"
  shows "r_key r @ SEP # dec (r_doff r) @ SEP # dec (r_dlen r) @ [NEWLINE] = irec_body r"
    and "padl 7 (dec (r_ptr r)) @ padl 4 (dec (length (irec_body r))) @ irec_body r = irec_enc r"
    and "\<not> length (r_key r) + (length (dec (r_doff r)) + length (dec (r_dlen r))) < 3"
    and "\<not> 1021 < length (r_key r) + (length (dec (r_doff r)) + length (dec (r_dlen r)))"
    and "length (irec_enc r) = max 7 (length (dec (r_ptr r))) +
           max 4 (length (dec (length (irec_body r)))) + length (irec_body r)"
    and "r_ptr r \<le> 99999"
  using assms by (auto simp: irec_body_def irec_enc_def irec_ok_def)

lemma writeidx_set_ok:
  assumes lay: "lay db ps rs dat" and i: "i < length rs" and r: "irec_ok r"
    and len: "length (irec_enc r) = length (irec_enc (rs ! i))"
    and f: "datoff db = int (r_doff r)" "datlen db = int (r_dlen r)"
    and "off = int (offs rs i)" "pval = int (r_ptr r)" "key = r_key r"
  shows "db_writeidx db key off SEEK_SET pval =
     Inr (db\<lparr>ptrval := int (r_ptr r), idxbuf := irec_body r @ [NUL], idxoff := int (offs rs i),
             idxfd := (idxfd db)\<lparr>fbytes := idx_bytes ps (rs[i := r]),
                                fpos := offs rs i + length (irec_enc r)\<rparr>\<rparr>)"
proof -
  note L = layD [OF lay]
  have "overlay (offs rs i) (irec_enc r) (idx_bytes ps rs) = idx_bytes ps (rs[i := r])"
    using i L(6,7) len by (rule rec_overlay)
  then show ?thesis
    using writeidx_arith [OF r] f assms(7-9) L
    by (simp add: db_writeidx_def Let_def sys_ok f_write_def layout_consts)
qed

lemma writeidx_end_ok:
  assumes lay: "lay db ps rs dat" and r: "irec_ok r"
    and f: "datoff db = int (r_doff r)" "datlen db = int (r_dlen r)"
    and "pval = int (r_ptr r)" "key = r_key r"
  shows "db_writeidx db key 0 SEEK_END pval =
     Inr (db\<lparr>ptrval := int (r_ptr r), idxbuf := irec_body r @ [NUL],
             idxoff := int (offs rs (length rs)),
             locks := filter (\<lambda>(f, o', l, t). \<not> (f = IdxFd \<and> o' = 967 \<and> l = 0)) (locks db),
             idxfd := (idxfd db)\<lparr>fbytes := idx_bytes ps (rs @ [r]),
                                fpos := offs rs (length rs) + length (irec_enc r)\<rparr>\<rparr>)"
proof -
  note L = layD [OF lay]
  have "overlay (offs rs (length rs)) (irec_enc r) (idx_bytes ps rs) = idx_bytes ps (rs @ [r])"
    using L(6,7) by (rule rec_append)
  then show ?thesis
    using writeidx_arith [OF r] f assms(5-6) L length_idx_bytes [OF L(6,7), of rs]
    by (simp add: db_writeidx_def Let_def sys_ok f_write_def layout_consts)
qed

lemma writedat_set_ok:
  assumes "faults db = []" "off = int n"
  shows "db_writedat db data off SEEK_SET =
     Inr (db\<lparr>datoff := int n, datlen := int (length data) + 1,
             datfd := (datfd db)\<lparr>fbytes := overlay n (data @ [NEWLINE]) (fbytes (datfd db)),
                                fpos := n + length data + 1\<rparr>\<rparr>)"
  using assms by (simp add: db_writedat_def sys_ok f_write_def)

lemma writedat_end_ok:
  assumes "faults db = []"
  shows "db_writedat db data 0 SEEK_END =
     Inr (db\<lparr>datoff := int (length (fbytes (datfd db))), datlen := int (length data) + 1,
             locks := filter (\<lambda>(f, o', l, t). \<not> (f = DatFd \<and> o' = 0 \<and> l = 0)) (locks db),
             datfd := (datfd db)\<lparr>fbytes := fbytes (datfd db) @ data @ [NEWLINE],
                                fpos := length (fbytes (datfd db)) + length data + 1\<rparr>\<rparr>)"
  using assms by (simp add: db_writedat_def sys_ok f_write_def overlay_append_end)

lemma readdat_ok:
  assumes "faults db = []" "datoff db = int n" "datlen db = int (length d) + 1"
    and "segment n (length d + 1) (fbytes (datfd db)) = d @ [NEWLINE]" "NUL \<notin> set d"
  shows "db_readdat db = Inr (d, db\<lparr>datbuf := d @ [NUL],
           datfd := (datfd db)\<lparr>fpos := n + length d + 1\<rparr>\<rparr>)"
proof -
  let ?d1 = "db\<lparr>datfd := (datfd db)\<lparr>fpos := n\<rparr>\<rparr>"
  have "dat_read ?d1 (length d + 1) = (Some (d @ [NEWLINE]),
      ?d1\<lparr>datfd := (datfd db)\<lparr>fpos := n + length d + 1\<rparr>\<rparr>)"
    using assms by (subst read_ok(2) [where s = "d @ [NEWLINE]"]) simp_all
  moreover have "nat (int (length d) + 1) = length d + 1" by simp
  ultimately show ?thesis
    using assms by (simp add: db_readdat_def sys_ok nth_append cstr_append_nul list_update_append Let_def)
qed

end
