(* ===== verification/Db_Map.thy ===== *)
theory Db_Map
  imports Db_Layout
begin

text \<open>
  The database of \<^verbatim>\<open>mydb/db.c\<close> implements a finite map.  \<open>links\<close> says that the header's
  138 pointers and the records' pointers form disjoint chains that hold every record once;
  \<open>conts\<close> says which key and data each record of a hash chain carries; \<open>db_rep db m\<close>
  says that the handle's files represent the map \<open>m\<close>.  Fetching, storing and deleting a key
  are shown to act on \<open>m\<close> as the map operations \<open>kv_store\<close> and \<open>kv_delete\<close> do.
\<close>

section \<open>Chains\<close>

fun chain :: "(nat \<Rightarrow> nat) \<Rightarrow> (nat \<Rightarrow> nat) \<Rightarrow> nat \<Rightarrow> nat list \<Rightarrow> bool" where
  "chain off nxt p [] \<longleftrightarrow> p = 0"
| "chain off nxt p (i # is) \<longleftrightarrow> p = off i \<and> chain off nxt (nxt i) is"

definition nxt :: "irec list \<Rightarrow> nat \<Rightarrow> nat" where
  "nxt rs i = r_ptr (rs ! i)"

definition key_slot :: "string \<Rightarrow> nat" where
  "key_slot k = Suc (nat (db_hash_loop 1 0 k mod 137))"

definition links :: "nat list \<Rightarrow> irec list \<Rightarrow> (nat \<Rightarrow> nat list) \<Rightarrow> bool" where
  "links ps rs cs \<longleftrightarrow>
     (\<forall>j<138. chain (offs rs) (nxt rs) (ps ! j) (cs j)) \<and>
     (\<forall>j<138. distinct (cs j) \<and> set (cs j) \<subseteq> {..<length rs}) \<and>
     (\<forall>j<138. \<forall>k<138. j \<noteq> k \<longrightarrow> set (cs j) \<inter> set (cs k) = {}) \<and>
     (\<forall>i<length rs. \<exists>j<138. i \<in> set (cs j))"

definition data_at :: "string \<Rightarrow> irec \<Rightarrow> string" where
  "data_at dat r = segment (r_doff r) (r_dlen r - 1) dat"

definition data_wf :: "string \<Rightarrow> irec \<Rightarrow> bool" where
  "data_wf dat r \<longleftrightarrow>
     segment (r_doff r) (r_dlen r) dat = data_at dat r @ [NEWLINE] \<and> NUL \<notin> set (data_at dat r)"

definition conts :: "irec list \<Rightarrow> string \<Rightarrow> (nat \<Rightarrow> nat list) \<Rightarrow> bool" where
  "conts rs dat cs \<longleftrightarrow>
     (\<forall>j<138. 0 < j \<longrightarrow>
        (\<forall>i\<in>set (cs j). key_slot (r_key (rs ! i)) = j \<and> data_wf dat (rs ! i)) \<and>
        inj_on (\<lambda>i. r_key (rs ! i)) (set (cs j))) \<and>
     (\<forall>i\<in>set (cs 0). set (r_key (rs ! i)) \<subseteq> {SPACE}) \<and>
     (\<forall>i<length rs. r_doff (rs ! i) + r_dlen (rs ! i) \<le> length dat) \<and>
     (\<forall>i<length rs. \<forall>k<length rs. i \<noteq> k \<longrightarrow>
        r_doff (rs ! i) + r_dlen (rs ! i) \<le> r_doff (rs ! k) \<or>
        r_doff (rs ! k) + r_dlen (rs ! k) \<le> r_doff (rs ! i))"

text \<open>The map a set of chains stands for, and the specification of the operations.\<close>

definition lookup :: "irec list \<Rightarrow> string \<Rightarrow> (nat \<Rightarrow> nat list) \<Rightarrow> string \<rightharpoonup> string" where
  "lookup rs dat cs k =
     map_option (\<lambda>i. data_at dat (rs ! i)) (find (\<lambda>i. r_key (rs ! i) = k) (cs (key_slot k)))"

definition db_rep :: "db \<Rightarrow> (string \<rightharpoonup> string) \<Rightarrow> bool" where
  "db_rep db m \<longleftrightarrow>
     locks db = [] \<and>
     (\<exists>ps rs dat cs. lay db ps rs dat \<and> links ps rs cs \<and> conts rs dat cs \<and> m = lookup rs dat cs)"

definition kv_store ::
  "(string \<rightharpoonup> string) \<Rightarrow> string \<Rightarrow> string \<Rightarrow> store_flag \<Rightarrow> int \<times> (string \<rightharpoonup> string)" where
  "kv_store m k d flag =
     (case m k of
        None \<Rightarrow> if flag = DB_REPLACE then (- 1, m) else (0, m(k \<mapsto> d))
      | Some _ \<Rightarrow> if flag = DB_INSERT then (1, m) else (0, m(k \<mapsto> d)))"

definition kv_delete :: "(string \<rightharpoonup> string) \<Rightarrow> string \<Rightarrow> int \<times> (string \<rightharpoonup> string)" where
  "kv_delete m k = (if m k = None then - 1 else 0, m(k := None))"

text \<open>Keys and data a record can hold, and room for one more record: the new index record's
  length is in range and its offset fits in the five digits of \<open>PTR_MAX\<close>.\<close>

definition key_ok :: "string \<Rightarrow> bool" where
  "key_ok k \<longleftrightarrow> NUL \<notin> set k \<and> SEP \<notin> set k"

definition value_ok :: "string \<Rightarrow> bool" where
  "value_ok d \<longleftrightarrow> NUL \<notin> set d \<and> 1 \<le> length d \<and> length d \<le> 1023"

definition room :: "db \<Rightarrow> string \<Rightarrow> string \<Rightarrow> bool" where
  "room db k d \<longleftrightarrow>
     length (fbytes (idxfd db)) \<le> 99999 \<and> length (fbytes (datfd db)) < 2 ^ 63 \<and>
     (let n = length k + length (dec (length (fbytes (datfd db)))) + length (dec (length d + 1)) + 3
      in 6 \<le> n \<and> n \<le> 1024)"

section \<open>Lemmas on chains\<close>

lemma chain_nxt_upd [simp]: "i \<notin> set is \<Longrightarrow> chain off (nx(i := p)) q is = chain off nx q is"
  by (induction "is" arbitrary: q) auto

lemma chain_append:
  "chain off nx p (xs @ i # ys) \<Longrightarrow> chain off nx (off i) (i # ys)"
  by (induction xs arbitrary: p) auto

lemma chain_hd: "chain off nx p (xs @ i # ys) \<Longrightarrow> xs = [] \<Longrightarrow> p = off i"
  by simp

lemma chain_pred:
  "chain off nx p (xs @ i # ys) \<Longrightarrow> xs \<noteq> [] \<Longrightarrow> nx (last xs) = off i"
proof (induction xs arbitrary: p)
  case (Cons x xs)
  then show ?case by (cases xs) auto
qed simp

lemma chain_nxt_cong:
  "(\<And>i. i \<in> set is \<Longrightarrow> nx i = nx' i) \<Longrightarrow> (\<And>i. i \<in> set is \<Longrightarrow> off i = off' i) \<Longrightarrow>
   chain off nx p is = chain off' nx' p is"
  by (induction "is" arbitrary: p) auto

lemma chain_unlink:
  assumes "chain off nx p (xs @ i # ys)" "distinct (xs @ i # ys)"
  shows "chain off (\<lambda>a. if xs \<noteq> [] \<and> a = last xs then nx i else nx a)
           (if xs = [] then nx i else p) (xs @ ys)"
  using assms
proof (induction xs arbitrary: p)
  case (Cons x xs)
  show ?case
  proof (cases "xs = []")
    case True
    have "chain off (\<lambda>a. if a = x then nx i else nx a) (nx i) ys = chain off nx (nx i) ys"
      using Cons.prems(2) by (intro chain_nxt_cong) auto
    with True Cons.prems(1) show ?thesis by simp
  next
    case False
    then have "x \<noteq> last xs" using Cons.prems(2) by auto
    with False Cons show ?thesis by auto
  qed
qed simp

lemma linksD:
  assumes "links ps rs cs" "j < 138"
  shows "chain (offs rs) (nxt rs) (ps ! j) (cs j)" "distinct (cs j)"
    "i \<in> set (cs j) \<Longrightarrow> i < length rs"
  using assms by (auto simp: links_def)

lemma links_disjoint:
  "links ps rs cs \<Longrightarrow> j < 138 \<Longrightarrow> k < 138 \<Longrightarrow> i \<in> set (cs j) \<Longrightarrow> i \<in> set (cs k) \<Longrightarrow> j = k"
  unfolding links_def by (metis disjoint_iff)

lemma chain_length_le:
  assumes "links ps rs cs" "j < 138"
  shows "length (cs j) \<le> length rs"
proof -
  have "length (cs j) = card (set (cs j))"
    using linksD(2) [OF assms] by (simp add: distinct_card)
  also have "\<dots> \<le> card {..<length rs}"
    using linksD(3) [OF assms] by (intro card_mono) auto
  finally show ?thesis by simp
qed

lemma length_recs_le:
  "\<forall>r\<in>set rs. irec_ok r \<Longrightarrow> length rs \<le> length (recs_bytes rs)"
proof (induction rs)
  case (Cons r rs)
  then have "1 \<le> length (irec_enc r)" by (simp only: length_irec_enc list.set_intros)
  moreover have "length rs \<le> length (recs_bytes rs)" using Cons by simp
  ultimately show ?case by (simp only: recs_bytes_Cons length_append length_Cons)
qed simp

lemma fuel_enough:
  assumes "lay db ps rs dat" "links ps rs cs" "j < 138"
  shows "length (cs j) < Suc (length (fbytes (idxfd db)))"
proof -
  have "length (cs j) \<le> length rs" using assms(2,3) by (rule chain_length_le)
  also have "\<dots> \<le> length (fbytes (idxfd db))"
    using layD [OF assms(1)] length_recs_le [of rs] by (simp add: length_idx_bytes offs_def)
  finally show ?thesis by simp
qed

lemma key_slot_bounds: "0 < key_slot k" "key_slot k < 138"
proof -
  have "0 \<le> db_hash_loop 1 0 k mod 137" "db_hash_loop 1 0 k mod 137 < 137" by simp_all
  then show "0 < key_slot k" "key_slot k < 138" unfolding key_slot_def by linarith+
qed

lemma chainoff_slot: "db_hash db k * 7 + 7 = int (7 * key_slot k)"
  by (simp add: db_hash_def key_slot_def)

section \<open>The loops over chains\<close>

lemma lay_simps [simp]:
  "lay (db\<lparr>ptroff := a\<rparr>) ps rs dat = lay db ps rs dat"
  "lay (db\<lparr>chainoff := a\<rparr>) ps rs dat = lay db ps rs dat"
  "lay (db\<lparr>locks := l\<rparr>) ps rs dat = lay db ps rs dat"
  "lay (db\<lparr>errno := e\<rparr>) ps rs dat = lay db ps rs dat"
  "lay (db\<lparr>datbuf := b\<rparr>) ps rs dat = lay db ps rs dat"
  "lay (db\<lparr>idxbuf := b\<rparr>) ps rs dat = lay db ps rs dat"
  "lay (db\<lparr>idxfd := (idxfd db)\<lparr>fpos := n\<rparr>\<rparr>) ps rs dat = lay db ps rs dat"
  "lay (db\<lparr>datfd := (datfd db)\<lparr>fpos := n\<rparr>\<rparr>) ps rs dat = lay db ps rs dat"
  by (simp_all add: lay_def)

lemma find_loop_miss:
  assumes "lay db ps rs dat" "chain (offs rs) (nxt rs) p is" "set is \<subseteq> {..<length rs}"
    and "length is < fuel" "\<forall>i\<in>set is. r_key (rs ! i) \<noteq> key" "off = int p"
  shows "\<exists>db'. find_loop fuel db key off = Inr (0, db') \<and> lay db' ps rs dat \<and>
           chainoff db' = chainoff db \<and> locks db' = locks db"
  using assms
proof (induction "is" arbitrary: db p off fuel)
  case Nil
  then show ?case by (cases fuel) auto
next
  case (Cons i "is")
  then obtain f where f: "fuel = Suc f" by (cases fuel) auto
  have i: "i < length rs" and p: "p = offs rs i" using Cons.prems by auto
  let ?d = "after_readidx db rs i"
  have rd: "db_readidx db off = Inr (int (nxt rs i), ?d)"
    using Cons.prems(1,6) i p by (simp add: readidx_ok nxt_def)
  have ld: "loaded ?d rs i" using lay_nth_ok [OF Cons.prems(1) i] by simp
  have k: "keeps db ?d" by simp
  have "\<exists>db'. find_loop f (?d\<lparr>ptroff := off\<rparr>) key (int (nxt rs i)) = Inr (0, db') \<and>
      lay db' ps rs dat \<and> chainoff db' = chainoff (?d\<lparr>ptroff := off\<rparr>) \<and>
      locks db' = locks (?d\<lparr>ptroff := off\<rparr>)"
    using Cons.prems f by (intro Cons.IH [where p = "nxt rs i"]) simp_all
  then show ?case
    using Cons.prems(5,6) p ld k rd f by (auto simp: loaded_def keeps_def)
qed

lemma find_loop_hit:
  assumes "lay db ps rs dat" "chain (offs rs) (nxt rs) p (xs @ i # ys)"
    and "set (xs @ i # ys) \<subseteq> {..<length rs}" "length xs < fuel"
    and "\<forall>x\<in>set xs. r_key (rs ! x) \<noteq> key" "r_key (rs ! i) = key" "off = int p"
  shows "\<exists>db'. find_loop fuel db key off = Inr (int (offs rs i), db') \<and> lay db' ps rs dat \<and>
           loaded db' rs i \<and> chainoff db' = chainoff db \<and> locks db' = locks db \<and>
           ptroff db' = (if xs = [] then ptroff db else int (offs rs (last xs)))"
  using assms
proof (induction xs arbitrary: db p off fuel)
  case Nil
  then obtain f where f: "fuel = Suc f" by (cases fuel) auto
  have i: "i < length rs" using Nil.prems by auto
  have "loaded (after_readidx db rs i) rs i" using lay_nth_ok [OF Nil.prems(1) i] by simp
  moreover have "keeps db (after_readidx db rs i)" by simp
  ultimately show ?case
    using Nil.prems i f by (auto simp: readidx_ok loaded_def keeps_def)
next
  case (Cons x xs)
  then obtain f where f: "fuel = Suc f" by (cases fuel) auto
  have x: "x < length rs" and p: "p = offs rs x" using Cons.prems by auto
  let ?d = "after_readidx db rs x"
  have rd: "db_readidx db off = Inr (int (nxt rs x), ?d)"
    using Cons.prems(1,7) x p by (simp add: readidx_ok nxt_def)
  have ld: "loaded ?d rs x" using lay_nth_ok [OF Cons.prems(1) x] by simp
  have k: "keeps db ?d" by simp
  have "\<exists>db'. find_loop f (?d\<lparr>ptroff := off\<rparr>) key (int (nxt rs x)) = Inr (int (offs rs i), db') \<and>
      lay db' ps rs dat \<and> loaded db' rs i \<and> chainoff db' = chainoff (?d\<lparr>ptroff := off\<rparr>) \<and>
      locks db' = locks (?d\<lparr>ptroff := off\<rparr>) \<and>
      ptroff db' = (if xs = [] then ptroff (?d\<lparr>ptroff := off\<rparr>) else int (offs rs (last xs)))"
    using Cons.prems f by (intro Cons.IH [where p = "nxt rs x"]) simp_all
  then show ?case
    using Cons.prems(5,7) p ld k rd f by (auto simp: loaded_def keeps_def)
qed

lemma findfree_loop_miss:
  assumes "lay db ps rs dat" "chain (offs rs) (nxt rs) p is" "set is \<subseteq> {..<length rs}"
    and "length is < fuel"
    and "\<forall>i\<in>set is. \<not> (length (r_key (rs ! i)) = kl \<and> int (r_dlen (rs ! i)) = dl)" "off = int p"
  shows "\<exists>db' s. findfree_loop fuel db kl dl save off = Inr ((s, 0), db') \<and> lay db' ps rs dat \<and>
           chainoff db' = chainoff db \<and> locks db' = locks db"
  using assms
proof (induction "is" arbitrary: db p off fuel save)
  case Nil
  then show ?case by (cases fuel) auto
next
  case (Cons i "is")
  then obtain f where f: "fuel = Suc f" by (cases fuel) auto
  have i: "i < length rs" and p: "p = offs rs i" using Cons.prems by auto
  let ?d = "after_readidx db rs i"
  have rd: "db_readidx db off = Inr (int (nxt rs i), ?d)"
    using Cons.prems(1,6) i p by (simp add: readidx_ok nxt_def)
  have ld: "loaded ?d rs i" using lay_nth_ok [OF Cons.prems(1) i] by simp
  have k: "keeps db ?d" by simp
  have "\<exists>db' s. findfree_loop f ?d kl dl off (int (nxt rs i)) = Inr ((s, 0), db') \<and>
      lay db' ps rs dat \<and> chainoff db' = chainoff ?d \<and> locks db' = locks ?d"
    using Cons.prems f by (intro Cons.IH [where p = "nxt rs i"]) simp_all
  then show ?case
    using Cons.prems(5,6) p ld k rd f by (auto simp: loaded_def keeps_def strlen_def)
qed

lemma findfree_loop_hit:
  assumes "lay db ps rs dat" "chain (offs rs) (nxt rs) p (xs @ i # ys)"
    and "set (xs @ i # ys) \<subseteq> {..<length rs}" "length xs < fuel"
    and "\<forall>x\<in>set xs. \<not> (length (r_key (rs ! x)) = kl \<and> int (r_dlen (rs ! x)) = dl)"
    and "length (r_key (rs ! i)) = kl" "int (r_dlen (rs ! i)) = dl" "off = int p"
  shows "\<exists>db'. findfree_loop fuel db kl dl save off =
             Inr ((if xs = [] then save else int (offs rs (last xs)), int (offs rs i)), db') \<and>
           lay db' ps rs dat \<and> loaded db' rs i \<and> chainoff db' = chainoff db \<and> locks db' = locks db"
  using assms
proof (induction xs arbitrary: db p off fuel save)
  case Nil
  then obtain f where f: "fuel = Suc f" by (cases fuel) auto
  have i: "i < length rs" using Nil.prems by auto
  have "loaded (after_readidx db rs i) rs i" using lay_nth_ok [OF Nil.prems(1) i] by simp
  moreover have "keeps db (after_readidx db rs i)" by simp
  ultimately show ?case
    using Nil.prems i f by (auto simp: readidx_ok loaded_def keeps_def strlen_def)
next
  case (Cons x xs)
  then obtain f where f: "fuel = Suc f" by (cases fuel) auto
  have x: "x < length rs" and p: "p = offs rs x" using Cons.prems by auto
  let ?d = "after_readidx db rs x"
  have rd: "db_readidx db off = Inr (int (nxt rs x), ?d)"
    using Cons.prems(1,8) x p by (simp add: readidx_ok nxt_def)
  have ld: "loaded ?d rs x" using lay_nth_ok [OF Cons.prems(1) x] by simp
  have k: "keeps db ?d" by simp
  have "\<exists>db'. findfree_loop f ?d kl dl off (int (nxt rs x)) =
        Inr ((if xs = [] then off else int (offs rs (last xs)), int (offs rs i)), db') \<and>
      lay db' ps rs dat \<and> loaded db' rs i \<and> chainoff db' = chainoff ?d \<and> locks db' = locks ?d"
    using Cons.prems f by (intro Cons.IH [where p = "nxt rs x"]) simp_all
  then show ?case
    using Cons.prems(5,8) p ld k rd f by (auto simp: loaded_def keeps_def strlen_def)
qed

section \<open>Moving and adding records\<close>

lemma links_move:
  assumes links: "links ps rs cs" and j: "j < 138" "j' < 138" "j \<noteq> j'" and cs: "cs j = xs @ i # ys"
    and rs': "length rs' = length rs" "offs rs' = offs rs"
      "\<And>x. x < length rs \<Longrightarrow> nxt rs' x =
         (if x = i then ps ! j' else if xs \<noteq> [] \<and> x = last xs then nxt rs i else nxt rs x)"
    and ps': "\<And>k. k < 138 \<Longrightarrow> ps' ! k =
         (if k = j' then offs rs i else if k = j \<and> xs = [] then nxt rs i else ps ! k)"
  shows "links ps' rs' (cs(j := xs @ ys, j' := i # cs j'))"
proof -
  let ?cs = "cs(j := xs @ ys, j' := i # cs j')"
  note L = linksD [OF links]
  have d: "distinct (xs @ i # ys)" using L(2) [OF j(1)] cs by simp
  have mem: "x \<in> set (cs k) \<Longrightarrow> k < 138 \<Longrightarrow> k \<noteq> j \<Longrightarrow> x \<noteq> i \<and> (xs \<noteq> [] \<longrightarrow> x \<noteq> last xs)" for x k
    using links_disjoint [OF links, of k j x] j cs by auto
  have lt: "x < length rs" if "x \<in> set (cs k)" "k < 138" for x k
    using L(3) [OF that(2,1)] .
  have same: "chain (offs rs') (nxt rs') p (cs k) = chain (offs rs) (nxt rs) p (cs k)"
    if "k < 138" "k \<noteq> j" for p k
  proof (rule chain_nxt_cong)
    fix x assume x: "x \<in> set (cs k)"
    then show "nxt rs' x = nxt rs x" using mem [OF x that] lt [OF x that(1)] rs'(3) by auto
  qed (simp add: rs'(2))
  have ch: "chain (offs rs') (nxt rs') (ps' ! k) (?cs k)" if k: "k < 138" for k
  proof (cases "k = j'")
    case True
    have "i < length rs" using lt [of i j] cs j(1) by simp
    then have "nxt rs' i = ps ! j'" by (simp add: rs'(3))
    moreover have "ps' ! k = offs rs i" using True ps' [OF k] by simp
    ultimately show ?thesis
      using True same [OF j(2)] j(3) L(1) [OF j(2)] rs'(2) by simp
  next
    case False
    show ?thesis
    proof (cases "k = j")
      case True
      let ?F = "\<lambda>a. if xs \<noteq> [] \<and> a = last xs then nxt rs i else nxt rs a"
      have "chain (offs rs) ?F (if xs = [] then nxt rs i else ps ! j) (xs @ ys)"
        using L(1) [OF j(1)] d cs by (intro chain_unlink) simp_all
      moreover have "chain (offs rs') (nxt rs') p (xs @ ys) = chain (offs rs) ?F p (xs @ ys)" for p
      proof (rule chain_nxt_cong)
        fix x assume "x \<in> set (xs @ ys)"
        then have "x < length rs" "x \<noteq> i" using d lt [of x j] cs j(1) by auto
        then show "nxt rs' x = ?F x" by (simp add: rs'(3))
      qed (simp add: rs'(2))
      ultimately show ?thesis using True False ps' [OF k] by (cases "xs = []") simp_all
    next
      case F: False
      with False k same L(1) [OF k] ps' [OF k] show ?thesis by simp
    qed
  qed
  have i_new: "i \<notin> set (cs k)" if "k < 138" "k \<noteq> j" for k
    using mem [of i k] that by auto
  have di: "distinct (?cs k) \<and> set (?cs k) \<subseteq> {..<length rs'}" if k: "k < 138" for k
  proof -
    have "distinct (cs k)" "set (cs k) \<subseteq> {..<length rs}" using L(2,3) [OF k] by auto
    moreover have "set (xs @ i # ys) \<subseteq> {..<length rs}" using lt [of _ j] cs j(1) by auto
    moreover have "i \<notin> set (cs j')" using i_new [of j'] j by auto
    ultimately show ?thesis using d rs'(1) by auto
  qed
  have set_cs: "set (?cs k) = (if k = j' then insert i (set (cs j')) else set (cs k) - {i})"
    if "k < 138" for k
    using that i_new [of k] d cs by auto
  have dj: "set (?cs k) \<inter> set (?cs l) = {}" if "k < 138" "l < 138" "k \<noteq> l" for k l
  proof -
    have "set (cs k) \<inter> set (cs l) = {}" using links that unfolding links_def by blast
    then show ?thesis unfolding set_cs [OF that(1)] set_cs [OF that(2)] using that(3) by auto
  qed
  have cov: "\<exists>k<138. x \<in> set (?cs k)" if x: "x < length rs'" for x
  proof (cases "x = i")
    case True
    with j show ?thesis by (intro exI [of _ j']) auto
  next
    case False
    obtain k where "k < 138" "x \<in> set (cs k)" using links x rs'(1) by (auto simp: links_def)
    with False set_cs [of k] show ?thesis by (intro exI [of _ k]) auto
  qed
  show ?thesis unfolding links_def using ch di dj cov by blast
qed

lemma links_add:
  assumes links: "links ps rs cs" and j: "j < 138" and len: "length ps = 138"
    and r: "r_ptr r = ps ! j"
  shows "links (ps[j := offs rs (length rs)]) (rs @ [r]) (cs(j := length rs # cs j))"
proof -
  let ?n = "length rs" and ?rs = "rs @ [r]" and ?cs = "cs(j := length rs # cs j)"
  note L = linksD [OF links]
  have same: "chain (offs ?rs) (nxt ?rs) p (cs k) = chain (offs rs) (nxt rs) p (cs k)"
    if "k < 138" for p k
    using L(3) [OF that] by (intro chain_nxt_cong) (auto simp: nxt_def nth_append offs_append less_imp_le)
  have "chain (offs ?rs) (nxt ?rs) (ps[j := offs rs ?n] ! k) (?cs k)" if "k < 138" for k
    using that same L(1) [OF that] r len j by (auto simp: offs_append nxt_def nth_list_update)
  moreover have "distinct (?cs k) \<and> set (?cs k) \<subseteq> {..<length ?rs}" if "k < 138" for k
    using L(2,3) [OF that] by (auto simp: less_Suc_eq)
  moreover have "set (?cs k) \<inter> set (?cs l) = {}" if "k < 138" "l < 138" "k \<noteq> l" for k l
  proof -
    have "set (cs k) \<inter> set (cs l) = {}" using links that unfolding links_def by blast
    moreover have "?n \<notin> set (cs k)" "?n \<notin> set (cs l)"
      using L(3) [OF that(1), of ?n] L(3) [OF that(2), of ?n] by auto
    ultimately show ?thesis using that(3) by auto
  qed
  moreover have "\<exists>k<138. x \<in> set (?cs k)" if x: "x < length ?rs" for x
  proof (cases "x = ?n")
    case True
    with j show ?thesis by (intro exI [of _ j]) auto
  next
    case False
    with x have "x < length rs" by simp
    then obtain k where "k < 138" "x \<in> set (cs k)" using links by (auto simp: links_def)
    then show ?thesis by (intro exI [of _ k]) auto
  qed
  ultimately show ?thesis unfolding links_def by blast
qed

section \<open>What the records say\<close>

definition live :: "(nat \<Rightarrow> nat list) \<Rightarrow> nat set" where
  "live cs = {i. \<exists>j. 0 < j \<and> j < 138 \<and> i \<in> set (cs j)}"

lemma lookup_iff:
  assumes "conts rs dat cs"
  shows "lookup rs dat cs k = Some d \<longleftrightarrow>
           (\<exists>i\<in>live cs. r_key (rs ! i) = k \<and> data_at dat (rs ! i) = d)"
proof
  assume "lookup rs dat cs k = Some d"
  then obtain i where "find (\<lambda>i. r_key (rs ! i) = k) (cs (key_slot k)) = Some i" "data_at dat (rs ! i) = d"
    by (auto simp: lookup_def)
  moreover from this have "i \<in> set (cs (key_slot k))" "r_key (rs ! i) = k"
    by (auto simp: find_Some_iff)
  ultimately show "\<exists>i\<in>live cs. r_key (rs ! i) = k \<and> data_at dat (rs ! i) = d"
    using key_slot_bounds [of k] by (auto simp: live_def)
next
  assume "\<exists>i\<in>live cs. r_key (rs ! i) = k \<and> data_at dat (rs ! i) = d"
  then obtain i j where ij: "0 < j" "j < 138" "i \<in> set (cs j)" "r_key (rs ! i) = k"
    "data_at dat (rs ! i) = d" by (auto simp: live_def)
  then have slot: "key_slot k = j" and inj: "inj_on (\<lambda>i. r_key (rs ! i)) (set (cs j))"
    using assms by (auto simp: conts_def)
  obtain i' where i': "find (\<lambda>i. r_key (rs ! i) = k) (cs j) = Some i'"
    using ij(3,4) by (cases "find (\<lambda>i. r_key (rs ! i) = k) (cs j)") (auto simp: find_None_iff)
  then have "i' \<in> set (cs j)" "r_key (rs ! i') = k" by (auto simp: find_Some_iff)
  with inj ij have "i' = i" by (auto dest: inj_onD)
  with i' slot ij show "lookup rs dat cs k = Some d" by (simp add: lookup_def)
qed

lemma lookup_None:
  assumes "conts rs dat cs" "lookup rs dat cs k = None"
  shows "\<forall>i\<in>live cs. r_key (rs ! i) \<noteq> k"
  using lookup_iff [OF assms(1), of k] assms(2) by (metis option.distinct(1))

lemma map_eqI: "(\<And>k d. m k = Some d \<longleftrightarrow> m' k = Some d) \<Longrightarrow> m = m'"
proof (rule ext)
  fix k
  assume "\<And>k d. m k = Some d \<longleftrightarrow> m' k = Some d"
  then show "m k = m' k" by (metis option.exhaust)
qed

lemma data_at_cong:
  "r_doff r = r_doff r' \<Longrightarrow> r_dlen r = r_dlen r' \<Longrightarrow> data_at dat r = data_at dat r'"
  "r_doff r = r_doff r' \<Longrightarrow> r_dlen r = r_dlen r' \<Longrightarrow> data_wf dat r = data_wf dat r'"
  by (simp_all add: data_at_def data_wf_def)

text \<open>Overwriting the data of one record leaves the others' data alone.\<close>

lemma data_overlay:
  assumes c: "conts rs dat cs" and i: "i < length rs" and s: "length s + 1 = r_dlen (rs ! i)"
  defines "dat' \<equiv> overlay (r_doff (rs ! i)) (s @ [NEWLINE]) dat"
  shows "length dat' = length dat"
    and "data_at dat' (rs ! i) = s" "NUL \<notin> set s \<Longrightarrow> data_wf dat' (rs ! i)"
    and "\<And>x. x < length rs \<Longrightarrow> x \<noteq> i \<Longrightarrow> 0 < r_dlen (rs ! x) \<Longrightarrow>
           data_at dat' (rs ! x) = data_at dat (rs ! x) \<and> data_wf dat' (rs ! x) = data_wf dat (rs ! x)"
proof -
  have b: "r_doff (rs ! x) + r_dlen (rs ! x) \<le> length dat" if "x < length rs" for x
    using c that by (auto simp: conts_def)
  show "length dat' = length dat"
    using b [OF i] s by (simp add: dat'_def length_overlay)
  have own: "segment (r_doff (rs ! i)) (r_dlen (rs ! i)) dat' = s @ [NEWLINE]"
    unfolding dat'_def using b [OF i] s by (intro segment_overlay_same) simp_all
  have "segment (r_doff (rs ! i)) (r_dlen (rs ! i) - 1) dat' =
      take (r_dlen (rs ! i) - 1) (segment (r_doff (rs ! i)) (r_dlen (rs ! i)) dat')"
    by (simp add: segment_def)
  then show d: "data_at dat' (rs ! i) = s"
    unfolding data_at_def own using s by (metis add_diff_cancel_right' append_eq_conv_conj)
  then show "NUL \<notin> set s \<Longrightarrow> data_wf dat' (rs ! i)" by (simp add: data_wf_def own)
  fix x assume x: "x < length rs" "x \<noteq> i" "0 < r_dlen (rs ! x)"
  have dis: "r_doff (rs ! x) + r_dlen (rs ! x) \<le> r_doff (rs ! i) \<or>
      r_doff (rs ! i) + r_dlen (rs ! i) \<le> r_doff (rs ! x)"
    using c x i by (auto simp: conts_def)
  have "segment (r_doff (rs ! x)) n dat' = segment (r_doff (rs ! x)) n dat" if "n \<le> r_dlen (rs ! x)" for n
    unfolding dat'_def using dis that b [OF x(1)] b [OF i] s by (intro segment_overlay_other) auto
  then show "data_at dat' (rs ! x) = data_at dat (rs ! x) \<and> data_wf dat' (rs ! x) = data_wf dat (rs ! x)"
    by (simp add: data_at_def data_wf_def)
qed

text \<open>One record changes its key, its data and its chain (\<open>j'\<close> is the new one, the free list
  being number 0); everything else stays.\<close>

definition rec_change ::
  "nat list \<Rightarrow> irec list \<Rightarrow> irec list \<Rightarrow> string \<Rightarrow> string \<Rightarrow> (nat \<Rightarrow> nat list) \<Rightarrow> (nat \<Rightarrow> nat list)
     \<Rightarrow> nat \<Rightarrow> nat \<Rightarrow> string \<Rightarrow> string \<Rightarrow> bool" where
  "rec_change ps rs rs' dat dat' cs cs' i j' key' s \<longleftrightarrow>
     links ps rs cs \<and> conts rs dat cs \<and> (\<forall>r\<in>set rs. irec_ok r) \<and>
     i < length rs \<and> length rs' = length rs \<and>
     (\<forall>x<length rs. x \<noteq> i \<longrightarrow> r_key (rs' ! x) = r_key (rs ! x)) \<and> r_key (rs' ! i) = key' \<and>
     (\<forall>x<length rs. r_doff (rs' ! x) = r_doff (rs ! x) \<and> r_dlen (rs' ! x) = r_dlen (rs ! x)) \<and>
     dat' = overlay (r_doff (rs ! i)) (s @ [NEWLINE]) dat \<and> length s + 1 = r_dlen (rs ! i) \<and>
     j' < 138 \<and>
     (\<forall>k<138. set (cs' k) = (if k = j' then insert i (set (cs k)) else set (cs k) - {i})) \<and>
     (if j' = 0 then set key' \<subseteq> {SPACE}
      else key_slot key' = j' \<and> NUL \<notin> set s \<and> (\<forall>x\<in>set (cs j'). x \<noteq> i \<longrightarrow> r_key (rs ! x) \<noteq> key'))"

lemma rec_changeD:
  assumes "rec_change ps rs rs' dat dat' cs cs' i j' key' s"
  shows "links ps rs cs" "conts rs dat cs" "\<forall>r\<in>set rs. irec_ok r" "i < length rs" "length rs' = length rs"
    "\<And>x. x < length rs \<Longrightarrow> x \<noteq> i \<Longrightarrow> r_key (rs' ! x) = r_key (rs ! x)" "r_key (rs' ! i) = key'"
    "\<And>x. x < length rs \<Longrightarrow> r_doff (rs' ! x) = r_doff (rs ! x)"
    "\<And>x. x < length rs \<Longrightarrow> r_dlen (rs' ! x) = r_dlen (rs ! x)"
    "dat' = overlay (r_doff (rs ! i)) (s @ [NEWLINE]) dat" "length s + 1 = r_dlen (rs ! i)" "j' < 138"
    "\<And>k x. k < 138 \<Longrightarrow> x \<in> set (cs' k) \<longleftrightarrow> (if x = i then k = j' else x \<in> set (cs k))"
    "j' = 0 \<Longrightarrow> set key' \<subseteq> {SPACE}"
    "0 < j' \<Longrightarrow> key_slot key' = j'" "0 < j' \<Longrightarrow> NUL \<notin> set s"
    "\<And>x. 0 < j' \<Longrightarrow> x \<in> set (cs j') \<Longrightarrow> x \<noteq> i \<Longrightarrow> r_key (rs ! x) \<noteq> key'"
    "\<And>k x. k < 138 \<Longrightarrow> x \<in> set (cs k) \<Longrightarrow> x < length rs"
  using assms unfolding rec_change_def by (auto dest: linksD(3) split: if_splits)

lemma contsD:
  assumes "conts rs dat cs" "0 < j" "j < 138"
  shows "i \<in> set (cs j) \<Longrightarrow> key_slot (r_key (rs ! i)) = j" "i \<in> set (cs j) \<Longrightarrow> data_wf dat (rs ! i)"
    "inj_on (\<lambda>i. r_key (rs ! i)) (set (cs j))"
  using assms by (simp_all add: conts_def)

lemma conts_place:
  assumes "conts rs dat cs" "x < length rs"
  shows "r_doff (rs ! x) + r_dlen (rs ! x) \<le> length dat"
    and "y < length rs \<Longrightarrow> x \<noteq> y \<Longrightarrow>
      r_doff (rs ! x) + r_dlen (rs ! x) \<le> r_doff (rs ! y) \<or> r_doff (rs ! y) + r_dlen (rs ! y) \<le> r_doff (rs ! x)"
  using assms by (simp_all add: conts_def)

lemma conts_free: "conts rs dat cs \<Longrightarrow> x \<in> set (cs 0) \<Longrightarrow> set (r_key (rs ! x)) \<subseteq> {SPACE}"
  by (simp add: conts_def)

lemma rec_change_data_i:
  assumes "rec_change ps rs rs' dat dat' cs cs' i j' key' s"
  shows "data_at dat' (rs' ! i) = s" "NUL \<notin> set s \<Longrightarrow> data_wf dat' (rs' ! i)"
proof -
  note R = rec_changeD [OF assms]
  note d = data_overlay [OF R(2,4,11)]
  have "data_at dat' (rs' ! i) = data_at dat' (rs ! i)" "data_wf dat' (rs' ! i) = data_wf dat' (rs ! i)"
    using R(8,9) [OF R(4)] by (rule data_at_cong)+
  then show "data_at dat' (rs' ! i) = s" "NUL \<notin> set s \<Longrightarrow> data_wf dat' (rs' ! i)"
    using d(2,3) R(10) by simp_all
qed

lemma rec_change_data_other:
  assumes "rec_change ps rs rs' dat dat' cs cs' i j' key' s" "x < length rs" "x \<noteq> i"
  shows "data_at dat' (rs' ! x) = data_at dat (rs ! x)" "data_wf dat' (rs' ! x) = data_wf dat (rs ! x)"
proof -
  note R = rec_changeD [OF assms(1)]
  have "0 < r_dlen (rs ! x)" using R(3) assms(2) by (simp add: irec_ok_def)
  note d = data_overlay(4) [OF R(2,4,11) assms(2,3) this]
  have "data_at dat' (rs' ! x) = data_at dat' (rs ! x)" "data_wf dat' (rs' ! x) = data_wf dat' (rs ! x)"
    using R(8,9) [OF assms(2)] by (rule data_at_cong)+
  then show "data_at dat' (rs' ! x) = data_at dat (rs ! x)" "data_wf dat' (rs' ! x) = data_wf dat (rs ! x)"
    using d R(10) by simp_all
qed

lemma rec_change_key:
  assumes "rec_change ps rs rs' dat dat' cs cs' i j' key' s" "0 < k" "k < 138" "x \<in> set (cs' k)"
  shows "key_slot (r_key (rs' ! x)) = k \<and> data_wf dat' (rs' ! x)"
proof -
  note R = rec_changeD [OF assms(1)]
  show ?thesis
  proof (cases "x = i")
    case True
    then have "k = j'" using assms(4) R(13) [OF assms(3)] by simp
    then show ?thesis using True assms(2) R(7,15,16) rec_change_data_i [OF assms(1)] by simp
  next
    case False
    then have x: "x \<in> set (cs k)" using assms(4) R(13) [OF assms(3)] by simp
    then have lt: "x < length rs" using R(18) [OF assms(3)] by simp
    then show ?thesis
      using contsD(1,2) [OF R(2) assms(2,3) x] False R(6) rec_change_data_other [OF assms(1) lt] by simp
  qed
qed

lemma rec_change_inj:
  assumes "rec_change ps rs rs' dat dat' cs cs' i j' key' s" "0 < k" "k < 138"
  shows "inj_on (\<lambda>x. r_key (rs' ! x)) (set (cs' k))"
proof (rule inj_onI)
  note R = rec_changeD [OF assms(1)]
  have old: "z \<in> set (cs k)" "r_key (rs' ! z) = r_key (rs ! z)" if "z \<in> set (cs' k)" "z \<noteq> i" for z
    using that R(13) [OF assms(3), of z] R(6) [of z] R(18) [OF assms(3), of z] by simp_all
  have new: "r_key (rs' ! z) \<noteq> key'" if "z \<in> set (cs' k)" "z \<noteq> i" "i \<in> set (cs' k)" for z
    using that old [OF that(1,2)] R(13) [OF assms(3), of i] R(17) [of z] assms(2) by simp
  fix x y assume xy: "x \<in> set (cs' k)" "y \<in> set (cs' k)" "r_key (rs' ! x) = r_key (rs' ! y)"
  consider "x = i" "y = i" | "x = i" "y \<noteq> i" | "x \<noteq> i" "y = i" | "x \<noteq> i" "y \<noteq> i" by blast
  then show "x = y"
  proof cases
    case 2
    then show ?thesis using new [OF xy(2)] xy R(7) by simp
  next
    case 3
    then show ?thesis using new [OF xy(1)] xy R(7) by simp
  next
    case 4
    then show ?thesis
      using old [OF xy(1)] old [OF xy(2)] xy(3) inj_onD [OF contsD(3) [OF R(2) assms(2,3)], of x y] by simp
  qed simp
qed

lemma rec_change_conts:
  assumes "rec_change ps rs rs' dat dat' cs cs' i j' key' s"
  shows "conts rs' dat' cs'"
proof -
  note R = rec_changeD [OF assms]
  have free: "set (r_key (rs' ! x)) \<subseteq> {SPACE}" if "x \<in> set (cs' 0)" for x
  proof (cases "x = i")
    case True
    then show ?thesis using that R(13) [of 0 i] R(7,14) by simp
  next
    case False
    then have "x \<in> set (cs 0)" using that R(13) [of 0 x] by simp
    then show ?thesis using False conts_free [OF R(2), of x] R(6) R(18) [of 0 x] by simp
  qed
  have len: "length dat' = length dat" using data_overlay(1) [OF R(2,4,11)] R(10) by simp
  have bound: "r_doff (rs' ! x) + r_dlen (rs' ! x) \<le> length dat'" if "x < length rs'" for x
    using that conts_place(1) [OF R(2), of x] R(5,8,9) len by simp
  have dis: "r_doff (rs' ! x) + r_dlen (rs' ! x) \<le> r_doff (rs' ! y) \<or>
      r_doff (rs' ! y) + r_dlen (rs' ! y) \<le> r_doff (rs' ! x)"
    if "x < length rs'" "y < length rs'" "x \<noteq> y" for x y
    using that conts_place(2) [OF R(2), of x y] R(5,8,9) by simp
  show ?thesis
    unfolding conts_def using rec_change_key [OF assms] rec_change_inj [OF assms] free bound dis by simp
qed

lemma rec_change_live:
  assumes "rec_change ps rs rs' dat dat' cs cs' i j' key' s"
  shows "x \<in> live cs' \<longleftrightarrow> (if x = i then 0 < j' else x \<in> live cs)"
  using rec_changeD(12,13) [OF assms] unfolding live_def by auto

lemma live_lt:
  assumes "links ps rs cs" "x \<in> live cs"
  shows "x < length rs"
  using assms linksD(3) [OF assms(1)] unfolding live_def by blast

lemma live_key_unique:
  assumes c: "conts rs dat cs" and "x \<in> live cs" "y \<in> live cs" "r_key (rs ! x) = r_key (rs ! y)"
  shows "x = y"
proof -
  obtain k where k: "0 < k" "k < 138" "x \<in> set (cs k)" using assms(2) by (auto simp: live_def)
  obtain l where l: "0 < l" "l < 138" "y \<in> set (cs l)" using assms(3) by (auto simp: live_def)
  have "k = l" using contsD(1) [OF c k] contsD(1) [OF c l] assms(4) by simp
  then show ?thesis using inj_onD [OF contsD(3) [OF c k(1,2)] assms(4)] k l by simp
qed

lemma rec_change_lookup:
  assumes "rec_change ps rs rs' dat dat' cs cs' i j' key' s"
  shows "lookup rs' dat' cs' k = Some d \<longleftrightarrow> (0 < j' \<and> k = key' \<and> d = s) \<or>
           (\<exists>x\<in>live cs. x \<noteq> i \<and> r_key (rs ! x) = k \<and> data_at dat (rs ! x) = d)"
proof -
  note R = rec_changeD [OF assms]
  have "x < length rs" if "x \<in> live cs" for x using live_lt [OF R(1) that] .
  then have other: "r_key (rs' ! x) = r_key (rs ! x) \<and> data_at dat' (rs' ! x) = data_at dat (rs ! x)"
    if "x \<in> live cs" "x \<noteq> i" for x
    using that R(6) rec_change_data_other(1) [OF assms] by simp
  have "lookup rs' dat' cs' k = Some d \<longleftrightarrow>
      (\<exists>x. (if x = i then 0 < j' else x \<in> live cs) \<and> r_key (rs' ! x) = k \<and> data_at dat' (rs' ! x) = d)"
    unfolding lookup_iff [OF rec_change_conts [OF assms]] using rec_change_live [OF assms] by blast
  also have "\<dots> \<longleftrightarrow> (0 < j' \<and> r_key (rs' ! i) = k \<and> data_at dat' (rs' ! i) = d) \<or>
      (\<exists>x\<in>live cs. x \<noteq> i \<and> r_key (rs' ! x) = k \<and> data_at dat' (rs' ! x) = d)" by metis
  also have "\<dots> \<longleftrightarrow> (0 < j' \<and> key' = k \<and> s = d) \<or>
      (\<exists>x\<in>live cs. x \<noteq> i \<and> r_key (rs ! x) = k \<and> data_at dat (rs ! x) = d)"
    using R(7) rec_change_data_i(1) [OF assms] other by auto
  finally show ?thesis by blast
qed

lemma rec_change_lookup_free:
  assumes "rec_change ps rs rs' dat dat' cs cs' i 0 key' s" "i \<in> live cs"
  shows "lookup rs' dat' cs' = (lookup rs dat cs)(r_key (rs ! i) := None)"
proof (rule map_eqI)
  note R = rec_changeD [OF assms(1)]
  fix k d
  have "(\<exists>x\<in>live cs. x \<noteq> i \<and> r_key (rs ! x) = k \<and> data_at dat (rs ! x) = d) \<longleftrightarrow>
      k \<noteq> r_key (rs ! i) \<and> lookup rs dat cs k = Some d"
    unfolding lookup_iff [OF R(2)] using live_key_unique [OF R(2) _ assms(2)] by metis
  then show "lookup rs' dat' cs' k = Some d \<longleftrightarrow>
      ((lookup rs dat cs)(r_key (rs ! i) := None)) k = Some d"
    unfolding rec_change_lookup [OF assms(1)] by simp
qed

lemma rec_change_lookup_live:
  assumes "rec_change ps rs rs' dat dat' cs cs' i j' key' s" "0 < j'"
    and "i \<in> live cs \<Longrightarrow> r_key (rs ! i) = key'"
  shows "lookup rs' dat' cs' = (lookup rs dat cs)(key' \<mapsto> s)"
proof (rule map_eqI)
  note R = rec_changeD [OF assms(1)]
  fix k d
  have uniq: "r_key (rs ! x) \<noteq> key'" if x: "x \<in> live cs" "x \<noteq> i" for x
  proof -
    obtain l where l: "0 < l" "l < 138" "x \<in> set (cs l)" using x(1) unfolding live_def by blast
    show ?thesis
      using contsD(1) [OF R(2) l] l(3) R(15) [OF assms(2)] R(17) [OF assms(2), of x] x(2) by metis
  qed
  have "k \<noteq> key' \<Longrightarrow> (\<exists>x\<in>live cs. x \<noteq> i \<and> r_key (rs ! x) = k \<and> data_at dat (rs ! x) = d) \<longleftrightarrow>
      lookup rs dat cs k = Some d"
    unfolding lookup_iff [OF R(2)] using assms(3) by metis
  then show "lookup rs' dat' cs' k = Some d \<longleftrightarrow> ((lookup rs dat cs)(key' \<mapsto> s)) k = Some d"
    unfolding rec_change_lookup [OF assms(1)] using assms(2) uniq by auto
qed

text \<open>A record is added at the end of both files.\<close>

lemma add_old_data:
  assumes "conts rs dat cs" "x < length rs" "0 < r_dlen (rs ! x)"
  shows "data_at (dat @ e) (rs ! x) = data_at dat (rs ! x)"
    "data_wf (dat @ e) (rs ! x) = data_wf dat (rs ! x)"
proof -
  have "segment (r_doff (rs ! x)) n (dat @ e) = segment (r_doff (rs ! x)) n dat" if "n \<le> r_dlen (rs ! x)" for n
    using that conts_place(1) [OF assms(1,2)] by (simp add: segment_def)
  then show "data_at (dat @ e) (rs ! x) = data_at dat (rs ! x)"
    "data_wf (dat @ e) (rs ! x) = data_wf dat (rs ! x)"
    by (simp_all add: data_at_def data_wf_def)
qed

lemma add_new_data:
  assumes "r_doff r = length dat" "r_dlen r = length d + 1"
  shows "data_at (dat @ d @ [NEWLINE]) r = d" "NUL \<notin> set d \<Longrightarrow> data_wf (dat @ d @ [NEWLINE]) r"
  using assms by (simp_all add: data_at_def data_wf_def segment_def)

lemma conts_add:
  assumes links: "links ps rs cs" and c: "conts rs dat cs" and ok: "\<forall>r\<in>set rs. irec_ok r"
    and r: "r_key r = k" "r_doff r = length dat" "r_dlen r = length d + 1" and d: "NUL \<notin> set d"
    and new: "lookup rs dat cs k = None"
  defines "cs' \<equiv> cs(key_slot k := length rs # cs (key_slot k))"
  shows "conts (rs @ [r]) (dat @ d @ [NEWLINE]) cs'"
proof -
  let ?rs = "rs @ [r]" and ?dat = "dat @ d @ [NEWLINE]" and ?n = "length rs"
  note L = linksD(3) [OF links]
  have slot: "0 < key_slot k" "key_slot k < 138" by (rule key_slot_bounds)+
  have old: "?rs ! x = rs ! x" "data_wf ?dat (rs ! x) = data_wf dat (rs ! x)" if "x < ?n" for x
    using that add_old_data [OF c that] ok by (simp_all add: nth_append irec_ok_def)
  have mem: "x \<in> set (cs' j) \<longleftrightarrow> x \<in> set (cs j) \<or> (j = key_slot k \<and> x = ?n)" for x j
    by (auto simp: cs'_def)
  have key: "key_slot (r_key (?rs ! x)) = j \<and> data_wf ?dat (?rs ! x)"
    if "0 < j" "j < 138" "x \<in> set (cs' j)" for j x
  proof (cases "x \<in> set (cs j)")
    case True
    then show ?thesis using contsD(1,2) [OF c that(1,2) True] old [of x] L [OF that(2) True] by simp
  next
    case False
    with that mem r d add_new_data [of r dat d] show ?thesis by simp
  qed
  have fresh: "r_key (rs ! x) \<noteq> k" if "x \<in> set (cs (key_slot k))" for x
    using lookup_None [OF c new] that slot by (auto simp: live_def)
  have inj: "inj_on (\<lambda>x. r_key (?rs ! x)) (set (cs' j))" if j: "0 < j" "j < 138" for j
  proof -
    have "inj_on (\<lambda>x. r_key (?rs ! x)) (set (cs j))"
      using contsD(3) [OF c j] old(1) L [OF j(2)] by (simp add: inj_on_def)
    moreover have "r_key (?rs ! ?n) \<notin> (\<lambda>x. r_key (?rs ! x)) ` (set (cs (key_slot k)) - {?n})"
    proof
      assume "r_key (?rs ! ?n) \<in> (\<lambda>x. r_key (?rs ! x)) ` (set (cs (key_slot k)) - {?n})"
      then obtain x where x: "x \<in> set (cs (key_slot k))" "r_key (?rs ! ?n) = r_key (?rs ! x)" by blast
      then show False using fresh [OF x(1)] old(1) [OF L [OF slot(2) x(1)]] r(1) by simp
    qed
    ultimately show ?thesis using j by (auto simp: cs'_def)
  qed
  have free: "set (r_key (?rs ! x)) \<subseteq> {SPACE}" if "x \<in> set (cs' 0)" for x
    using that slot(1) conts_free [OF c, of x] old(1) [of x] L [of 0 x] mem [of x 0] by simp
  have bound: "r_doff (?rs ! x) + r_dlen (?rs ! x) \<le> length ?dat" if "x < length ?rs" for x
    using that conts_place(1) [OF c, of x] r by (auto simp: nth_append less_Suc_eq)
  have dis: "r_doff (?rs ! x) + r_dlen (?rs ! x) \<le> r_doff (?rs ! y) \<or>
      r_doff (?rs ! y) + r_dlen (?rs ! y) \<le> r_doff (?rs ! x)"
    if "x < length ?rs" "y < length ?rs" "x \<noteq> y" for x y
    using that conts_place [OF c, of x] conts_place [OF c, of y] r
    by (auto simp: nth_append less_Suc_eq)
  show ?thesis unfolding conts_def using key inj free bound dis by blast
qed

lemma lookup_add:
  assumes links: "links ps rs cs" and c: "conts rs dat cs" and ok: "\<forall>r\<in>set rs. irec_ok r"
    and r: "r_key r = k" "r_doff r = length dat" "r_dlen r = length d + 1" and d: "NUL \<notin> set d"
    and new: "lookup rs dat cs k = None"
  shows "lookup (rs @ [r]) (dat @ d @ [NEWLINE]) (cs(key_slot k := length rs # cs (key_slot k)))
       = (lookup rs dat cs)(k \<mapsto> d)"
proof (rule map_eqI)
  fix q e
  let ?rs = "rs @ [r]" and ?dat = "dat @ d @ [NEWLINE]" and ?n = "length rs"
  let ?cs = "cs(key_slot k := ?n # cs (key_slot k))"
  have mem: "x \<in> set (?cs j) \<longleftrightarrow> x \<in> set (cs j) \<or> (j = key_slot k \<and> x = ?n)" for x j by auto
  have live: "live ?cs = insert ?n (live cs)"
    unfolding live_def mem using key_slot_bounds [of k] by blast
  have old: "?rs ! x = rs ! x" "data_at ?dat (rs ! x) = data_at dat (rs ! x)" if "x \<in> live cs" for x
    using live_lt [OF links that] add_old_data(1) [OF c, of x] ok by (simp_all add: nth_append irec_ok_def)
  have "lookup ?rs ?dat ?cs q = Some e \<longleftrightarrow>
      (r_key (?rs ! ?n) = q \<and> data_at ?dat (?rs ! ?n) = e) \<or>
      (\<exists>x\<in>live cs. r_key (?rs ! x) = q \<and> data_at ?dat (?rs ! x) = e)"
    unfolding lookup_iff [OF conts_add [OF assms]] live by blast
  also have "\<dots> \<longleftrightarrow> (k = q \<and> d = e) \<or> (\<exists>x\<in>live cs. r_key (rs ! x) = q \<and> data_at dat (rs ! x) = e)"
    using r(1) add_new_data(1) [OF r(2,3)] by (simp add: old cong: bex_cong)
  finally have "lookup ?rs ?dat ?cs q = Some e \<longleftrightarrow> (k = q \<and> d = e) \<or>
      (\<exists>x\<in>live cs. r_key (rs ! x) = q \<and> data_at dat (rs ! x) = e)" .
  then show "lookup ?rs ?dat ?cs q = Some e \<longleftrightarrow> ((lookup rs dat cs)(k \<mapsto> d)) q = Some e"
    unfolding lookup_iff [OF c, symmetric] using new by auto
qed

end
