(* ===== verification/Db_Refine.thy ===== *)
theory Db_Refine
  imports Db_Map
begin

text \<open>
  The operations of \<^verbatim>\<open>mydb/db.c\<close> on files that represent a map: searching a chain,
  unlinking and reusing records, and the refinement of \<open>db_fetch\<close>, \<open>db_store\<close> and
  \<open>db_delete\<close> to operations on the map.
\<close>

declare find_loop.simps [simp del]
declare findfree_loop.simps [simp del]
declare nextrec_loop.simps [simp del]

section \<open>States of the files\<close>

definition rep :: "db \<Rightarrow> nat list \<Rightarrow> irec list \<Rightarrow> string \<Rightarrow> (nat \<Rightarrow> nat list) \<Rightarrow> bool" where
  "rep db ps rs dat cs \<longleftrightarrow> lay db ps rs dat \<and> links ps rs cs \<and> conts rs dat cs"

definition pred_loc :: "nat \<Rightarrow> nat list \<Rightarrow> loc" where
  "pred_loc j xs = (if xs = [] then Slot j else Rec (last xs))"

lemma db_rep_iff:
  "db_rep db m \<longleftrightarrow> locks db = [] \<and> (\<exists>ps rs dat cs. rep db ps rs dat cs \<and> m = lookup rs dat cs)"
  by (auto simp: db_rep_def rep_def)

lemma repD:
  assumes "rep db ps rs dat cs"
  shows "lay db ps rs dat" "links ps rs cs" "conts rs dat cs" "\<forall>r\<in>set rs. irec_ok r"
  using assms by (auto simp: rep_def lay_def)

lemma rep_simps [simp]:
  "rep (db\<lparr>chainoff := a\<rparr>) ps rs dat cs = rep db ps rs dat cs"
  "rep (db\<lparr>ptroff := a\<rparr>) ps rs dat cs = rep db ps rs dat cs"
  "rep (db\<lparr>locks := l\<rparr>) ps rs dat cs = rep db ps rs dat cs"
  "rep (db\<lparr>errno := e\<rparr>) ps rs dat cs = rep db ps rs dat cs"
  by (simp_all add: rep_def)

lemma rep_counters [simp]:
  "rep (db\<lparr>cnt_fetchok := c\<rparr>) ps rs dat cs = rep db ps rs dat cs"
  "rep (db\<lparr>cnt_fetcherr := c\<rparr>) ps rs dat cs = rep db ps rs dat cs"
  "rep (db\<lparr>cnt_delok := c\<rparr>) ps rs dat cs = rep db ps rs dat cs"
  "rep (db\<lparr>cnt_delerr := c\<rparr>) ps rs dat cs = rep db ps rs dat cs"
  "rep (db\<lparr>cnt_storerr := c\<rparr>) ps rs dat cs = rep db ps rs dat cs"
  "rep (db\<lparr>cnt_stor1 := c\<rparr>) ps rs dat cs = rep db ps rs dat cs"
  "rep (db\<lparr>cnt_stor2 := c\<rparr>) ps rs dat cs = rep db ps rs dat cs"
  "rep (db\<lparr>cnt_stor3 := c\<rparr>) ps rs dat cs = rep db ps rs dat cs"
  "rep (db\<lparr>cnt_stor4 := c\<rparr>) ps rs dat cs = rep db ps rs dat cs"
  "rep (db\<lparr>cnt_nextrec := c\<rparr>) ps rs dat cs = rep db ps rs dat cs"
  by (simp_all add: rep_def lay_def)

lemma lay_dat: "lay db ps rs dat \<Longrightarrow> lay (db\<lparr>datoff := a, datlen := b, datfd := f\<rparr>) ps rs (fbytes f)"
  by (simp add: lay_def)

lemma lay_idx:
  assumes "lay db ps rs dat" "fbytes f = idx_bytes ps' rs'" "length ps' = 138"
    "\<forall>p\<in>set ps'. p \<le> 99999" "\<forall>r\<in>set rs'. irec_ok r"
  shows "lay (db\<lparr>idxfd := f\<rparr>) ps' rs' dat"
  using assms by (simp add: lay_def)

lemma lay_put:
  assumes "lay db ps rs dat" "loc_ok rs l" "p \<le> 99999"
  shows "lay (db\<lparr>idxfd := (idxfd db)\<lparr>fbytes := idx_bytes (put_ps ps l p) (put_rs rs l p), fpos := n\<rparr>\<rparr>)
           (put_ps ps l p) (put_rs rs l p) dat"
proof (rule lay_idx [OF assms(1)])
  note L = layD [OF assms(1)]
  show "\<forall>q\<in>set (put_ps ps l p). q \<le> 99999"
    using L(7) assms(3) by (cases l) (auto dest!: set_update_subset_insert [THEN subsetD])
  show "\<forall>r\<in>set (put_rs rs l p). irec_ok r"
  proof (cases l)
    case (Rec i)
    with assms lay_nth_ok [OF assms(1)] have "irec_ok ((rs ! i)\<lparr>r_ptr := p\<rparr>)"
      by (simp add: irec_ok_def irec_body_def)
    with Rec L(8) show ?thesis by (auto dest!: set_update_subset_insert [THEN subsetD])
  qed (use L in simp)
qed (use layD [OF assms(1)] in \<open>cases l; simp\<close>)+

lemma offs_put:
  assumes "lay db ps rs dat" "loc_ok rs l" "p \<le> 99999"
  shows "offs (put_rs rs l p) = offs rs"
proof (cases l)
  case (Rec i)
  have "irec_ok (rs ! i)" "irec_ok ((rs ! i)\<lparr>r_ptr := p\<rparr>)"
    using assms lay_nth_ok [OF assms(1)] Rec by (simp_all add: irec_ok_def irec_body_def)
  then have "length (irec_enc ((rs ! i)\<lparr>r_ptr := p\<rparr>)) = length (irec_enc (rs ! i))"
    by (simp add: length_irec_enc irec_body_def)
  with Rec show ?thesis by (simp add: offs_update fun_eq_iff)
qed simp

lemma length_put_rs [simp]: "length (put_rs rs l p) = length rs"
  by (cases l) simp_all

section \<open>Finding a key\<close>

lemma find_and_lock_unfold:
  assumes "rep db ps rs dat cs" "locks db = []"
  obtains db0 where "rep db0 ps rs dat cs" "chainoff db0 = int (7 * key_slot k)"
    "ptroff db0 = int (7 * key_slot k)"
    "locks db0 = [(IdxFd, int (7 * key_slot k), 1, if w then F_WRLCK else F_RDLCK)]"
    "db_find_and_lock db k w =
       andthen (find_loop (Suc (length (fbytes (idxfd db0)))) db0 k (int (ps ! key_slot k)))
         (\<lambda>(offset, db). Inr (if offset = 0 then - 1 else 0, db))"
proof -
  let ?o = "int (7 * key_slot k)"
  let ?d1 = "db\<lparr>chainoff := ?o, ptroff := ?o,
    locks := [(IdxFd, ?o, 1, if w then F_WRLCK else F_RDLCK)]\<rparr>"
  let ?d2 = "?d1\<lparr>idxfd := (idxfd db)\<lparr>fpos := 7 * key_slot k + 7\<rparr>\<rparr>"
  note L = layD [OF repD(1) [OF assms(1)]]
  have "lay ?d1 ps rs dat" using repD(1) [OF assms(1)] by (simp add: lay_def)
  then have rp: "db_readptr ?d1 ?o = Inr (int (ps ! key_slot k), ?d2)"
    using readptr_ok [of ?d1 ps rs dat "Slot (key_slot k)" ?o] key_slot_bounds [of k] by simp
  have "rep ?d2 ps rs dat cs" using assms(1) by (simp add: rep_def lay_def)
  then show ?thesis
    using that [of ?d2] rp L assms(2) chainoff_slot [of db k]
    by (cases w) (simp_all add: db_find_and_lock_def Let_def lock_ok PTR_SZ_def)
qed

lemma find_and_lock_miss:
  assumes "rep db ps rs dat cs" "locks db = []" "lookup rs dat cs k = None"
  shows "\<exists>db'. db_find_and_lock db k w = Inr (- 1, db') \<and> rep db' ps rs dat cs \<and>
           chainoff db' = int (7 * key_slot k) \<and>
           locks db' = [(IdxFd, int (7 * key_slot k), 1, if w then F_WRLCK else F_RDLCK)]"
proof -
  note R = repD [OF assms(1)]
  let ?j = "key_slot k"
  have j: "?j < 138" by (rule key_slot_bounds)
  have "find (\<lambda>i. r_key (rs ! i) = k) (cs ?j) = None" using assms(3) by (simp add: lookup_def)
  then have no: "\<forall>i\<in>set (cs ?j). r_key (rs ! i) \<noteq> k" by (auto simp: find_None_iff)
  show ?thesis
  proof (rule find_and_lock_unfold [OF assms(1,2), of k w])
    fix db0
    assume d: "rep db0 ps rs dat cs" "chainoff db0 = int (7 * ?j)"
      "locks db0 = [(IdxFd, int (7 * ?j), 1, if w then F_WRLCK else F_RDLCK)]"
      "db_find_and_lock db k w =
       andthen (find_loop (Suc (length (fbytes (idxfd db0)))) db0 k (int (ps ! ?j)))
         (\<lambda>(offset, db). Inr (if offset = 0 then - 1 else 0, db))"
    have sub: "set (cs ?j) \<subseteq> {..<length rs}" using linksD(3) [OF R(2) j] by auto
    have "\<exists>db'. find_loop (Suc (length (fbytes (idxfd db0)))) db0 k (int (ps ! ?j)) = Inr (0, db') \<and>
        lay db' ps rs dat \<and> chainoff db' = chainoff db0 \<and> locks db' = locks db0"
      by (rule find_loop_miss [OF repD(1) [OF d(1)] linksD(1) [OF R(2) j] sub
            fuel_enough [OF repD(1) [OF d(1)] R(2) j] no refl])
    with d R show ?thesis by (auto simp: rep_def)
  qed
qed

lemma find_and_lock_hit:
  assumes "rep db ps rs dat cs" "locks db = []" "lookup rs dat cs k = Some d"
  shows "\<exists>db' xs i ys. db_find_and_lock db k w = Inr (0, db') \<and> rep db' ps rs dat cs \<and>
           chainoff db' = int (7 * key_slot k) \<and>
           locks db' = [(IdxFd, int (7 * key_slot k), 1, if w then F_WRLCK else F_RDLCK)] \<and>
           cs (key_slot k) = xs @ i # ys \<and> loaded db' rs i \<and> r_key (rs ! i) = k \<and>
           data_at dat (rs ! i) = d \<and> ptroff db' = int (loc_off rs (pred_loc (key_slot k) xs))"
proof -
  note R = repD [OF assms(1)]
  let ?j = "key_slot k"
  have j: "?j < 138" by (rule key_slot_bounds)
  obtain i where i: "find (\<lambda>i. r_key (rs ! i) = k) (cs ?j) = Some i" "data_at dat (rs ! i) = d"
    using assms(3) by (auto simp: lookup_def)
  then obtain n where n: "n < length (cs ?j)" "r_key (rs ! i) = k" "i = cs ?j ! n"
    "\<forall>m<n. r_key (rs ! (cs ?j ! m)) \<noteq> k" by (auto simp: find_Some_iff)
  define xs where "xs = take n (cs ?j)"
  define ys where "ys = drop (Suc n) (cs ?j)"
  have cs: "cs ?j = xs @ i # ys" using n(1,3) by (simp add: xs_def ys_def id_take_nth_drop)
  have before: "\<forall>x\<in>set xs. r_key (rs ! x) \<noteq> k"
  proof
    fix x assume "x \<in> set xs"
    then obtain m where "m < n" "x = cs ?j ! m" by (auto simp: xs_def in_set_conv_nth)
    then show "r_key (rs ! x) \<noteq> k" using n(4) by simp
  qed
  show ?thesis
  proof (rule find_and_lock_unfold [OF assms(1,2), of k w])
    fix db0
    assume d: "rep db0 ps rs dat cs" "chainoff db0 = int (7 * ?j)" "ptroff db0 = int (7 * ?j)"
      "locks db0 = [(IdxFd, int (7 * ?j), 1, if w then F_WRLCK else F_RDLCK)]"
      "db_find_and_lock db k w =
       andthen (find_loop (Suc (length (fbytes (idxfd db0)))) db0 k (int (ps ! ?j)))
         (\<lambda>(offset, db). Inr (if offset = 0 then - 1 else 0, db))"
    have sub: "set (xs @ i # ys) \<subseteq> {..<length rs}" using linksD(3) [OF R(2) j] cs by auto
    have fuel: "length xs < Suc (length (fbytes (idxfd db0)))"
      using fuel_enough [OF repD(1) [OF d(1)] R(2) j] cs by simp
    have ch: "chain (offs rs) (nxt rs) (ps ! ?j) (xs @ i # ys)" using linksD(1) [OF R(2) j] cs by simp
    have "\<exists>db'. find_loop (Suc (length (fbytes (idxfd db0)))) db0 k (int (ps ! ?j)) =
          Inr (int (offs rs i), db') \<and> lay db' ps rs dat \<and> loaded db' rs i \<and>
        chainoff db' = chainoff db0 \<and> locks db' = locks db0 \<and>
        ptroff db' = (if xs = [] then ptroff db0 else int (offs rs (last xs)))"
      by (rule find_loop_hit [OF repD(1) [OF d(1)] ch sub fuel before n(2) refl])
    then obtain db' where f: "find_loop (Suc (length (fbytes (idxfd db0)))) db0 k (int (ps ! ?j)) =
          Inr (int (offs rs i), db')" "lay db' ps rs dat" "loaded db' rs i"
        "chainoff db' = chainoff db0" "locks db' = locks db0"
        "ptroff db' = (if xs = [] then ptroff db0 else int (offs rs (last xs)))" by blast
    have "ptroff db' = int (loc_off rs (pred_loc ?j xs))"
      using f(6) d(3) by (simp add: pred_loc_def)
    moreover have "db_find_and_lock db k w = Inr (0, db')" using d(5) f(1) by simp
    moreover have "rep db' ps rs dat cs" using f(2) R by (simp add: rep_def)
    ultimately show ?thesis using f(3-5) d(2,4) cs n(2) i(2) by auto
  qed
qed

section \<open>Fetching\<close>

lemma loaded_readdat:
  assumes "rep db ps rs dat cs" "loaded db rs i" "i \<in> set (cs j)" "0 < j" "j < 138"
  shows "\<exists>db'. db_readdat db = Inr (data_at dat (rs ! i), db') \<and> rep db' ps rs dat cs \<and>
           locks db' = locks db \<and> chainoff db' = chainoff db \<and> idxfd db' = idxfd db"
proof -
  note R = repD [OF assms(1)]
  let ?d = "data_at dat (rs ! i)"
  have lt: "i < length rs" using linksD(3) [OF R(2) assms(5,3)] .
  have wf: "data_wf dat (rs ! i)" using contsD(2) [OF R(3) assms(4,5,3)] .
  have pos: "0 < r_dlen (rs ! i)" using R(4) lt by (simp add: irec_ok_def)
  have "length ?d + 1 = r_dlen (rs ! i)"
    using conts_place(1) [OF R(3) lt] pos by (simp add: data_at_def)
  then have len: "r_dlen (rs ! i) = length ?d + 1" by simp
  have "db_readdat db = Inr (?d, db\<lparr>datbuf := ?d @ [NUL],
      datfd := (datfd db)\<lparr>fpos := r_doff (rs ! i) + length ?d + 1\<rparr>\<rparr>)"
  proof (rule readdat_ok)
    show "segment (r_doff (rs ! i)) (length ?d + 1) (fbytes (datfd db)) = ?d @ [NEWLINE]" "NUL \<notin> set ?d"
      using wf layD(5) [OF R(1)] len by (simp_all add: data_wf_def)
  qed (use assms(2) layD(1) [OF R(1)] len in \<open>simp_all add: loaded_def\<close>)
  moreover have "rep (db\<lparr>datbuf := ?d @ [NUL],
      datfd := (datfd db)\<lparr>fpos := r_doff (rs ! i) + length ?d + 1\<rparr>\<rparr>) ps rs dat cs"
    using assms(1) by (simp add: rep_def lay_def)
  ultimately show ?thesis by simp
qed

lemma fetch_ok:
  assumes "db_rep db m"
  shows "\<exists>db'. db_fetch db k = Inr (m k, db') \<and> db_rep db' m"
proof -
  obtain ps rs dat cs where r: "locks db = []" "rep db ps rs dat cs" "m = lookup rs dat cs"
    using assms by (auto simp: db_rep_iff)
  show ?thesis
  proof (cases "m k")
    case None
    with find_and_lock_miss [OF r(2,1), of k False] r(3) obtain db' where
      "db_find_and_lock db k False = Inr (- 1, db')" "rep db' ps rs dat cs"
      "chainoff db' = int (7 * key_slot k)" "locks db' = [(IdxFd, int (7 * key_slot k), 1, F_RDLCK)]"
      by auto
    with None r(3) layD(1) [OF repD(1)] show ?thesis
      by (auto simp: db_fetch_def lock_ok db_rep_iff)
  next
    case (Some d)
    with find_and_lock_hit [OF r(2,1), of k d False] r(3) obtain db' xs i ys where f:
      "db_find_and_lock db k False = Inr (0, db')" "rep db' ps rs dat cs"
      "chainoff db' = int (7 * key_slot k)" "locks db' = [(IdxFd, int (7 * key_slot k), 1, F_RDLCK)]"
      "cs (key_slot k) = xs @ i # ys" "loaded db' rs i" "data_at dat (rs ! i) = d"
      by auto
    from loaded_readdat [OF f(2,6), of "key_slot k"] f(5,7) key_slot_bounds [of k]
    obtain db'' where "db_readdat db' = Inr (d, db'')" "rep db'' ps rs dat cs"
      "locks db'' = locks db'" "chainoff db'' = chainoff db'" by auto
    with Some f r(3) layD(1) [OF repD(1)] show ?thesis
      by (auto simp: db_fetch_def lock_ok db_rep_iff)
  qed
qed

section \<open>Deleting\<close>

lemma takeWhile_replicate_append: "P c \<Longrightarrow> takeWhile P (replicate n c @ t) = replicate n c @ takeWhile P t"
  by (induction n) auto

lemma cstr_blank:
  "cstr (replicate (strlen b) SPACE @ drop (strlen b) b) = replicate (strlen b) SPACE"
proof -
  have d: "drop (strlen b) b = dropWhile (\<lambda>c. c \<noteq> NUL) b"
    by (simp add: strlen_def cstr_def dropWhile_eq_drop)
  have "takeWhile (\<lambda>c. c \<noteq> NUL) (dropWhile (\<lambda>c. c \<noteq> NUL) b) = []"
    by (induction b) auto
  then show ?thesis unfolding d by (simp add: cstr_def SPACE_def takeWhile_replicate_append)
qed

lemma cstr_blank_data: "cstr (replicate n SPACE @ [NUL]) = replicate n SPACE"
  by (rule cstr_append_nul) (auto simp: SPACE_def)

lemma pred_loc_facts:
  assumes "rep db ps rs dat cs" "cs j = xs @ i # ys" "j < 138"
  shows "loc_ok rs (pred_loc j xs)" "loc_get ps rs (pred_loc j xs) = offs rs i" "offs rs i \<le> 99999"
    "pred_loc j xs \<noteq> Rec i" "i < length rs"
proof -
  note R = repD [OF assms(1)]
  note L = linksD [OF R(2) assms(3)]
  have ch: "chain (offs rs) (nxt rs) (ps ! j) (xs @ i # ys)" using L(1) assms(2) by simp
  show ok: "loc_ok rs (pred_loc j xs)"
    using assms(2,3) L(3) [of "last xs"] by (auto simp: pred_loc_def)
  show g: "loc_get ps rs (pred_loc j xs) = offs rs i"
    using chain_hd [OF ch] chain_pred [OF ch] by (auto simp: pred_loc_def nxt_def)
  show "offs rs i \<le> 99999" using loc_get_le [OF R(1) ok] g by simp
  have "xs \<noteq> [] \<Longrightarrow> last xs \<in> set xs" by simp
  then show "pred_loc j xs \<noteq> Rec i" using L(2) assms(2) by (auto simp: pred_loc_def)
  show "i < length rs" using L(3) [of i] assms(2) by simp
qed

text \<open>The record that replaces a deleted one.\<close>

definition blanked :: "nat list \<Rightarrow> irec \<Rightarrow> irec" where
  "blanked ps r = r\<lparr>r_key := replicate (length (r_key r)) SPACE, r_ptr := ps ! 0\<rparr>"

lemma blanked_ok: "irec_ok r \<Longrightarrow> ps ! 0 \<le> 99999 \<Longrightarrow> irec_ok (blanked ps r)"
  by (simp add: irec_ok_def blanked_def irec_body_def SPACE_def SEP_def)

lemma blanked_length:
  "irec_ok r \<Longrightarrow> ps ! 0 \<le> 99999 \<Longrightarrow> length (irec_enc (blanked ps r)) = length (irec_enc r)"
  by (simp add: length_irec_enc blanked_ok) (simp add: blanked_def irec_body_def)

definition deleted_ps :: "nat list \<Rightarrow> irec list \<Rightarrow> nat \<Rightarrow> nat list \<Rightarrow> nat \<Rightarrow> nat list" where
  "deleted_ps ps rs j xs i = put_ps (ps[0 := offs rs i]) (pred_loc j xs) (r_ptr (rs ! i))"

definition deleted_rs :: "nat list \<Rightarrow> irec list \<Rightarrow> nat \<Rightarrow> nat list \<Rightarrow> nat \<Rightarrow> irec list" where
  "deleted_rs ps rs j xs i =
     put_rs (rs[i := blanked ps (rs ! i)]) (pred_loc j xs) (r_ptr (rs ! i))"

definition deleted_dat :: "irec list \<Rightarrow> string \<Rightarrow> nat \<Rightarrow> string" where
  "deleted_dat rs dat i =
     overlay (r_doff (rs ! i)) (replicate (r_dlen (rs ! i) - 1) SPACE @ [NEWLINE]) dat"

lemma ps0_le: "lay db ps rs dat \<Longrightarrow> ps ! 0 \<le> 99999"
  using loc_get_le [of db ps rs dat "Slot 0"] by simp

lemma deleted_rep:
  assumes r: "rep db ps rs dat cs" and cs: "cs j = xs @ i # ys" and j: "0 < j" "j < 138"
  defines "cs' \<equiv> cs(j := xs @ ys, 0 := i # cs 0)"
  shows "links (deleted_ps ps rs j xs i) (deleted_rs ps rs j xs i) cs'"
    "conts (deleted_rs ps rs j xs i) (deleted_dat rs dat i) cs'"
    "lookup (deleted_rs ps rs j xs i) (deleted_dat rs dat i) cs' = (lookup rs dat cs)(r_key (rs ! i) := None)"
    "offs (deleted_rs ps rs j xs i) = offs rs" "length (deleted_dat rs dat i) = length dat"
proof -
  note R = repD [OF r] and P = pred_loc_facts [OF r cs j(2)]
  let ?r = "blanked ps (rs ! i)" and ?rs1 = "rs[i := blanked ps (rs ! i)]"
  let ?rs = "deleted_rs ps rs j xs i" and ?ps = "deleted_ps ps rs j xs i" and ?dat = "deleted_dat rs dat i"
  have ok: "irec_ok (rs ! i)" using lay_nth_ok [OF R(1) P(5)] .
  have len: "length (irec_enc ?r) = length (irec_enc (rs ! i))"
    using ok ps0_le [OF R(1)] by (rule blanked_length)
  have o1: "offs ?rs1 = offs rs" using offs_update [OF len] by (simp add: fun_eq_iff)
  have l1: "length ?rs = length rs" by (simp add: deleted_rs_def)
  have pl: "xs \<noteq> [] \<Longrightarrow> last xs < length rs \<and> last xs \<noteq> i" using P(1,4) by (auto simp: pred_loc_def)
  have fields: "r_key (?rs ! x) = (if x = i then replicate (length (r_key (rs ! i))) SPACE else r_key (rs ! x))"
    "r_doff (?rs ! x) = r_doff (rs ! x)" "r_dlen (?rs ! x) = r_dlen (rs ! x)"
    "nxt ?rs x = (if x = i then ps ! 0 else if xs \<noteq> [] \<and> x = last xs then nxt rs i else nxt rs x)"
    if "x < length rs" for x
    using that pl P(5)
    by (auto simp: deleted_rs_def pred_loc_def blanked_def nth_list_update nxt_def)
  have psx: "?ps ! k = (if k = 0 then offs rs i else if k = j \<and> xs = [] then nxt rs i else ps ! k)"
    if "k < 138" for k
    using that j layD(6) [OF R(1)] by (auto simp: deleted_ps_def pred_loc_def nth_list_update nxt_def)
  show offs: "offs ?rs = offs rs"
  proof (cases "xs = []")
    case False
    have "irec_ok (?rs1 ! last xs)"
      using pl [OF False] lay_nth_ok [OF R(1)] by simp
    moreover have "r_ptr (rs ! i) \<le> 99999" using ok by (simp add: irec_ok_def)
    ultimately have "length (irec_enc ((?rs1 ! last xs)\<lparr>r_ptr := r_ptr (rs ! i)\<rparr>)) = length (irec_enc (?rs1 ! last xs))"
      by (simp add: length_irec_enc irec_ok_def irec_body_def)
    with o1 False show ?thesis
      by (simp add: deleted_rs_def pred_loc_def offs_update fun_eq_iff)
  qed (use o1 in \<open>simp add: deleted_rs_def pred_loc_def\<close>)
  have "0 \<noteq> j" "j \<noteq> 0" using j by auto
  then show "links ?ps ?rs cs'"
    unfolding cs'_def using j fields(4) psx l1 offs
    by (intro links_move [OF R(2) j(2) _ _ cs]) auto
  have d: "distinct (xs @ i # ys)" using linksD(2) [OF R(2) j(2)] cs by simp
  have other: "i \<notin> set (cs k)" if "k < 138" "k \<noteq> j" for k
    using links_disjoint [OF R(2) that(1) j(2), of i] that cs by auto
  have rc: "rec_change ps rs ?rs dat ?dat cs cs' i 0 (replicate (length (r_key (rs ! i))) SPACE)
      (replicate (r_dlen (rs ! i) - 1) SPACE)"
    unfolding rec_change_def cs'_def
    using R P(5) l1 fields ok d cs other j by (auto simp: deleted_dat_def irec_ok_def)
  show "conts ?rs ?dat cs'" using rc by (rule rec_change_conts)
  have "i \<in> live cs" using j cs by (auto simp: live_def)
  with rc show "lookup ?rs ?dat cs' = (lookup rs dat cs)(r_key (rs ! i) := None)"
    by (rule rec_change_lookup_free)
  show "length ?dat = length dat"
    unfolding deleted_dat_def using data_overlay(1) [OF R(3) P(5)] ok by (simp add: irec_ok_def)
qed

lemma dodelete_ok:
  assumes r: "rep db ps rs dat cs" and cs: "cs j = xs @ i # ys" and j: "0 < j" "j < 138"
    and ld: "loaded db rs i" and po: "ptroff db = int (loc_off rs (pred_loc j xs))"
    and lk: "locks db = [(IdxFd, int (7 * j), 1, t)]"
  shows "\<exists>db'. db_dodelete db = Inr db' \<and> locks db' = locks db \<and> chainoff db' = chainoff db \<and>
           rep db' (deleted_ps ps rs j xs i) (deleted_rs ps rs j xs i) (deleted_dat rs dat i)
             (cs(j := xs @ ys, 0 := i # cs 0))"
proof -
  note R = repD [OF r] and P = pred_loc_facts [OF r cs j(2)] and L = layD [OF repD(1) [OF r]]
  note D = deleted_rep [OF r cs j]
  have ok: "irec_ok (rs ! i)" using lay_nth_ok [OF R(1) P(5)] .
  let ?r = "blanked ps (rs ! i)" and ?n = "r_dlen (rs ! i) - 1"
  let ?k = "strlen (idxbuf db)"
  let ?d0 = "db\<lparr>datbuf := replicate (nat (datlen db - 1)) SPACE @ [NUL],
    idxbuf := replicate ?k SPACE @ drop ?k (idxbuf db), locks := (IdxFd, 0, 1, F_WRLCK) # locks db\<rparr>"
  let ?d1 = "?d0\<lparr>datoff := int (r_doff (rs ! i)), datlen := int ?n + 1,
    datfd := (datfd ?d0)\<lparr>fbytes := deleted_dat rs dat i, fpos := r_doff (rs ! i) + ?n + 1\<rparr>\<rparr>"
  let ?d2 = "?d1\<lparr>idxfd := (idxfd ?d1)\<lparr>fpos := 7\<rparr>\<rparr>"
  have dl: "int ?n + 1 = int (r_dlen (rs ! i))" "nat (datlen db - 1) = ?n"
    "datoff db = int (r_doff (rs ! i))" "length (r_key (rs ! i)) = ?k"
    using ok ld by (auto simp: irec_ok_def loaded_def strlen_def)
  have l1: "lay ?d1 ps rs (deleted_dat rs dat i)" using R(1) by (simp add: lay_def)
  have w1: "db_writedat ?d0 (replicate ?n SPACE) (datoff db) SEEK_SET = Inr ?d1"
    using writedat_set_ok [of ?d0 "datoff db" "r_doff (rs ! i)" "replicate ?n SPACE"] L dl(3)
    by (simp add: deleted_dat_def)
  have w2: "db_readptr ?d1 0 = Inr (int (ps ! 0), ?d2)"
    using readptr_ok [OF l1, of "Slot 0" 0] by simp
  have l2: "lay ?d2 ps rs (deleted_dat rs dat i)" using l1 by (simp add: lay_def)
  let ?rs1 = "rs[i := ?r]"
  let ?d3 = "?d2\<lparr>ptrval := int (r_ptr ?r), idxbuf := irec_body ?r @ [NUL], idxoff := int (offs rs i),
      idxfd := (idxfd ?d2)\<lparr>fbytes := idx_bytes ps ?rs1, fpos := offs rs i + length (irec_enc ?r)\<rparr>\<rparr>"
  have rok: "irec_ok ?r" "length (irec_enc ?r) = length (irec_enc (rs ! i))"
    using blanked_ok [OF ok ps0_le [OF R(1)]] blanked_length [OF ok ps0_le [OF R(1)]] by simp_all
  have w3: "db_writeidx ?d2 (replicate ?k SPACE) (idxoff db) SEEK_SET (int (ps ! 0)) = Inr ?d3"
    using ld dl by (intro writeidx_set_ok [OF l2 P(5) rok]) (simp_all add: loaded_def blanked_def)
  have l3: "lay ?d3 ps ?rs1 (deleted_dat rs dat i)"
    using l2 rok(1) by (auto simp: lay_def dest!: set_update_subset_insert [THEN subsetD])
  have o1: "offs ?rs1 = offs rs" using offs_update [OF rok(2)] by (simp add: fun_eq_iff)
  let ?d4 = "?d3\<lparr>idxfd := (idxfd ?d3)\<lparr>fbytes := idx_bytes (ps[0 := offs rs i]) ?rs1, fpos := 7\<rparr>\<rparr>"
  have w4: "db_writeptr ?d3 0 (int (offs rs i)) = Inr ?d4"
    using writeptr_ok [OF l3, of "Slot 0" "offs rs i" 0] P(3) by simp
  have l4: "lay ?d4 (ps[0 := offs rs i]) ?rs1 (deleted_dat rs dat i)"
    using lay_put [OF l3, of "Slot 0" "offs rs i"] P(3) by simp
  have lo: "loc_ok ?rs1 (pred_loc j xs)" "loc_off ?rs1 (pred_loc j xs) = loc_off rs (pred_loc j xs)"
    using P(1) o1 by (auto simp: pred_loc_def split: if_splits)
  have np: "r_ptr (rs ! i) \<le> 99999" using ok by (simp add: irec_ok_def)
  let ?d5 = "?d4\<lparr>idxfd := (idxfd ?d4)\<lparr>fbytes := idx_bytes (deleted_ps ps rs j xs i) (deleted_rs ps rs j xs i),
      fpos := loc_off rs (pred_loc j xs) + 7\<rparr>\<rparr>"
  have w5: "db_writeptr ?d4 (ptroff db) (ptrval db) = Inr ?d5"
    using writeptr_ok [OF l4 lo(1) np, of "ptroff db" "ptrval db"] po ld lo(2)
    by (simp add: loaded_def deleted_ps_def deleted_rs_def)
  have l5: "lay ?d5 (deleted_ps ps rs j xs i) (deleted_rs ps rs j xs i) (deleted_dat rs dat i)"
    using lay_put [OF l4 lo(1) np] by (simp add: deleted_ps_def deleted_rs_def)
  have "db_dodelete db = Inr (?d5\<lparr>locks := locks db\<rparr>)"
    using w1 w2 w3 w4 w5 dl L lk j
    by (simp add: db_dodelete_def Let_def lock_ok FREE_OFF_def cstr_blank cstr_blank_data)
  moreover have "lay (?d5\<lparr>locks := locks db\<rparr>) (deleted_ps ps rs j xs i) (deleted_rs ps rs j xs i)
      (deleted_dat rs dat i)" using l5 by (simp add: lay_def)
  ultimately show ?thesis using D(1,2) by (auto simp: rep_def)
qed

lemma delete_ok:
  assumes "db_rep db m"
  shows "\<exists>db'. db_delete db k = Inr (fst (kv_delete m k), db') \<and> db_rep db' (snd (kv_delete m k))"
proof -
  obtain ps rs dat cs where r: "locks db = []" "rep db ps rs dat cs" "m = lookup rs dat cs"
    using assms by (auto simp: db_rep_iff)
  show ?thesis
  proof (cases "m k")
    case None
    with find_and_lock_miss [OF r(2,1), of k True] r(3) obtain db' where
      "db_find_and_lock db k True = Inr (- 1, db')" "rep db' ps rs dat cs"
      "chainoff db' = int (7 * key_slot k)" "locks db' = [(IdxFd, int (7 * key_slot k), 1, F_WRLCK)]"
      by auto
    moreover have "m(k := None) = m" using None by auto
    ultimately show ?thesis using None r(3) layD(1) [OF repD(1)]
      by (auto simp: db_delete_def lock_ok db_rep_iff kv_delete_def)
  next
    case (Some d)
    with find_and_lock_hit [OF r(2,1), of k d True] r(3) obtain db' xs i ys where f:
      "db_find_and_lock db k True = Inr (0, db')" "rep db' ps rs dat cs"
      "chainoff db' = int (7 * key_slot k)" "locks db' = [(IdxFd, int (7 * key_slot k), 1, F_WRLCK)]"
      "cs (key_slot k) = xs @ i # ys" "loaded db' rs i" "r_key (rs ! i) = k"
      "ptroff db' = int (loc_off rs (pred_loc (key_slot k) xs))"
      by auto
    note K = key_slot_bounds [of k]
    from dodelete_ok [OF f(2,5) K f(6,8,4)] obtain db2 where d:
      "db_dodelete db' = Inr db2" "locks db2 = locks db'" "chainoff db2 = chainoff db'"
      "rep db2 (deleted_ps ps rs (key_slot k) xs i) (deleted_rs ps rs (key_slot k) xs i)
         (deleted_dat rs dat i) (cs(key_slot k := xs @ ys, 0 := i # cs 0))" by blast
    have "faults db2 = []" using layD(1) [OF repD(1) [OF d(4)]] .
    moreover have "lookup (deleted_rs ps rs (key_slot k) xs i) (deleted_dat rs dat i)
        (cs(key_slot k := xs @ ys, 0 := i # cs 0)) = m(k := None)"
      using deleted_rep(3) [OF f(2,5) K] f(7) r(3) by simp
    ultimately show ?thesis using Some f d
      by (auto simp: db_delete_def lock_ok db_rep_iff kv_delete_def intro!: exI)
  qed
qed

section \<open>The free list\<close>

lemma findfree_miss:
  assumes r: "rep db ps rs dat cs" and j: "0 < j" and lk: "locks db = [(IdxFd, int (7 * j), 1, t)]"
    and no: "\<forall>i\<in>set (cs 0). \<not> (length (r_key (rs ! i)) = kl \<and> int (r_dlen (rs ! i)) = dl)"
  shows "\<exists>db'. db_findfree db kl dl = Inr (- 1, db') \<and> rep db' ps rs dat cs \<and>
           locks db' = locks db \<and> chainoff db' = chainoff db"
proof -
  note R = repD [OF r] and L = layD [OF repD(1) [OF r]]
  let ?d0 = "db\<lparr>locks := (IdxFd, 0, 1, F_WRLCK) # locks db\<rparr>"
  let ?d1 = "?d0\<lparr>idxfd := (idxfd ?d0)\<lparr>fpos := 7\<rparr>\<rparr>"
  have l0: "lay ?d0 ps rs dat" and l1: "lay ?d1 ps rs dat" using R(1) by (simp_all add: lay_def)
  have w1: "db_readptr ?d0 0 = Inr (int (ps ! 0), ?d1)"
    using readptr_ok [OF l0, of "Slot 0" 0] by simp
  have "0 < (138::nat)" by simp
  note C = linksD [OF R(2) this] and F = fuel_enough [OF l1 R(2) this]
  have "set (cs 0) \<subseteq> {..<length rs}" using C(3) by auto
  from findfree_loop_miss [OF l1 C(1) this F no refl]
  obtain db' s where d: "findfree_loop (Suc (length (fbytes (idxfd ?d1)))) ?d1 kl dl 0 (int (ps ! 0)) = Inr ((s, 0), db')"
    "lay db' ps rs dat" "chainoff db' = chainoff ?d1" "locks db' = locks ?d1" by blast
  have "db_findfree db kl dl = Inr (- 1, db'\<lparr>locks := locks db\<rparr>)"
    using w1 d layD(1) [OF d(2)] L(1) j lk by (simp add: db_findfree_def Let_def lock_ok FREE_OFF_def)
  then show ?thesis using d R by (simp add: rep_def)
qed

lemma findfree_hit:
  assumes r: "rep db ps rs dat cs" and j: "0 < j" and lk: "locks db = [(IdxFd, int (7 * j), 1, t)]"
    and cs: "cs 0 = xs @ i # ys"
    and no: "\<forall>x\<in>set xs. \<not> (length (r_key (rs ! x)) = kl \<and> int (r_dlen (rs ! x)) = dl)"
    and hit: "length (r_key (rs ! i)) = kl" "int (r_dlen (rs ! i)) = dl"
  shows "\<exists>db'. db_findfree db kl dl = Inr (0, db') \<and> loaded db' rs i \<and>
           lay db' (put_ps ps (pred_loc 0 xs) (r_ptr (rs ! i))) (put_rs rs (pred_loc 0 xs) (r_ptr (rs ! i))) dat \<and>
           locks db' = locks db \<and> chainoff db' = chainoff db"
proof -
  note R = repD [OF r] and L = layD [OF repD(1) [OF r]]
  let ?d0 = "db\<lparr>locks := (IdxFd, 0, 1, F_WRLCK) # locks db\<rparr>"
  let ?d1 = "?d0\<lparr>idxfd := (idxfd ?d0)\<lparr>fpos := 7\<rparr>\<rparr>"
  have l0: "lay ?d0 ps rs dat" and l1: "lay ?d1 ps rs dat" using R(1) by (simp_all add: lay_def)
  have w1: "db_readptr ?d0 0 = Inr (int (ps ! 0), ?d1)"
    using readptr_ok [OF l0, of "Slot 0" 0] by simp
  have z: "0 < (138::nat)" by simp
  note C = linksD [OF R(2) z] and F = fuel_enough [OF l1 R(2) z] and P = pred_loc_facts [OF r cs z]
  have sub: "set (xs @ i # ys) \<subseteq> {..<length rs}" using C(3) cs by auto
  have ch: "chain (offs rs) (nxt rs) (ps ! 0) (xs @ i # ys)" using C(1) cs by simp
  have fl: "length xs < Suc (length (fbytes (idxfd ?d1)))" using F cs by simp
  let ?s = "if xs = [] then 0 else int (offs rs (last xs))"
  from findfree_loop_hit [OF l1 ch sub fl no hit refl]
  obtain db' where d: "findfree_loop (Suc (length (fbytes (idxfd ?d1)))) ?d1 kl dl 0 (int (ps ! 0)) =
        Inr ((?s, int (offs rs i)), db')"
    "lay db' ps rs dat" "loaded db' rs i" "chainoff db' = chainoff ?d1" "locks db' = locks ?d1" by blast
  have s: "?s = int (loc_off rs (pred_loc 0 xs))" by (simp add: pred_loc_def)
  have np: "r_ptr (rs ! i) \<le> 99999" using lay_nth_ok [OF R(1) P(5)] by (simp add: irec_ok_def)
  let ?d2 = "db'\<lparr>idxfd := (idxfd db')\<lparr>fbytes := idx_bytes (put_ps ps (pred_loc 0 xs) (r_ptr (rs ! i)))
      (put_rs rs (pred_loc 0 xs) (r_ptr (rs ! i))), fpos := loc_off rs (pred_loc 0 xs) + 7\<rparr>\<rparr>"
  have w2: "db_writeptr db' ?s (ptrval db') = Inr ?d2"
    using writeptr_ok [OF d(2) P(1) np s] d(3) by (simp add: loaded_def)
  have l2: "lay ?d2 (put_ps ps (pred_loc 0 xs) (r_ptr (rs ! i))) (put_rs rs (pred_loc 0 xs) (r_ptr (rs ! i))) dat"
    using lay_put [OF d(2) P(1) np] by simp
  have "db_findfree db kl dl = Inr (0, ?d2\<lparr>locks := locks db\<rparr>)"
    using w1 w2 d layD(1) [OF l2] L(1) j lk
    by (simp add: db_findfree_def Let_def lock_ok FREE_OFF_def)
  moreover have "lay (?d2\<lparr>locks := locks db\<rparr>) (put_ps ps (pred_loc 0 xs) (r_ptr (rs ! i)))
      (put_rs rs (pred_loc 0 xs) (r_ptr (rs ! i))) dat" using l2 by (simp only: lay_simps)
  moreover have "loaded (?d2\<lparr>locks := locks db\<rparr>) rs i" using d(3) by (simp add: loaded_def)
  ultimately show ?thesis using d(4) by auto
qed

section \<open>Storing\<close>

definition new_rec :: "nat list \<Rightarrow> string \<Rightarrow> nat \<Rightarrow> string \<Rightarrow> irec" where
  "new_rec ps k off d = \<lparr>r_ptr = ps ! key_slot k, r_key = k, r_doff = off, r_dlen = length d + 1\<rparr>"

lemma new_rec_ok:
  assumes "lay db ps rs dat" "key_ok k" "value_ok d" "room db k d"
  shows "irec_ok (new_rec ps k (length dat) d)"
  using assms loc_get_le [OF assms(1), of "Slot (key_slot k)"] key_slot_bounds [of k] layD(5) [OF assms(1)]
  by (simp add: irec_ok_def new_rec_def irec_body_def key_ok_def value_ok_def room_def Let_def)

definition append_rec :: "db \<Rightarrow> string \<Rightarrow> string \<Rightarrow> int \<Rightarrow> db_error + db" where
  "append_rec db key data pval =
     andthen (db_writedat db data 0 SEEK_END) (\<lambda>db.
     andthen (db_writeidx db key 0 SEEK_END pval) (\<lambda>db.
     db_writeptr db (chainoff db) (idxoff db)))"

lemma append_rec_ok:
  assumes r: "rep db ps rs dat cs" and new: "lookup rs dat cs k = None"
    and ok: "key_ok k" "value_ok d" "room db k d"
    and ch: "chainoff db = int (7 * key_slot k)" and pv: "pval = int (ps ! key_slot k)"
    and lk: "locks db = [(IdxFd, int (7 * key_slot k), 1, t)]"
  shows "\<exists>db' ps' rs' dat' cs'. append_rec db k d pval = Inr db' \<and> rep db' ps' rs' dat' cs' \<and>
           lookup rs' dat' cs' = (lookup rs dat cs)(k \<mapsto> d) \<and>
           locks db' = locks db \<and> chainoff db' = chainoff db"
proof -
  note R = repD [OF r] and L = layD [OF repD(1) [OF r]] and K = key_slot_bounds [of k]
  let ?r = "new_rec ps k (length dat) d" and ?dat = "dat @ d @ [NEWLINE]"
  let ?o = "offs rs (length rs)"
  have rok: "irec_ok ?r" using new_rec_ok [OF R(1) ok] .
  let ?d1 = "db\<lparr>datoff := int (length dat), datlen := int (length d) + 1,
    datfd := (datfd db)\<lparr>fbytes := ?dat, fpos := length ?dat\<rparr>\<rparr>"
  have w1: "db_writedat db d 0 SEEK_END = Inr ?d1"
    using writedat_end_ok [of db d] L lk by simp
  have l1: "lay ?d1 ps rs ?dat" using R(1) by (simp add: lay_def)
  let ?d2 = "?d1\<lparr>ptrval := int (r_ptr ?r), idxbuf := irec_body ?r @ [NUL], idxoff := int ?o,
    idxfd := (idxfd ?d1)\<lparr>fbytes := idx_bytes ps (rs @ [?r]), fpos := ?o + length (irec_enc ?r)\<rparr>\<rparr>"
  have w2: "db_writeidx ?d1 k 0 SEEK_END pval = Inr ?d2"
  proof -
    have "7 * key_slot k \<noteq> 967" by arith
    then show ?thesis
      using writeidx_end_ok [OF l1 rok, of pval k] pv lk by (simp add: new_rec_def)
  qed
  have l2: "lay ?d2 ps (rs @ [?r]) ?dat" using l1 rok by (auto simp: lay_def)
  have o: "?o \<le> 99999" using ok(3) L length_idx_bytes [OF L(6,7), of rs] by (simp add: room_def)
  let ?d3 = "?d2\<lparr>idxfd := (idxfd ?d2)\<lparr>fbytes := idx_bytes (ps[key_slot k := ?o]) (rs @ [?r]),
    fpos := 7 * key_slot k + 7\<rparr>\<rparr>"
  have w3: "db_writeptr ?d2 (chainoff db) (int ?o) = Inr ?d3"
    using writeptr_ok [OF l2, of "Slot (key_slot k)" ?o] K o ch by simp
  have l3: "lay ?d3 (ps[key_slot k := ?o]) (rs @ [?r]) ?dat"
    using lay_put [OF l2, of "Slot (key_slot k)" ?o] K o by simp
  have nul: "NUL \<notin> set d" using ok(2) by (simp add: value_ok_def)
  have "links (ps[key_slot k := ?o]) (rs @ [?r]) (cs(key_slot k := length rs # cs (key_slot k)))"
    using links_add [OF R(2) K(2) L(6), of ?r] by (simp add: new_rec_def)
  moreover have "conts (rs @ [?r]) ?dat (cs(key_slot k := length rs # cs (key_slot k)))"
    using conts_add [OF R(2,3,4), of ?r k d] nul new by (simp add: new_rec_def)
  moreover have "lookup (rs @ [?r]) ?dat (cs(key_slot k := length rs # cs (key_slot k))) = (lookup rs dat cs)(k \<mapsto> d)"
    using lookup_add [OF R(2,3,4), of ?r k d] nul new by (simp add: new_rec_def)
  moreover have "append_rec db k d pval = Inr ?d3" using w1 w2 w3 by (simp add: append_rec_def)
  moreover have "locks ?d3 = locks db" "chainoff ?d3 = chainoff db" by simp_all
  ultimately show ?thesis using l3 unfolding rep_def by blast
qed

text \<open>Reusing record \<open>i\<close> of the free list for the key \<open>k\<close>.\<close>

definition reused_ps :: "nat list \<Rightarrow> irec list \<Rightarrow> nat list \<Rightarrow> nat \<Rightarrow> string \<Rightarrow> nat list" where
  "reused_ps ps rs xs i k = (put_ps ps (pred_loc 0 xs) (r_ptr (rs ! i)))[key_slot k := offs rs i]"

definition reused_rs :: "nat list \<Rightarrow> irec list \<Rightarrow> nat list \<Rightarrow> nat \<Rightarrow> string \<Rightarrow> string \<Rightarrow> irec list" where
  "reused_rs ps rs xs i k d =
     (put_rs rs (pred_loc 0 xs) (r_ptr (rs ! i)))[i := new_rec ps k (r_doff (rs ! i)) d]"

lemma reused_rec:
  assumes "lay db ps rs dat" "i < length rs" "key_ok k" "length (r_key (rs ! i)) = length k"
    "r_dlen (rs ! i) = length d + 1"
  shows "irec_ok (new_rec ps k (r_doff (rs ! i)) d)"
    "length (irec_enc (new_rec ps k (r_doff (rs ! i)) d)) = length (irec_enc (rs ! i))"
proof -
  have ok: "irec_ok (rs ! i)" using lay_nth_ok [OF assms(1,2)] .
  show n: "irec_ok (new_rec ps k (r_doff (rs ! i)) d)"
    using ok assms(3-5) loc_get_le [OF assms(1), of "Slot (key_slot k)"] key_slot_bounds [of k]
    by (simp add: irec_ok_def new_rec_def irec_body_def key_ok_def)
  show "length (irec_enc (new_rec ps k (r_doff (rs ! i)) d)) = length (irec_enc (rs ! i))"
    using length_irec_enc [OF n] length_irec_enc [OF ok] assms(4,5) by (simp add: new_rec_def irec_body_def)
qed

lemma reused_rep:
  assumes r: "rep db ps rs dat cs" and cs: "cs 0 = xs @ i # ys" and k: "key_ok k"
    and d: "NUL \<notin> set d" "r_dlen (rs ! i) = length d + 1" "length (r_key (rs ! i)) = length k"
    and new: "lookup rs dat cs k = None"
  defines "cs' \<equiv> cs(0 := xs @ ys, key_slot k := i # cs (key_slot k))"
    and "dat' \<equiv> overlay (r_doff (rs ! i)) (d @ [NEWLINE]) dat"
  shows "links (reused_ps ps rs xs i k) (reused_rs ps rs xs i k d) cs'"
    "conts (reused_rs ps rs xs i k d) dat' cs'"
    "lookup (reused_rs ps rs xs i k d) dat' cs' = (lookup rs dat cs)(k \<mapsto> d)"
proof -
  have z: "0 < (138::nat)" by simp
  note R = repD [OF r] and P = pred_loc_facts [OF r cs z] and L = layD [OF repD(1) [OF r]]
  note K = key_slot_bounds [of k]
  let ?rs = "reused_rs ps rs xs i k d" and ?ps = "reused_ps ps rs xs i k"
  let ?rs1 = "put_rs rs (pred_loc 0 xs) (r_ptr (rs ! i))"
  have ok: "irec_ok (rs ! i)" using lay_nth_ok [OF R(1) P(5)] .
  have np: "r_ptr (rs ! i) \<le> 99999" using ok by (simp add: irec_ok_def)
  have o1: "offs ?rs1 = offs rs" using offs_put [OF R(1) P(1) np] .
  have pl: "xs \<noteq> [] \<Longrightarrow> last xs < length rs \<and> last xs \<noteq> i" using P(1,4) by (auto simp: pred_loc_def)
  have "?rs1 ! i = rs ! i" using pl by (auto simp: pred_loc_def)
  then have offs: "offs ?rs = offs rs"
    using offs_update [of _ ?rs1 i] reused_rec(2) [OF R(1) P(5) k d(3,2)] o1
    by (simp add: reused_rs_def fun_eq_iff)
  have l1: "length ?rs = length rs" by (simp add: reused_rs_def)
  have fields: "r_key (?rs ! x) = (if x = i then k else r_key (rs ! x))"
    "r_doff (?rs ! x) = r_doff (rs ! x)" "r_dlen (?rs ! x) = r_dlen (rs ! x)"
    "nxt ?rs x = (if x = i then ps ! key_slot k else if xs \<noteq> [] \<and> x = last xs then nxt rs i else nxt rs x)"
    if "x < length rs" for x
    using that pl P(5) d(2)
    by (auto simp: reused_rs_def pred_loc_def new_rec_def nth_list_update nxt_def)
  have psx: "?ps ! a = (if a = key_slot k then offs rs i else if a = 0 \<and> xs = [] then nxt rs i else ps ! a)"
    if "a < 138" for a
    using that K L(6) by (auto simp: reused_ps_def pred_loc_def nth_list_update nxt_def)
  have "0 \<noteq> key_slot k" using K(1) by simp
  then show "links ?ps ?rs cs'"
    unfolding cs'_def using K fields(4) psx l1 offs
    by (intro links_move [OF R(2) z _ _ cs]) auto
  have dis: "distinct (xs @ i # ys)" using linksD(2) [OF R(2) z] cs by simp
  have other: "i \<notin> set (cs a)" if "a < 138" "a \<noteq> 0" for a
    using links_disjoint [OF R(2) that(1) z, of i] that cs by auto
  have nokey: "r_key (rs ! x) \<noteq> k" if "x \<in> set (cs (key_slot k))" for x
    using lookup_None [OF R(3) new] that K by (auto simp: live_def)
  have rc: "rec_change ps rs ?rs dat dat' cs cs' i (key_slot k) k d"
    unfolding rec_change_def cs'_def dat'_def
    using R P(5) l1 fields d dis cs other K nokey by auto
  show "conts ?rs dat' cs'" using rc by (rule rec_change_conts)
  have "i \<notin> live cs" using other by (auto simp: live_def)
  then show "lookup ?rs dat' cs' = (lookup rs dat cs)(k \<mapsto> d)"
    by (intro rec_change_lookup_live [OF rc K(1)]) simp
qed

definition reuse_rec :: "db \<Rightarrow> string \<Rightarrow> string \<Rightarrow> int \<Rightarrow> db_error + db" where
  "reuse_rec db key data pval =
     andthen (db_writedat db data (datoff db) SEEK_SET) (\<lambda>db.
     andthen (db_writeidx db key (idxoff db) SEEK_SET pval) (\<lambda>db.
     db_writeptr db (chainoff db) (idxoff db)))"

lemma reuse_rec_ok:
  assumes r: "rep db0 ps rs dat cs" and cs: "cs 0 = xs @ i # ys" and k: "key_ok k"
    and d: "NUL \<notin> set d" "r_dlen (rs ! i) = length d + 1" "length (r_key (rs ! i)) = length k"
    and new: "lookup rs dat cs k = None"
    and l0: "lay db (put_ps ps (pred_loc 0 xs) (r_ptr (rs ! i))) (put_rs rs (pred_loc 0 xs) (r_ptr (rs ! i))) dat"
    and ld: "loaded db rs i"
    and ch: "chainoff db = int (7 * key_slot k)" and pv: "pval = int (ps ! key_slot k)"
  shows "\<exists>db' ps' rs' dat' cs'. reuse_rec db k d pval = Inr db' \<and> rep db' ps' rs' dat' cs' \<and>
           lookup rs' dat' cs' = (lookup rs dat cs)(k \<mapsto> d) \<and>
           locks db' = locks db \<and> chainoff db' = chainoff db"
proof -
  have z: "0 < (138::nat)" by simp
  note R = repD [OF r] and P = pred_loc_facts [OF r cs z] and L = layD [OF l0]
  note K = key_slot_bounds [of k] and N = reused_rec [OF R(1) P(5) k d(3,2)]
  note U = reused_rep [OF r cs k d new]
  let ?ps1 = "put_ps ps (pred_loc 0 xs) (r_ptr (rs ! i))"
  let ?rs1 = "put_rs rs (pred_loc 0 xs) (r_ptr (rs ! i))"
  let ?r = "new_rec ps k (r_doff (rs ! i)) d" and ?dat = "overlay (r_doff (rs ! i)) (d @ [NEWLINE]) dat"
  have i: "i < length ?rs1" using P(5) by simp
  have np: "r_ptr (rs ! i) \<le> 99999" using lay_nth_ok [OF R(1) P(5)] by (simp add: irec_ok_def)
  have o1: "offs ?rs1 = offs rs" using offs_put [OF R(1) P(1) np] .
  have same: "?rs1 ! i = rs ! i" using P(4) by (auto simp: pred_loc_def)
  then have len: "length (irec_enc ?r) = length (irec_enc (?rs1 ! i))" using N(2) by simp
  let ?d1 = "db\<lparr>datoff := int (r_doff (rs ! i)), datlen := int (length d) + 1,
    datfd := (datfd db)\<lparr>fbytes := ?dat, fpos := r_doff (rs ! i) + length d + 1\<rparr>\<rparr>"
  have w1: "db_writedat db d (datoff db) SEEK_SET = Inr ?d1"
    using writedat_set_ok [of db "datoff db" "r_doff (rs ! i)" d] L ld by (simp add: loaded_def)
  have l1: "lay ?d1 ?ps1 ?rs1 ?dat" using l0 by (simp add: lay_def)
  let ?d2 = "?d1\<lparr>ptrval := int (r_ptr ?r), idxbuf := irec_body ?r @ [NUL], idxoff := int (offs ?rs1 i),
    idxfd := (idxfd ?d1)\<lparr>fbytes := idx_bytes ?ps1 (?rs1[i := ?r]), fpos := offs ?rs1 i + length (irec_enc ?r)\<rparr>\<rparr>"
  have w2: "db_writeidx ?d1 k (idxoff db) SEEK_SET pval = Inr ?d2"
    using ld pv o1 by (intro writeidx_set_ok [OF l1 i N(1) len]) (simp_all add: loaded_def new_rec_def)
  have l2: "lay ?d2 ?ps1 (?rs1[i := ?r]) ?dat"
    using l1 N(1) by (auto simp: lay_def dest!: set_update_subset_insert [THEN subsetD])
  let ?d3 = "?d2\<lparr>idxfd := (idxfd ?d2)\<lparr>fbytes := idx_bytes (reused_ps ps rs xs i k) (reused_rs ps rs xs i k d),
    fpos := 7 * key_slot k + 7\<rparr>\<rparr>"
  have w3: "db_writeptr ?d2 (chainoff db) (int (offs rs i)) = Inr ?d3"
    using writeptr_ok [OF l2, of "Slot (key_slot k)" "offs rs i"] K P(3) ch
    by (simp add: reused_ps_def reused_rs_def)
  have l3: "lay ?d3 (reused_ps ps rs xs i k) (reused_rs ps rs xs i k d) ?dat"
    using lay_put [OF l2, of "Slot (key_slot k)" "offs rs i"] K P(3)
    by (simp add: reused_ps_def reused_rs_def)
  have "reuse_rec db k d pval = Inr ?d3" using w1 w2 w3 o1 by (simp add: reuse_rec_def)
  moreover have "locks ?d3 = locks db" "chainoff ?d3 = chainoff db" by simp_all
  ultimately show ?thesis using l3 U unfolding rep_def by blast
qed

end
