(* ===== verification/Db_Ops.thy ===== *)
theory Db_Ops
  imports Db_Refine
begin

text \<open>
  The operations of \<^verbatim>\<open>mydb/db.c\<close> as a whole: \<open>db_store\<close> on each of its branches (a new
  record at the end of the files, a reused record of the free list, data rewritten in place,
  delete and append), \<open>db_open\<close>, and the scan by \<open>db_rewind\<close> and \<open>db_nextrec\<close>.  The
  interface \<open>kv_db\<close> states what a client relies on; it is interpreted on the operations of
  the model, and its lemmas become facts about sequences of calls.
\<close>

section \<open>Storing\<close>

lemma andthen_assoc: "andthen (andthen x f) g = andthen x (\<lambda>y. andthen (f y) g)"
  by (cases x) simp_all

lemma db_store_new_unfold:
  "db_store_new db key data flag =
     (if flag = DB_REPLACE
      then Inr (- 1, db\<lparr>cnt_storerr := cnt_storerr db + 1, errno := ENOENT\<rparr>)
      else
      andthen (db_readptr db (chainoff db)) (\<lambda>(pval, db).
      andthen (db_findfree db (length key) (int (length data) + 1)) (\<lambda>(rc, db).
      if rc < 0
      then andthen (append_rec db key data pval) (\<lambda>db. Inr (0, db\<lparr>cnt_stor1 := cnt_stor1 db + 1\<rparr>))
      else andthen (reuse_rec db key data pval) (\<lambda>db. Inr (0, db\<lparr>cnt_stor2 := cnt_stor2 db + 1\<rparr>)))))"
  by (simp add: db_store_new_def append_rec_def reuse_rec_def andthen_assoc cong del: if_weak_cong)

lemma db_store_found_unfold:
  "db_store_found db key data flag =
     (if flag = DB_INSERT then Inr (1, db\<lparr>cnt_storerr := cnt_storerr db + 1\<rparr>)
      else if int (length data) + 1 \<noteq> datlen db then
        andthen (db_dodelete db) (\<lambda>db.
        andthen (db_readptr db (chainoff db)) (\<lambda>(pval, db).
        andthen (append_rec db key data pval) (\<lambda>db. Inr (0, db\<lparr>cnt_stor3 := cnt_stor3 db + 1\<rparr>))))
      else
        andthen (db_writedat db data (datoff db) SEEK_SET) (\<lambda>db.
        Inr (0, db\<lparr>cnt_stor4 := cnt_stor4 db + 1\<rparr>)))"
  by (simp add: db_store_found_def append_rec_def andthen_assoc cong del: if_weak_cong)

text \<open>The head of a chain, read while the chain is locked.\<close>

lemma readptr_chain:
  assumes "rep db ps rs dat cs" "chainoff db = int (7 * key_slot k)"
  obtains db' where "db_readptr db (chainoff db) = Inr (int (ps ! key_slot k), db')"
    "rep db' ps rs dat cs" "locks db' = locks db" "chainoff db' = chainoff db" 
    "fbytes (idxfd db') = fbytes (idxfd db)" "fbytes (datfd db') = fbytes (datfd db)"
proof -
  let ?d = "db\<lparr>idxfd := (idxfd db)\<lparr>fpos := 7 * key_slot k + 7\<rparr>\<rparr>"
  have "db_readptr db (chainoff db) = Inr (int (ps ! key_slot k), ?d)"
    using readptr_ok [OF repD(1) [OF assms(1)], of "Slot (key_slot k)"] assms(2) key_slot_bounds [of k] by simp
  moreover have "rep ?d ps rs dat cs" using assms(1) by (simp add: rep_def lay_def)
  ultimately show ?thesis using that [of ?d] by simp
qed

lemma room_cong:
  "fbytes (idxfd db') = fbytes (idxfd db) \<Longrightarrow> fbytes (datfd db') = fbytes (datfd db) \<Longrightarrow>
   room db' k d = room db k d"
  by (simp add: room_def)

lemma room_rep:
  assumes "rep db ps rs dat cs" "rep db' ps' rs' dat' cs'" "offs rs' (length rs') = offs rs (length rs)"
    "length dat' = length dat"
  shows "room db' k d = room db k d"
  using layD(4-7) [OF repD(1) [OF assms(1)]] layD(4-7) [OF repD(1) [OF assms(2)]] assms(3,4)
  by (simp add: room_def length_idx_bytes)

definition stored :: "db \<Rightarrow> (string \<rightharpoonup> string) \<Rightarrow> (fdsel \<times> int \<times> int \<times> lock_type) list \<Rightarrow> int \<Rightarrow> bool" where
  "stored db m ls ch \<longleftrightarrow>
     (\<exists>ps rs dat cs. rep db ps rs dat cs \<and> lookup rs dat cs = m) \<and> locks db = ls \<and> chainoff db = ch"

lemma store_new_ok:
  assumes r: "rep db ps rs dat cs" and new: "lookup rs dat cs k = None"
    and ok: "key_ok k" "value_ok d" "room db k d" and fl: "flag \<noteq> DB_REPLACE"
    and ch: "chainoff db = int (7 * key_slot k)"
    and lk: "locks db = [(IdxFd, int (7 * key_slot k), 1, t)]"
  shows "\<exists>db'. db_store_new db k d flag = Inr (0, db') \<and>
           stored db' ((lookup rs dat cs)(k \<mapsto> d)) (locks db) (chainoff db)"
proof -
  note K = key_slot_bounds [of k]
  let ?P = "\<lambda>i. length (r_key (rs ! i)) = length k \<and> int (r_dlen (rs ! i)) = int (length d) + 1"
  have nul: "NUL \<notin> set d" using ok(2) by (simp add: value_ok_def)
  obtain d1 where d1: "db_readptr db (chainoff db) = Inr (int (ps ! key_slot k), d1)"
    "rep d1 ps rs dat cs" "locks d1 = locks db" "chainoff d1 = chainoff db" 
    "fbytes (idxfd d1) = fbytes (idxfd db)" "fbytes (datfd d1) = fbytes (datfd db)"
    using readptr_chain [OF r ch] .
  have lk1: "locks d1 = [(IdxFd, int (7 * key_slot k), 1, t)]" using d1(3) lk by simp
  show ?thesis
  proof (cases "\<exists>i\<in>set (cs 0). ?P i")
    case False
    then have "\<forall>i\<in>set (cs 0). \<not> ?P i" by blast
    from findfree_miss [OF d1(2) K(1) lk1 this] obtain d2 where d2:
      "db_findfree d1 (length k) (int (length d) + 1) = Inr (- 1, d2)" "rep d2 ps rs dat cs"
      "locks d2 = locks db" "chainoff d2 = chainoff db" using d1 by auto
    have "room d2 k d" using room_rep [OF r d2(2) refl refl] ok(3) by simp
    moreover have "locks d2 = [(IdxFd, int (7 * key_slot k), 1, t)]" "chainoff d2 = int (7 * key_slot k)"
      using d2 lk ch by simp_all
    ultimately obtain d3 ps' rs' dat' cs' where
      "append_rec d2 k d (int (ps ! key_slot k)) = Inr d3" "rep d3 ps' rs' dat' cs'"
      "lookup rs' dat' cs' = (lookup rs dat cs)(k \<mapsto> d)" "locks d3 = locks db" "chainoff d3 = chainoff db"
      using append_rec_ok [OF d2(2) new ok(1,2), of "int (ps ! key_slot k)" t] d2 by auto
    with d1 d2 fl show ?thesis by (auto simp: db_store_new_unfold stored_def)
  next
    case True
    from split_list_first_prop [OF this] obtain xs i ys where
      s: "cs 0 = xs @ i # ys" "?P i" "\<forall>x\<in>set xs. \<not> ?P x" by auto
    from findfree_hit [OF d1(2) K(1) lk1 s(1,3)] s(2) obtain d2 where d2:
      "db_findfree d1 (length k) (int (length d) + 1) = Inr (0, d2)" "loaded d2 rs i"
      "lay d2 (put_ps ps (pred_loc 0 xs) (r_ptr (rs ! i))) (put_rs rs (pred_loc 0 xs) (r_ptr (rs ! i))) dat"
      "locks d2 = locks db" "chainoff d2 = chainoff db" using d1 by auto
    have "r_dlen (rs ! i) = length d + 1" "length (r_key (rs ! i)) = length k" using s(2) by auto
    then obtain d3 ps' rs' dat' cs' where
      "reuse_rec d2 k d (int (ps ! key_slot k)) = Inr d3" "rep d3 ps' rs' dat' cs'"
      "lookup rs' dat' cs' = (lookup rs dat cs)(k \<mapsto> d)" "locks d3 = locks db" "chainoff d3 = chainoff db"
      using reuse_rec_ok [OF d1(2) s(1) ok(1) nul _ _ new d2(3,2)] d2 ch by auto
    with d1 d2 fl show ?thesis by (auto simp: db_store_new_unfold stored_def)
  qed
qed

lemma rewrite_rep:
  assumes r: "rep db ps rs dat cs" and i: "i \<in> set (cs (key_slot k))" "r_key (rs ! i) = k"
    and d: "NUL \<notin> set d" "r_dlen (rs ! i) = length d + 1"
  defines "dat' \<equiv> overlay (r_doff (rs ! i)) (d @ [NEWLINE]) dat"
  shows "conts rs dat' cs" "lookup rs dat' cs = (lookup rs dat cs)(k \<mapsto> d)"
proof -
  note R = repD [OF r] and K = key_slot_bounds [of k]
  have inj: "inj_on (\<lambda>i. r_key (rs ! i)) (set (cs (key_slot k)))" using contsD(3) [OF R(3) K] .
  have other: "i \<notin> set (cs a)" if "a < 138" "a \<noteq> key_slot k" for a
    using links_disjoint [OF R(2) that(1) K(2), of i] that i(1) by auto
  have uniq: "r_key (rs ! x) \<noteq> k" if "x \<in> set (cs (key_slot k))" "x \<noteq> i" for x
    using inj_onD [OF inj, of x i] that i by auto
  have "i < length rs" using linksD(3) [OF R(2) K(2) i(1)] .
  then have rc: "rec_change ps rs rs dat dat' cs cs i (key_slot k) k d"
    unfolding rec_change_def dat'_def using R i d K other uniq by auto
  show "conts rs dat' cs" using rc by (rule rec_change_conts)
  show "lookup rs dat' cs = (lookup rs dat cs)(k \<mapsto> d)"
    using i(2) by (intro rec_change_lookup_live [OF rc K(1)])
qed

lemma store_found_ok:
  assumes r: "rep db ps rs dat cs" and ok: "key_ok k" "value_ok d" "room db k d" and fl: "flag \<noteq> DB_INSERT"
    and cs: "cs (key_slot k) = xs @ i # ys" and ld: "loaded db rs i" and key: "r_key (rs ! i) = k"
    and po: "ptroff db = int (loc_off rs (pred_loc (key_slot k) xs))"
    and ch: "chainoff db = int (7 * key_slot k)"
    and lk: "locks db = [(IdxFd, int (7 * key_slot k), 1, t)]"
  shows "\<exists>db'. db_store_found db k d flag = Inr (0, db') \<and>
           stored db' ((lookup rs dat cs)(k \<mapsto> d)) (locks db) (chainoff db)"
proof (cases "int (length d) + 1 = datlen db")
  case True
  note R = repD [OF r] and L = layD [OF repD(1) [OF r]]
  have nul: "NUL \<notin> set d" using ok(2) by (simp add: value_ok_def)
  have len: "r_dlen (rs ! i) = length d + 1" using True ld by (simp add: loaded_def)
  let ?dat = "overlay (r_doff (rs ! i)) (d @ [NEWLINE]) dat"
  let ?d1 = "db\<lparr>datoff := int (r_doff (rs ! i)), datlen := int (length d) + 1,
    datfd := (datfd db)\<lparr>fbytes := ?dat, fpos := r_doff (rs ! i) + length d + 1\<rparr>\<rparr>"
  have w1: "db_writedat db d (datoff db) SEEK_SET = Inr ?d1"
    using writedat_set_ok [of db "datoff db" "r_doff (rs ! i)" d] L ld by (simp add: loaded_def)
  have "lay ?d1 ps rs ?dat" using R(1) by (simp add: lay_def)
  then have "rep ?d1 ps rs ?dat cs" "lookup rs ?dat cs = (lookup rs dat cs)(k \<mapsto> d)"
    using rewrite_rep [OF r _ key nul len] cs R by (simp_all add: rep_def)
  moreover from this(1) have "rep (?d1\<lparr>cnt_stor4 := cnt_stor4 db + 1\<rparr>) ps rs ?dat cs"
    by (simp only: rep_counters)
  ultimately have "stored (?d1\<lparr>cnt_stor4 := cnt_stor4 db + 1\<rparr>) ((lookup rs dat cs)(k \<mapsto> d)) (locks db) (chainoff db)"
    unfolding stored_def by auto
  with w1 True fl show ?thesis by (simp add: db_store_found_unfold)
next
  case False
  note K = key_slot_bounds [of k]
  let ?j = "key_slot k"
  note D = deleted_rep [OF r cs K]
  let ?m = "lookup (deleted_rs ps rs ?j xs i) (deleted_dat rs dat i) (cs(?j := xs @ ys, 0 := i # cs 0))"
  from dodelete_ok [OF r cs K ld po lk] obtain d1 where d1:
    "db_dodelete db = Inr d1" "locks d1 = locks db" "chainoff d1 = chainoff db"
    "rep d1 (deleted_ps ps rs ?j xs i) (deleted_rs ps rs ?j xs i)
       (deleted_dat rs dat i) (cs(?j := xs @ ys, 0 := i # cs 0))" by blast
  have m: "?m = (lookup rs dat cs)(k := None)" using D(3) key by simp
  then have new: "?m k = None" by simp
  have ch1: "chainoff d1 = int (7 * ?j)" using d1(3) ch by simp
  obtain d2 where d2: "db_readptr d1 (chainoff d1) = Inr (int (deleted_ps ps rs ?j xs i ! ?j), d2)"
    "rep d2 (deleted_ps ps rs ?j xs i) (deleted_rs ps rs ?j xs i)
       (deleted_dat rs dat i) (cs(?j := xs @ ys, 0 := i # cs 0))" "locks d2 = locks d1" "chainoff d2 = chainoff d1"
    using readptr_chain [OF d1(4) ch1] by metis
  have "length (deleted_rs ps rs ?j xs i) = length rs" by (simp add: deleted_rs_def)
  then have "room d2 k d" using room_rep [OF r d2(2)] D(4,5) ok(3) by simp
  moreover have "locks d2 = [(IdxFd, int (7 * ?j), 1, t)]" "chainoff d2 = int (7 * ?j)"
    using d2 d1 lk ch by simp_all
  ultimately obtain d3 ps' rs' dat' cs' where
    d3: "append_rec d2 k d (int (deleted_ps ps rs ?j xs i ! ?j)) = Inr d3" "rep d3 ps' rs' dat' cs'"
    "lookup rs' dat' cs' = ?m(k \<mapsto> d)" "locks d3 = locks db" "chainoff d3 = chainoff db"
    using append_rec_ok [OF d2(2) new ok(1,2) _ _ refl] d2 d1 by metis
  have "?m(k \<mapsto> d) = (lookup rs dat cs)(k \<mapsto> d)" using m by simp
  with d1 d2 d3 fl False show ?thesis by (auto simp: db_store_found_unfold stored_def)
qed

lemma store_ok:
  assumes rep: "db_rep db m" and ok: "key_ok k" "value_ok d" "room db k d"
    and fl: "flag \<in> {DB_INSERT, DB_REPLACE, DB_STORE}"
  shows "\<exists>db'. db_store db k d flag = Inr (fst (kv_store m k d flag), db') \<and>
           db_rep db' (snd (kv_store m k d flag))"
proof -
  obtain ps rs dat cs where r: "locks db = []" "rep db ps rs dat cs" "m = lookup rs dat cs"
    using rep by (auto simp: db_rep_iff)
  note K = key_slot_bounds [of k]
  have len: "\<not> (int (length d) + 1 < DATLEN_MIN \<or> int (length d) + 1 > DATLEN_MAX)"
    using ok(2) by (auto simp: value_ok_def layout_consts)
  have fin: "\<exists>db'. andthen (Inr (rc, d1)) (\<lambda>(rc, db).
        andthen (un_lock db IdxFd (chainoff db) 1 ''db_store:un_lock error'') (\<lambda>db. Inr (rc, db))) = Inr (rc, db') \<and> db_rep db' m'"
    if st: "stored d1 m' [(IdxFd, ch, 1, F_WRLCK)] ch" for rc :: int and d1 m' ch
  proof -
    obtain ps rs dat cs where s: "rep d1 ps rs dat cs" "lookup rs dat cs = m'"
      "locks d1 = [(IdxFd, ch, 1, F_WRLCK)]" "chainoff d1 = ch" using st by (auto simp: stored_def)
    then have "db_rep (d1\<lparr>locks := []\<rparr>) m'" by (auto simp: db_rep_iff)
    with s layD(1) [OF repD(1) [OF s(1)]] show ?thesis by (simp add: lock_ok)
  qed
  have unf: "db_store db k d flag = andthen (db_find_and_lock db k True) (\<lambda>(rc, db).
      andthen (if rc < 0 then db_store_new db k d flag else db_store_found db k d flag) (\<lambda>(rc, db).
      andthen (un_lock db IdxFd (chainoff db) 1 ''db_store:un_lock error'') (\<lambda>db. Inr (rc, db))))"
    using fl len by (auto simp: db_store_def Let_def)
  show ?thesis
  proof (cases "m k")
    case None
    with find_and_lock_miss [OF r(2,1), of k True] r(3) obtain d1 where f:
      "db_find_and_lock db k True = Inr (- 1, d1)" "rep d1 ps rs dat cs"
      "chainoff d1 = int (7 * key_slot k)" "locks d1 = [(IdxFd, int (7 * key_slot k), 1, F_WRLCK)]"
      by auto
    have "room d1 k d" using room_rep [OF r(2) f(2) refl refl] ok(3) by simp
    note new = store_new_ok [OF f(2) _ ok(1,2) this _ f(3,4)]
    have "\<exists>d2. db_store_new d1 k d flag = Inr (fst (kv_store m k d flag), d2) \<and>
        stored d2 (snd (kv_store m k d flag)) [(IdxFd, int (7 * key_slot k), 1, F_WRLCK)] (int (7 * key_slot k))"
    proof (cases "flag = DB_REPLACE")
      case True
      then show ?thesis using None f r(3) by (auto simp: db_store_new_unfold kv_store_def stored_def)
    next
      case False
      then show ?thesis using new None f r(3) by (auto simp: kv_store_def)
    qed
    then obtain d2 where s: "db_store_new d1 k d flag = Inr (fst (kv_store m k d flag), d2)"
      "stored d2 (snd (kv_store m k d flag)) [(IdxFd, int (7 * key_slot k), 1, F_WRLCK)] (int (7 * key_slot k))" by blast
    show ?thesis using fin [OF s(2), of "fst (kv_store m k d flag)"] by (simp add: unf f(1) s(1))
  next
    case (Some e)
    with find_and_lock_hit [OF r(2,1), of k e True] r(3) obtain d1 xs i ys where f:
      "db_find_and_lock db k True = Inr (0, d1)" "rep d1 ps rs dat cs"
      "chainoff d1 = int (7 * key_slot k)" "locks d1 = [(IdxFd, int (7 * key_slot k), 1, F_WRLCK)]"
      "cs (key_slot k) = xs @ i # ys" "loaded d1 rs i" "r_key (rs ! i) = k"
      "ptroff d1 = int (loc_off rs (pred_loc (key_slot k) xs))"
      by auto
    have "room d1 k d" using room_rep [OF r(2) f(2) refl refl] ok(3) by simp
    note old = store_found_ok [OF f(2) ok(1,2) this _ f(5-8,3,4)]
    have "\<exists>d2. db_store_found d1 k d flag = Inr (fst (kv_store m k d flag), d2) \<and>
        stored d2 (snd (kv_store m k d flag)) [(IdxFd, int (7 * key_slot k), 1, F_WRLCK)] (int (7 * key_slot k))"
    proof (cases "flag = DB_INSERT")
      case True
      then show ?thesis using Some f r(3) by (auto simp: db_store_found_unfold kv_store_def stored_def)
    next
      case False
      then show ?thesis using old Some f r(3) by (auto simp: kv_store_def)
    qed
    then obtain d2 where s: "db_store_found d1 k d flag = Inr (fst (kv_store m k d flag), d2)"
      "stored d2 (snd (kv_store m k d flag)) [(IdxFd, int (7 * key_slot k), 1, F_WRLCK)] (int (7 * key_slot k))" by blast
    show ?thesis using fin [OF s(2), of "fst (kv_store m k d flag)"] by (simp add: unf f(1) s(1))
  qed
qed

section \<open>Opening\<close>

lemma chain_empty: "lookup [] dat (\<lambda>_. []) = Map.empty"
  by (simp add: lookup_def fun_eq_iff)

lemma initial_index: "db_initial_index = idx_bytes (replicate 138 0) []"
  by (simp add: db_initial_index_def idx_bytes_def hdr_bytes_def recs_bytes_def layout_consts
      dec_int_def dec.simps)

lemma rewind_ok:
  assumes "rep db ps rs dat cs"
  shows "db_rewind db = Inr (db\<lparr>idxfd := (idxfd db)\<lparr>fpos := 967\<rparr>, idxoff := 967\<rparr>)"
  using layD(1,2) [OF repD(1) [OF assms]] lseek_set_ok(1) [of db 967]
  by (simp add: db_rewind_def Let_def PTR_SZ_def)

lemma rep_idxpos:
  "rep (db\<lparr>idxfd := (idxfd db)\<lparr>fpos := n\<rparr>, idxoff := i\<rparr>) ps rs dat cs = rep db ps rs dat cs"
  by (simp add: rep_def lay_def)

lemma open_create_ok:
  "\<exists>db. db_open path True True oldidx olddat [] = Inr (Some db) \<and> db_rep db Map.empty \<and>
     length (fbytes (idxfd db)) = 967 \<and> fbytes (datfd db) = []"
proof -
  let ?f = "\<lparr>fbytes = [], fpos = 0\<rparr>"
  have o: "os_open True True b = Some ?f" for b by (cases b) (simp_all add: os_open_def)
  obtain db0 where a: "db_alloc [] = Inr db0" "faults db0 = []" "locks db0 = []"
    by (simp add: db_alloc_def Let_def)
  let ?d1 = "db0\<lparr>nhash := NHASH_DEF, hashoff := HASH_OFF, name := path @ ''.dat'', idxfd := ?f, datfd := ?f\<rparr>"
  let ?d2 = "?d1\<lparr>idxfd := f_write ?f db_initial_index, locks := []\<rparr>"
  have "lay ?d2 (replicate 138 0) [] []"
    using a(2) by (simp add: lay_def f_write_def initial_index layout_consts overlay_def)
  moreover have "links (replicate 138 0) [] (\<lambda>_. [])" by (simp add: links_def)
  moreover have "conts [] [] (\<lambda>_. [])" by (simp add: conts_def)
  ultimately have r: "rep ?d2 (replicate 138 0) [] [] (\<lambda>_. [])" by (simp add: rep_def)
  note w = rewind_ok [OF r]
  have "db_open path True True oldidx olddat [] =
      Inr (Some (?d2\<lparr>idxfd := (idxfd ?d2)\<lparr>fpos := 967\<rparr>, idxoff := 967\<rparr>))"
    using a w by (simp add: db_open_def Let_def o lock_ok sys_ok)
  moreover have "rep (?d2\<lparr>idxfd := (idxfd ?d2)\<lparr>fpos := 967\<rparr>, idxoff := 967\<rparr>) (replicate 138 0) [] [] (\<lambda>_. [])"
    using r by (simp only: rep_idxpos)
  moreover have "length db_initial_index = 967"
    using length_idx_bytes [of "replicate 138 0" "[]"] by (simp add: initial_index offs_def recs_bytes_def)
  ultimately show ?thesis using a(3) chain_empty by (auto simp: db_rep_iff f_write_def overlay_def intro!: exI)
qed

text \<open>Opening the files a closed handle left behind gives the same map.\<close>

lemma reopen_ok:
  assumes "db_rep db m" "db_close db = (idx, dat)"
  shows "\<exists>db'. db_open path creat False (Some idx) (Some dat) [] = Inr (Some db') \<and> db_rep db' m"
proof -
  obtain ps rs dat0 cs where r: "rep db ps rs dat0 cs" "m = lookup rs dat0 cs"
    using assms(1) by (auto simp: db_rep_iff)
  obtain db0 where a: "db_alloc [] = Inr db0" "faults db0 = []" "locks db0 = []"
    by (simp add: db_alloc_def Let_def)
  let ?d1 = "db0\<lparr>nhash := NHASH_DEF, hashoff := HASH_OFF, name := path @ ''.dat'',
      idxfd := \<lparr>fbytes = idx, fpos = 0\<rparr>, datfd := \<lparr>fbytes = dat, fpos = 0\<rparr>\<rparr>"
  have r1: "rep ?d1 ps rs dat0 cs"
    using r(1) assms(2) a(2) by (auto simp: rep_def lay_def db_close_def db_free_def layout_consts)
  have "db_open path creat False (Some idx) (Some dat) [] =
      Inr (Some (?d1\<lparr>idxfd := (idxfd ?d1)\<lparr>fpos := 967\<rparr>, idxoff := 967\<rparr>))"
    using a rewind_ok [OF r1] by (simp add: db_open_def Let_def os_open_def)
  moreover have "rep (?d1\<lparr>idxfd := (idxfd ?d1)\<lparr>fpos := 967\<rparr>, idxoff := 967\<rparr>) ps rs dat0 cs"
    using r1 by (simp only: rep_idxpos)
  ultimately show ?thesis using a(3) r(2) by (auto simp: db_rep_iff intro!: exI)
qed

section \<open>Scanning\<close>

definition nonblank :: "irec list \<Rightarrow> nat \<Rightarrow> bool" where
  "nonblank rs j \<longleftrightarrow> \<not> set (r_key (rs ! j)) \<subseteq> {SPACE}"

definition pending :: "irec list \<Rightarrow> nat \<Rightarrow> nat list" where
  "pending rs i = filter (nonblank rs) [i..<length rs]"

lemma pending_rec: "i < length rs \<Longrightarrow>
  pending rs i = (if nonblank rs i then i # pending rs (Suc i) else pending rs (Suc i))"
  by (simp add: pending_def upt_conv_Cons)

lemma after_readidx_pos: "i < length rs \<Longrightarrow> fpos (idxfd (after_readidx db rs i)) = offs rs (Suc i)"
  by (simp add: after_readidx_def offs_Suc)

lemma nextrec_loop_ok:
  assumes "lay db ps rs dat" "i \<le> length rs" "fpos (idxfd db) = offs rs i" "length rs - i < fuel"
  shows "\<exists>db'. nextrec_loop fuel db = Inr (pending rs i \<noteq> [], db') \<and> lay db' ps rs dat \<and> locks db' = locks db \<and>
    (case pending rs i of
       [] \<Rightarrow> True
     | j # js \<Rightarrow> loaded db' rs j \<and> j < length rs \<and> nonblank rs j \<and>
               fpos (idxfd db') = offs rs (Suc j) \<and> js = pending rs (Suc j))"
  using assms
proof (induction fuel arbitrary: db i)
  case (Suc fuel)
  show ?case
  proof (cases "i = length rs")
    case True
    then have "db_readidx db 0 = Inr (- 1, db\<lparr>idxoff := int (fpos (idxfd db))\<rparr>)"
      using Suc.prems by (intro readidx_eof) simp_all
    with True Suc.prems(1) show ?thesis by (simp add: nextrec_loop.simps pending_def lay_def)
  next
    case False
    then have i: "i < length rs" using Suc.prems by simp
    let ?d = "after_readidx db rs i"
    have rd: "db_readidx db 0 = Inr (int (r_ptr (rs ! i)), ?d)"
      using Suc.prems i by (intro readidx_cur_ok) simp_all
    have ld: "loaded ?d rs i" using lay_nth_ok [OF Suc.prems(1) i] by simp
    have k: "locks ?d = locks db" by (simp add: after_readidx_def)
    have blank: "(\<forall>c\<in>set (cstr (idxbuf ?d)). c = SPACE) \<longleftrightarrow> \<not> nonblank rs i"
      using ld by (auto simp: loaded_def nonblank_def)
    show ?thesis
    proof (cases "nonblank rs i")
      case True
      with rd blank ld k i Suc.prems(1) show ?thesis
        by (auto simp: nextrec_loop.simps pending_rec after_readidx_pos)
    next
      case False
      have "nextrec_loop (Suc fuel) db = nextrec_loop fuel ?d"
        using False rd blank by (simp add: nextrec_loop.simps)
      moreover have "pending rs i = pending rs (Suc i)" using False i by (simp add: pending_rec)
      ultimately show ?thesis
        using Suc.IH [of ?d "Suc i"] Suc.prems i k by (simp add: after_readidx_pos)
    qed
  qed
qed simp

definition at_rec :: "db \<Rightarrow> irec list \<Rightarrow> nat \<Rightarrow> bool" where
  "at_rec db rs i \<longleftrightarrow> locks db = [] \<and> i \<le> length rs \<and> fpos (idxfd db) = offs rs i"

lemma nonblank_live:
  assumes "rep db ps rs dat cs" "j < length rs" "nonblank rs j"
  obtains a where "0 < a" "a < 138" "j \<in> set (cs a)"
proof -
  note R = repD [OF assms(1)]
  obtain a where a: "a < 138" "j \<in> set (cs a)" using R(2) assms(2) by (auto simp: links_def)
  moreover have "a \<noteq> 0" using conts_free [OF R(3)] a assms(3) by (auto simp: nonblank_def)
  ultimately show ?thesis using that by simp
qed

lemma nextrec_ok:
  assumes r: "rep db ps rs dat cs" and at: "at_rec db rs i"
  shows "\<exists>db' res. db_nextrec db = Inr (res, db') \<and> rep db' ps rs dat cs \<and> locks db' = [] \<and>
    (case pending rs i of
       [] \<Rightarrow> res = None
     | j # js \<Rightarrow> res = Some (r_key (rs ! j), data_at dat (rs ! j)) \<and> at_rec db' rs (Suc j) \<and>
               js = pending rs (Suc j))"
proof -
  note R = repD [OF r] and L = layD [OF repD(1) [OF r]]
  let ?d0 = "db\<lparr>locks := [(IdxFd, 0, 1, F_RDLCK)]\<rparr>"
  have l0: "lay ?d0 ps rs dat" using R(1) by simp
  have lk: "locks db = []" using at by (simp add: at_rec_def)
  have "length rs \<le> length (fbytes (idxfd ?d0))"
    using L length_recs_le [OF R(4)] by (simp add: length_idx_bytes offs_def)
  then have fuel: "length rs - i < Suc (length (fbytes (idxfd ?d0)))" by arith
  have "i \<le> length rs" "fpos (idxfd ?d0) = offs rs i" using at by (simp_all add: at_rec_def)
  from nextrec_loop_ok [OF l0 this fuel] obtain d1 where d1:
    "nextrec_loop (Suc (length (fbytes (idxfd ?d0)))) ?d0 = Inr (pending rs i \<noteq> [], d1)" "lay d1 ps rs dat"
    "locks d1 = locks ?d0"
    "case pending rs i of [] \<Rightarrow> True
     | j # js \<Rightarrow> loaded d1 rs j \<and> j < length rs \<and> nonblank rs j \<and>
               fpos (idxfd d1) = offs rs (Suc j) \<and> js = pending rs (Suc j)" by blast
  have r1: "rep d1 ps rs dat cs" using d1(2) R by (simp add: rep_def)
  have f1: "faults d1 = []" using layD(1) [OF d1(2)] .
  show ?thesis
  proof (cases "pending rs i")
    case Nil
    with d1 f1 r1 L(1) lk show ?thesis by (simp add: db_nextrec_def lock_ok FREE_OFF_def)
  next
    case (Cons j js)
    with d1(4) have j: "pending rs i \<noteq> []" "loaded d1 rs j" "j < length rs" "nonblank rs j"
      "fpos (idxfd d1) = offs rs (Suc j)" "js = pending rs (Suc j)" by auto
    obtain a where a: "0 < a" "a < 138" "j \<in> set (cs a)" by (rule nonblank_live [OF r j(3,4)])
    from loaded_readdat [OF r1 j(2) a(3,1,2)] obtain d2 where d2:
      "db_readdat d1 = Inr (data_at dat (rs ! j), d2)" "rep d2 ps rs dat cs" "locks d2 = locks d1"
      "idxfd d2 = idxfd d1" by blast
    have "cstr (idxbuf d1) = r_key (rs ! j)" using j(2) by (simp add: loaded_def)
    moreover have "faults d2 = []" using layD(1) [OF repD(1) [OF d2(2)]] .
    ultimately show ?thesis
      using Cons j d1(1,3) d2 L(1) lk by (simp add: db_nextrec_def lock_ok FREE_OFF_def at_rec_def)
  qed
qed

text \<open>Calling \<open>db_nextrec\<close> until it returns a null pointer.\<close>

fun db_scan :: "nat \<Rightarrow> db \<Rightarrow> db_error + (string \<times> string) list \<times> db" where
  "db_scan 0 db = Inl Diverges"
| "db_scan (Suc fuel) db =
     andthen (db_nextrec db) (\<lambda>(r, db).
     case r of
       None \<Rightarrow> Inr ([], db)
     | Some kd \<Rightarrow> andthen (db_scan fuel db) (\<lambda>(kds, db). Inr (kd # kds, db)))"

lemma scan_from_ok:
  assumes "rep db ps rs dat cs" "at_rec db rs i" "length (pending rs i) < fuel"
  shows "\<exists>db'. db_scan fuel db = Inr (map (\<lambda>j. (r_key (rs ! j), data_at dat (rs ! j))) (pending rs i), db') \<and>
           rep db' ps rs dat cs \<and> locks db' = []"
  using assms
proof (induction fuel arbitrary: db i)
  case (Suc fuel)
  from nextrec_ok [OF Suc.prems(1,2)] obtain db1 res where n:
    "db_nextrec db = Inr (res, db1)" "rep db1 ps rs dat cs" "locks db1 = []"
    "case pending rs i of [] \<Rightarrow> res = None
     | j # js \<Rightarrow> res = Some (r_key (rs ! j), data_at dat (rs ! j)) \<and> at_rec db1 rs (Suc j) \<and>
               js = pending rs (Suc j)" by blast
  show ?case
  proof (cases "pending rs i")
    case Nil
    with n show ?thesis by simp
  next
    case (Cons j js)
    with n(4) have j: "res = Some (r_key (rs ! j), data_at dat (rs ! j))" "at_rec db1 rs (Suc j)"
      "js = pending rs (Suc j)" by auto
    with Suc.IH [OF n(2) j(2)] Cons Suc.prems(3) n(1) show ?thesis by auto
  qed
qed simp

lemma pending_map:
  assumes r: "rep db ps rs dat cs"
  shows "(k, d) \<in> set (map (\<lambda>j. (r_key (rs ! j), data_at dat (rs ! j))) (pending rs 0)) \<longleftrightarrow>
           lookup rs dat cs k = Some d \<and> \<not> set k \<subseteq> {SPACE}"
    and "distinct (map fst (map (\<lambda>j. (r_key (rs ! j), data_at dat (rs ! j))) (pending rs 0)))"
proof -
  note R = repD [OF r]
  have nb: "j \<in> live cs" if "j < length rs" "nonblank rs j" for j
    using nonblank_live [OF r that] by (auto simp: live_def)
  have lv: "j < length rs" if "j \<in> live cs" for j using live_lt [OF R(2) that] .
  show "(k, d) \<in> set (map (\<lambda>j. (r_key (rs ! j), data_at dat (rs ! j))) (pending rs 0)) \<longleftrightarrow>
      lookup rs dat cs k = Some d \<and> \<not> set k \<subseteq> {SPACE}"
    unfolding lookup_iff [OF R(3)] using nb lv
    by (auto simp: pending_def nonblank_def image_iff)
  have "inj_on (\<lambda>j. r_key (rs ! j)) (set (pending rs 0))"
  proof (rule inj_onI)
    fix x y assume xy: "x \<in> set (pending rs 0)" "y \<in> set (pending rs 0)" "r_key (rs ! x) = r_key (rs ! y)"
    then have "x \<in> live cs" "y \<in> live cs" using nb by (auto simp: pending_def)
    then show "x = y" using live_key_unique [OF R(3)] xy(3) by blast
  qed
  then show "distinct (map fst (map (\<lambda>j. (r_key (rs ! j), data_at dat (rs ! j))) (pending rs 0)))"
    by (simp add: distinct_map pending_def comp_def)
qed

lemma scan_ok:
  assumes "db_rep db m"
  shows "\<exists>db1 kds db'. db_rewind db = Inr db1 \<and>
           db_scan (Suc (length (fbytes (idxfd db)))) db1 = Inr (kds, db') \<and> db_rep db' m \<and>
           distinct (map fst kds) \<and> (\<forall>k d. (k, d) \<in> set kds \<longleftrightarrow> m k = Some d \<and> \<not> set k \<subseteq> {SPACE})"
proof -
  obtain ps rs dat cs where r: "locks db = []" "rep db ps rs dat cs" "m = lookup rs dat cs"
    using assms by (auto simp: db_rep_iff)
  note R = repD [OF r(2)] and L = layD [OF repD(1) [OF r(2)]]
  let ?d = "db\<lparr>idxfd := (idxfd db)\<lparr>fpos := 967\<rparr>, idxoff := 967\<rparr>"
  have rw: "rep ?d ps rs dat cs" using r(2) by (simp only: rep_idxpos)
  have at: "at_rec ?d rs 0" using r(1) by (simp add: at_rec_def offs_def recs_bytes_def)
  have "length (pending rs 0) \<le> length rs" unfolding pending_def by (rule order_trans [OF length_filter_le]) simp
  also have "\<dots> \<le> length (fbytes (idxfd db))"
    using L length_recs_le [OF R(4)] by (simp add: length_idx_bytes offs_def)
  finally have "length (pending rs 0) < Suc (length (fbytes (idxfd db)))" by simp
  from scan_from_ok [OF rw at this] obtain db' where
    "db_scan (Suc (length (fbytes (idxfd db)))) ?d =
       Inr (map (\<lambda>j. (r_key (rs ! j), data_at dat (rs ! j))) (pending rs 0), db')"
    "rep db' ps rs dat cs" "locks db' = []" by blast
  with rewind_ok [OF r(2)] pending_map [OF r(2)] r(3) show ?thesis
    by (intro exI conjI) (auto simp: db_rep_iff)
qed

section \<open>The interface of the database\<close>

datatype db_call = Fetch string | Store string string store_flag | Delete string
datatype db_result = Fetched "string option" | Code int

definition db_call_step :: "db \<Rightarrow> db_call \<Rightarrow> db_error + db_result \<times> db" where
  "db_call_step db c =
     (case c of
        Fetch k \<Rightarrow> andthen (db_fetch db k) (\<lambda>(r, db). Inr (Fetched r, db))
      | Store k d f \<Rightarrow> andthen (db_store db k d f) (\<lambda>(r, db). Inr (Code r, db))
      | Delete k \<Rightarrow> andthen (db_delete db k) (\<lambda>(r, db). Inr (Code r, db)))"

definition kv_call :: "(string \<rightharpoonup> string) \<Rightarrow> db_call \<Rightarrow> db_result \<times> (string \<rightharpoonup> string)" where
  "kv_call m c =
     (case c of
        Fetch k \<Rightarrow> (Fetched (m k), m)
      | Store k d f \<Rightarrow> (case kv_store m k d f of (r, m') \<Rightarrow> (Code r, m'))
      | Delete k \<Rightarrow> (case kv_delete m k of (r, m') \<Rightarrow> (Code r, m')))"

definition db_call_ok :: "db \<Rightarrow> db_call \<Rightarrow> bool" where
  "db_call_ok db c =
     (case c of
        Store k d f \<Rightarrow> key_ok k \<and> value_ok d \<and> room db k d \<and> f \<in> {DB_INSERT, DB_REPLACE, DB_STORE}
      | _ \<Rightarrow> True)"

text \<open>What a client of a key/value store relies on.  \<open>adm\<close> says which stores it may ask for.\<close>

locale kv_db =
  fixes repr :: "'s \<Rightarrow> ('k \<rightharpoonup> 'v) \<Rightarrow> bool"
    and fetch :: "'s \<Rightarrow> 'k \<Rightarrow> 'e + 'v option \<times> 's"
    and store :: "'s \<Rightarrow> 'k \<Rightarrow> 'v \<Rightarrow> store_flag \<Rightarrow> 'e + int \<times> 's"
    and delete :: "'s \<Rightarrow> 'k \<Rightarrow> 'e + int \<times> 's"
    and adm :: "'s \<Rightarrow> 'k \<Rightarrow> 'v \<Rightarrow> store_flag \<Rightarrow> bool"
  assumes fetch_law: "repr s m \<Longrightarrow> \<exists>s'. fetch s k = Inr (m k, s') \<and> repr s' m"
    and store_law: "repr s m \<Longrightarrow> adm s k v f \<Longrightarrow> f \<noteq> DB_REPLACE \<or> m k \<noteq> None \<Longrightarrow>
      f \<noteq> DB_INSERT \<or> m k = None \<Longrightarrow> \<exists>s'. store s k v f = Inr (0, s') \<and> repr s' (m(k \<mapsto> v))"
    and delete_law: "repr s m \<Longrightarrow> \<exists>s' rc. delete s k = Inr (rc, s') \<and> repr s' (m(k := None))"
begin

lemma fetch_after_store:
  assumes "repr s m" "adm s k v DB_STORE"
  shows "\<exists>s1 s2. store s k v DB_STORE = Inr (0, s1) \<and>
           fetch s1 k' = Inr (if k' = k then Some v else m k', s2) \<and> repr s2 (m(k \<mapsto> v))"
proof -
  from store_law [OF assms] obtain s1 where s1: "store s k v DB_STORE = Inr (0, s1)" "repr s1 (m(k \<mapsto> v))" by auto
  from fetch_law [OF s1(2), of k'] s1(1) show ?thesis by auto
qed

lemma fetch_after_delete:
  assumes "repr s m"
  shows "\<exists>s1 s2 rc. delete s k = Inr (rc, s1) \<and>
           fetch s1 k' = Inr (if k' = k then None else m k', s2) \<and> repr s2 (m(k := None))"
proof -
  from delete_law [OF assms, of k] obtain s1 rc where s1: "delete s k = Inr (rc, s1)" "repr s1 (m(k := None))" by auto
  from fetch_law [OF s1(2), of k'] s1(1) show ?thesis by auto
qed

end

interpretation mydb: kv_db db_rep db_fetch db_store db_delete
  "\<lambda>db k d f. key_ok k \<and> value_ok d \<and> room db k d \<and> f \<in> {DB_INSERT, DB_REPLACE, DB_STORE}"
proof (unfold_locales, goal_cases)
  case (2 s m k v f)
  then have "kv_store m k v f = (0, m(k \<mapsto> v))" by (auto simp: kv_store_def split: option.split)
  with 2 store_ok [of s m k v f] show ?case by auto
next
  case (3 s m k)
  then show ?case using delete_ok [of s m k] by (auto simp: kv_delete_def)
qed (rule fetch_ok)

interpretation mydb_calls: simulation db_rep db_call_ok db_call_step kv_call
proof (unfold_locales, goal_cases)
  case (1 s m c)
  show ?case
  proof (cases c)
    case (Fetch k)
    with fetch_ok [OF 1(1), of k] show ?thesis by (auto simp: db_call_step_def kv_call_def)
  next
    case (Store k d f)
    with store_ok [OF 1(1), of k d f] 1(2) show ?thesis
      by (auto simp: db_call_step_def kv_call_def db_call_ok_def split_beta)
  next
    case (Delete k)
    with delete_ok [OF 1(1), of k] show ?thesis by (auto simp: db_call_step_def kv_call_def split_beta)
  qed
qed

end
