(* ===== verification/Db_Faults.thy ===== *)
theory Db_Faults
  imports Db_Ops
begin

text \<open>
  Failing system calls.  The operations of \<^verbatim>\<open>mydb/db.c\<close> test every result and end the
  process on a failure, so a call that does return has seen no failure: it did what it does
  when no call fails.  \<open>calm db\<close> is the handle in an environment without failures.
\<close>

definition calm :: "db \<Rightarrow> db" where
  "calm db = db\<lparr>faults := []\<rparr>"

lemma calm_fields [simp]:
  "faults (calm db) = []" "locks (calm db) = locks db" "idxfd (calm db) = idxfd db"
  "datfd (calm db) = datfd db" "idxbuf (calm db) = idxbuf db" "datbuf (calm db) = datbuf db"
  "idxoff (calm db) = idxoff db" "idxlen (calm db) = idxlen db" "datoff (calm db) = datoff db"
  "datlen (calm db) = datlen db" "ptrval (calm db) = ptrval db" "ptroff (calm db) = ptroff db"
  "chainoff (calm db) = chainoff db" "hashoff (calm db) = hashoff db" "nhash (calm db) = nhash db"
  by (simp_all add: calm_def)

lemma calm_counters [simp]:
  "cnt_delok (calm db) = cnt_delok db" "cnt_delerr (calm db) = cnt_delerr db"
  "cnt_fetchok (calm db) = cnt_fetchok db" "cnt_fetcherr (calm db) = cnt_fetcherr db"
  "cnt_stor1 (calm db) = cnt_stor1 db" "cnt_stor2 (calm db) = cnt_stor2 db"
  "cnt_stor3 (calm db) = cnt_stor3 db" "cnt_stor4 (calm db) = cnt_stor4 db"
  "cnt_storerr (calm db) = cnt_storerr db"
  by (simp_all add: calm_def)

lemma calm_updates [simp]:
  "(calm db)\<lparr>locks := a1\<rparr> = calm (db\<lparr>locks := a1\<rparr>)"
  "(calm db)\<lparr>errno := a2\<rparr> = calm (db\<lparr>errno := a2\<rparr>)"
  "(calm db)\<lparr>idxfd := a3\<rparr> = calm (db\<lparr>idxfd := a3\<rparr>)"
  "(calm db)\<lparr>datfd := a3\<rparr> = calm (db\<lparr>datfd := a3\<rparr>)"
  "(calm db)\<lparr>idxbuf := a4\<rparr> = calm (db\<lparr>idxbuf := a4\<rparr>)"
  "(calm db)\<lparr>datbuf := a4\<rparr> = calm (db\<lparr>datbuf := a4\<rparr>)"
  "(calm db)\<lparr>idxoff := n\<rparr> = calm (db\<lparr>idxoff := n\<rparr>)"
  "(calm db)\<lparr>idxlen := n\<rparr> = calm (db\<lparr>idxlen := n\<rparr>)"
  "(calm db)\<lparr>datoff := n\<rparr> = calm (db\<lparr>datoff := n\<rparr>)"
  "(calm db)\<lparr>datlen := n\<rparr> = calm (db\<lparr>datlen := n\<rparr>)"
  "(calm db)\<lparr>ptrval := n\<rparr> = calm (db\<lparr>ptrval := n\<rparr>)"
  "(calm db)\<lparr>ptroff := n\<rparr> = calm (db\<lparr>ptroff := n\<rparr>)"
  "(calm db)\<lparr>chainoff := n\<rparr> = calm (db\<lparr>chainoff := n\<rparr>)"
  by (simp_all add: calm_def)

lemma calm_counter_updates [simp]:
  "(calm db)\<lparr>cnt_delok := w\<rparr> = calm (db\<lparr>cnt_delok := w\<rparr>)"
  "(calm db)\<lparr>cnt_delerr := w\<rparr> = calm (db\<lparr>cnt_delerr := w\<rparr>)"
  "(calm db)\<lparr>cnt_fetchok := w\<rparr> = calm (db\<lparr>cnt_fetchok := w\<rparr>)"
  "(calm db)\<lparr>cnt_fetcherr := w\<rparr> = calm (db\<lparr>cnt_fetcherr := w\<rparr>)"
  "(calm db)\<lparr>cnt_stor1 := w\<rparr> = calm (db\<lparr>cnt_stor1 := w\<rparr>)"
  "(calm db)\<lparr>cnt_stor2 := w\<rparr> = calm (db\<lparr>cnt_stor2 := w\<rparr>)"
  "(calm db)\<lparr>cnt_stor3 := w\<rparr> = calm (db\<lparr>cnt_stor3 := w\<rparr>)"
  "(calm db)\<lparr>cnt_stor4 := w\<rparr> = calm (db\<lparr>cnt_stor4 := w\<rparr>)"
  "(calm db)\<lparr>cnt_storerr := w\<rparr> = calm (db\<lparr>cnt_storerr := w\<rparr>)"
  by (simp_all add: calm_def)

text \<open>\<open>rsim h x y\<close>: if the computation \<open>x\<close> returns, then \<open>y\<close>, the same one without
  failures, returns the same result up to \<open>h\<close>.\<close>

definition rsim :: "('a \<Rightarrow> 'a) \<Rightarrow> db_error + 'a \<Rightarrow> db_error + 'a \<Rightarrow> bool" where
  "rsim h x y \<longleftrightarrow> (\<forall>z. x = Inr z \<longrightarrow> y = Inr (h z))"

abbreviation calmed :: "'a \<times> db \<Rightarrow> 'a \<times> db" where
  "calmed \<equiv> apsnd calm"

named_theorems rsim_rules \<open>rules for comparing a computation with its run without failures\<close>

lemma rsimD: "rsim h x y \<Longrightarrow> x = Inr z \<Longrightarrow> y = Inr (h z)"
  by (simp add: rsim_def)

lemma rsim_Inl [rsim_rules]: "rsim h (Inl e) y"
  by (simp add: rsim_def)

lemma rsim_Inr [rsim_rules]: "rsim calm (Inr d) (Inr (calm d))" "rsim calmed (Inr (v, d)) (Inr (v, calm d))"
  by (simp_all add: rsim_def)

lemma rsim_if [rsim_rules]:
  "(c \<Longrightarrow> rsim h a a') \<Longrightarrow> (\<not> c \<Longrightarrow> rsim h b b') \<Longrightarrow> rsim h (if c then a else b) (if c then a' else b')"
  by simp

lemma rsim_bind [rsim_rules]:
  "rsim calm x y \<Longrightarrow> (\<And>d. rsim h (f d) (g (calm d))) \<Longrightarrow> rsim h (andthen x f) (andthen y g)"
  by (cases x) (auto simp: rsim_def)

lemma rsim_bind_val [rsim_rules]:
  "rsim calmed x y \<Longrightarrow> (\<And>v d. rsim h (f v d) (g v (calm d))) \<Longrightarrow>
   rsim h (andthen x (\<lambda>(v, d). f v d)) (andthen y (\<lambda>(v, d). g v d))"
  by (cases x) (auto simp: rsim_def)

lemma syscall_true: "syscall db = (True, db') \<Longrightarrow> \<exists>fl. db' = db\<lparr>faults := fl\<rparr>"
proof (cases "faults db")
  case Nil
  then show "syscall db = (True, db') \<Longrightarrow> ?thesis"
    by (intro exI [of _ "[]"]) (simp add: syscall_def)
qed (auto simp: syscall_def)

lemma calm_faults [simp]: "calm (db\<lparr>faults := fl\<rparr>) = calm db"
  by (simp add: calm_def)

lemma calm_after_faults [simp]:
  "calm (db\<lparr>faults := fl, locks := a1\<rparr>) = calm (db\<lparr>locks := a1\<rparr>)"
  "calm (db\<lparr>faults := fl, idxfd := a3\<rparr>) = calm (db\<lparr>idxfd := a3\<rparr>)"
  "calm (db\<lparr>faults := fl, datfd := a3\<rparr>) = calm (db\<lparr>datfd := a3\<rparr>)"
  by (simp_all add: calm_def)

lemma rsim_locks [rsim_rules]:
  "rsim calm (writew_lock db fd off len msg) (writew_lock (calm db) fd off len msg)"
  "rsim calm (readw_lock db fd off len msg) (readw_lock (calm db) fd off len msg)"
  "rsim calm (un_lock db fd off len msg) (un_lock (calm db) fd off len msg)"
  by (auto simp: rsim_def writew_lock_def readw_lock_def un_lock_def lock_reg_def Let_def
      split: prod.splits if_splits dest!: syscall_true)

lemma rsim_seek [rsim_rules]:
  "rsim calm (idx_lseek db off w msg) (idx_lseek (calm db) off w msg)"
  "rsim calm (dat_lseek db off w msg) (dat_lseek (calm db) off w msg)"
  by (auto simp: rsim_def idx_lseek_def dat_lseek_def
      split: prod.splits if_splits option.splits dest!: syscall_true)

lemma rsim_write [rsim_rules]:
  "rsim calm (idx_write db s msg) (idx_write (calm db) s msg)"
  "rsim calm (dat_write db s msg) (dat_write (calm db) s msg)"
  by (auto simp: rsim_def idx_write_def dat_write_def split: prod.splits if_splits dest!: syscall_true)

lemma read_calm:
  "idx_read db n = (Some s, db') \<Longrightarrow> idx_read (calm db) n = (Some s, calm db')"
  "dat_read db n = (Some s, db') \<Longrightarrow> dat_read (calm db) n = (Some s, calm db')"
  by (auto simp: idx_read_def dat_read_def split: prod.splits if_splits dest!: syscall_true)

lemma rsim_read [rsim_rules]:
  "(\<And>s d. rsim h (f s d) (g s (calm d))) \<Longrightarrow>
   rsim h (case idx_read db n of (None, d) \<Rightarrow> Inl e | (Some s, d) \<Rightarrow> f s d)
     (case idx_read (calm db) n of (None, d) \<Rightarrow> Inl e | (Some s, d) \<Rightarrow> g s d)"
  "(\<And>s d. rsim h (f s d) (g s (calm d))) \<Longrightarrow>
   rsim h (case dat_read db n of (None, d) \<Rightarrow> Inl e | (Some s, d) \<Rightarrow> f s d)
     (case dat_read (calm db) n of (None, d) \<Rightarrow> Inl e | (Some s, d) \<Rightarrow> g s d)"
  using read_calm [of db n]
  by (auto simp: rsim_def split: prod.splits option.splits)

section \<open>The primitive operations\<close>

lemma rsim_readptr [rsim_rules]: "rsim calmed (db_readptr db off) (db_readptr (calm db) off)"
  unfolding db_readptr_def by (auto intro!: rsim_rules)

lemma rsim_parseidx [rsim_rules]: "rsim calmed (db_parseidx db buf) (db_parseidx (calm db) buf)"
  by (auto simp: rsim_def db_parseidx_def Let_def split: option.splits if_splits)

lemma rsim_readidx [rsim_rules]: "rsim calmed (db_readidx db off) (db_readidx (calm db) off)"
  unfolding db_readidx_def Let_def by (auto intro!: rsim_rules)

lemma rsim_readdat [rsim_rules]: "rsim calmed (db_readdat db) (db_readdat (calm db))"
  unfolding db_readdat_def Let_def by (auto intro!: rsim_rules)

lemma rsim_writeptr [rsim_rules]: "rsim calm (db_writeptr db off p) (db_writeptr (calm db) off p)"
  unfolding db_writeptr_def Let_def by (auto intro!: rsim_rules)

lemma rsim_writedat [rsim_rules]: "rsim calm (db_writedat db data off w) (db_writedat (calm db) data off w)"
  unfolding db_writedat_def Let_def by (auto intro!: rsim_rules)

lemma rsim_writeidx [rsim_rules]: "rsim calm (db_writeidx db key off w p) (db_writeidx (calm db) key off w p)"
  unfolding db_writeidx_def Let_def by (auto intro!: rsim_rules)

lemma rsim_find_loop [rsim_rules]: "rsim calmed (find_loop fuel db key off) (find_loop fuel (calm db) key off)"
  by (induction fuel arbitrary: db off) (auto simp: find_loop.simps intro!: rsim_rules)

lemma rsim_findfree_loop [rsim_rules]:
  "rsim calmed (findfree_loop fuel db kl dl sv off) (findfree_loop fuel (calm db) kl dl sv off)"
  by (induction fuel arbitrary: db sv off) (auto simp: findfree_loop.simps intro!: rsim_rules)

section \<open>The operations\<close>

lemma db_hash_calm [simp]: "db_hash (calm db) k = db_hash db k"
  by (simp add: db_hash_def)

lemma rsim_find_and_lock [rsim_rules]:
  "rsim calmed (db_find_and_lock db key w) (db_find_and_lock (calm db) key w)"
  unfolding db_find_and_lock_def Let_def by (auto intro!: rsim_rules)

lemma rsim_findfree [rsim_rules]: "rsim calmed (db_findfree db kl dl) (db_findfree (calm db) kl dl)"
  unfolding db_findfree_def Let_def by (auto intro!: rsim_rules)

lemma rsim_dodelete [rsim_rules]: "rsim calm (db_dodelete db) (db_dodelete (calm db))"
  unfolding db_dodelete_def Let_def by (auto intro!: rsim_rules)

lemma rsim_fetch [rsim_rules]: "rsim calmed (db_fetch db key) (db_fetch (calm db) key)"
  unfolding db_fetch_def by (auto intro!: rsim_rules)

lemma rsim_delete [rsim_rules]: "rsim calmed (db_delete db key) (db_delete (calm db) key)"
  unfolding db_delete_def by (auto intro!: rsim_rules)

lemma rsim_store_new [rsim_rules]:
  "rsim calmed (db_store_new db key data flag) (db_store_new (calm db) key data flag)"
  unfolding db_store_new_def by (auto intro!: rsim_rules)

lemma rsim_store_found [rsim_rules]:
  "rsim calmed (db_store_found db key data flag) (db_store_found (calm db) key data flag)"
  unfolding db_store_found_def by (auto intro!: rsim_rules)

lemma rsim_store [rsim_rules]: "rsim calmed (db_store db key data flag) (db_store (calm db) key data flag)"
  unfolding db_store_def Let_def by (auto intro!: rsim_rules)

lemma rsim_call_step [rsim_rules]: "rsim calmed (db_call_step db c) (db_call_step (calm db) c)"
  by (cases c) (auto simp: db_call_step_def intro!: rsim_rules)

end
