(* ===== verification/Db_Props.thy ===== *)
theory Db_Props
  imports Db_Faults
begin

text \<open>
  The properties of the database library of \<^verbatim>\<open>mydb/db.c\<close>, each with an instance on a
  database just created.
\<close>

lemma db_new:
  obtains db where "db_open ''d'' True True None None [] = Inr (Some db)" "db_rep db Map.empty"
    "length (fbytes (idxfd db)) = 967" "fbytes (datfd db) = []"
  using open_create_ok [of "''d''" None None] by auto

lemma room_new:
  assumes "length (fbytes (idxfd db)) = 967" "fbytes (datfd db) = []"
  shows "room db ''key'' ''data''" "key_ok ''key''" "value_ok ''data''"
  using assms by (simp_all add: room_def key_ok_def value_ok_def SEP_def dec.simps)

text \<open>C1: on files that represent the map \<open>m\<close>, \<open>db_store\<close> with any of its three flags does
  to the files what the map operation does to \<open>m\<close>, and returns its code: 0 when it stored,
  1 when the key was there and the flag was \<open>DB_INSERT\<close>, -1 when it was not and the flag was
  \<open>DB_REPLACE\<close>.  This covers a new record at the end, a reused free record, data rewritten
  in place and delete-and-append; the locks are released.\<close>

theorem db_store_refines:
  assumes "db_rep db m" "key_ok k" "value_ok d" "room db k d"
    and "flag \<in> {DB_INSERT, DB_REPLACE, DB_STORE}"
  shows "\<exists>db'. db_store db k d flag = Inr (fst (kv_store m k d flag), db') \<and>
           db_rep db' (snd (kv_store m k d flag))"
  using assms by (rule store_ok)

theorem db_store_refines_witness:
  "\<exists>db db'. db_open ''d'' True True None None [] = Inr (Some db) \<and>
     db_store db ''key'' ''data'' DB_INSERT = Inr (0, db') \<and> db_rep db' [''key'' \<mapsto> ''data'']"
proof -
  obtain db where db: "db_open ''d'' True True None None [] = Inr (Some db)" "db_rep db Map.empty"
    "length (fbytes (idxfd db)) = 967" "fbytes (datfd db) = []" by (rule db_new)
  have "DB_INSERT \<in> {DB_INSERT, DB_REPLACE, DB_STORE}" by simp
  from db_store_refines [OF db(2) room_new(2,3,1) [OF db(3,4)] this] db(1) show ?thesis
    by (auto simp: kv_store_def)
qed

text \<open>C2: \<open>db_fetch\<close> returns the data stored under the key and a null pointer for an absent
  key; the files still represent the same map.  It always returns: the search loop ends.\<close>

theorem db_fetch_refines:
  assumes "db_rep db m"
  shows "\<exists>db'. db_fetch db k = Inr (m k, db') \<and> db_rep db' m"
  using assms by (rule fetch_ok)

theorem db_fetch_refines_witness:
  "\<exists>db db'. db_open ''d'' True True None None [] = Inr (Some db) \<and>
     db_fetch db ''key'' = Inr (None, db') \<and> db_rep db' Map.empty"
proof -
  obtain db where db: "db_open ''d'' True True None None [] = Inr (Some db)" "db_rep db Map.empty"
    by (rule db_new)
  from db_fetch_refines [OF db(2), of "''key''"] db(1) show ?thesis by auto
qed

text \<open>C3: \<open>db_delete\<close> removes exactly the key it is given and returns 0, or returns -1 and
  changes nothing when the key is absent; the record goes to the free list and the locks are
  released.\<close>

theorem db_delete_refines:
  assumes "db_rep db m"
  shows "\<exists>db'. db_delete db k = Inr (fst (kv_delete m k), db') \<and> db_rep db' (snd (kv_delete m k))"
  using assms by (rule delete_ok)

theorem db_delete_refines_witness:
  "\<exists>db db1 db2. db_open ''d'' True True None None [] = Inr (Some db) \<and>
     db_store db ''key'' ''data'' DB_STORE = Inr (0, db1) \<and>
     db_delete db1 ''key'' = Inr (0, db2) \<and> db_rep db2 Map.empty"
proof -
  obtain db where db: "db_open ''d'' True True None None [] = Inr (Some db)" "db_rep db Map.empty"
    "length (fbytes (idxfd db)) = 967" "fbytes (datfd db) = []" by (rule db_new)
  obtain db1 where db1: "db_store db ''key'' ''data'' DB_STORE = Inr (0, db1)"
    "db_rep db1 [''key'' \<mapsto> ''data'']"
    using store_ok [OF db(2) room_new(2,3,1) [OF db(3,4)], of DB_STORE] by (auto simp: kv_store_def)
  from db_delete_refines [OF db1(2), of "''key''"] db(1) db1(1) show ?thesis
    by (auto simp: kv_delete_def)
qed

text \<open>C10: any sequence of fetches, stores and deletes whose stores are admissible (a key
  without NUL or separator, data of 1 to 1023 bytes, room in the files) returns what the same
  sequence returns on the map, and ends in files that represent the map's final value.\<close>

theorem db_calls_refine:
  assumes "db_rep db m" "adm_run db_call_ok db_call_step db cs"
  shows "\<exists>db'. run_steps db_call_step db cs = Inr (fst (run_spec kv_call m cs), db') \<and>
           db_rep db' (snd (run_spec kv_call m cs))"
  using assms by (rule mydb_calls.run_refines)

theorem db_calls_refine_witness:
  "\<exists>db db'. db_open ''d'' True True None None [] = Inr (Some db) \<and>
     run_steps db_call_step db
       [Store ''key'' ''data'' DB_INSERT, Fetch ''key'', Delete ''key'', Fetch ''key''] =
     Inr ([Code 0, Fetched (Some ''data''), Code 0, Fetched None], db') \<and> db_rep db' Map.empty"
proof -
  let ?cs = "[Fetch ''key'', Delete ''key'', Fetch ''key'']"
  obtain db where db: "db_open ''d'' True True None None [] = Inr (Some db)" "db_rep db Map.empty"
    "length (fbytes (idxfd db)) = 967" "fbytes (datfd db) = []" by (rule db_new)
  have free: "adm_run db_call_ok db_call_step s ?cs" for s
    by (auto simp: db_call_ok_def split: sum.split)
  have "adm_run db_call_ok db_call_step db (Store ''key'' ''data'' DB_INSERT # ?cs)"
    using room_new [OF db(3,4)] free
    by (simp only: adm_run.simps(2) db_call_ok_def) (auto split: sum.split)
  from db_calls_refine [OF db(2) this] db(1) show ?thesis
    by (auto simp: kv_call_def kv_store_def kv_delete_def)
qed

text \<open>C17: rewinding and calling \<open>db_nextrec\<close> until it returns a null pointer lists every
  stored pair whose key is not all blanks, each once, and nothing else.  (A key of blanks only
  can be stored and fetched but looks deleted to \<open>db_nextrec\<close>.)\<close>

theorem db_nextrec_lists_all:
  assumes "db_rep db m"
  shows "\<exists>db1 kds db'. db_rewind db = Inr db1 \<and>
           db_scan (Suc (length (fbytes (idxfd db)))) db1 = Inr (kds, db') \<and> db_rep db' m \<and>
           distinct (map fst kds) \<and> (\<forall>k d. (k, d) \<in> set kds \<longleftrightarrow> m k = Some d \<and> \<not> set k \<subseteq> {SPACE})"
  using assms by (rule scan_ok)

theorem db_nextrec_lists_all_witness:
  "\<exists>db db1 kds db'. db_rep db [''key'' \<mapsto> ''data''] \<and> db_rewind db = Inr db1 \<and>
     db_scan (Suc (length (fbytes (idxfd db)))) db1 = Inr (kds, db') \<and> (''key'', ''data'') \<in> set kds"
proof -
  obtain db where db: "db_rep db Map.empty"
    "length (fbytes (idxfd db)) = 967" "fbytes (datfd db) = []" by (rule db_new)
  obtain db1 where db1: "db_rep db1 [''key'' \<mapsto> ''data'']"
    using store_ok [OF db(1) room_new(2,3,1) [OF db(2,3)], of DB_STORE] by (auto simp: kv_store_def)
  from db_nextrec_lists_all [OF this] db1 show ?thesis by (fastforce simp: SPACE_def)
qed

text \<open>C35: what was closed is what is opened: opening the two files that a handle for the map
  \<open>m\<close> leaves behind, without truncating them, gives a handle for \<open>m\<close>.\<close>

theorem db_close_open_roundtrip:
  assumes "db_rep db m" "db_close db = (idx, dat)"
  shows "\<exists>db'. db_open path creat False (Some idx) (Some dat) [] = Inr (Some db') \<and> db_rep db' m"
  using assms by (rule reopen_ok)

theorem db_close_open_roundtrip_witness:
  "\<exists>db idx dat db'. db_rep db [''key'' \<mapsto> ''data''] \<and> db_close db = (idx, dat) \<and>
     db_open ''d'' False False (Some idx) (Some dat) [] = Inr (Some db') \<and> db_rep db' [''key'' \<mapsto> ''data'']"
proof -
  obtain db where db: "db_rep db Map.empty"
    "length (fbytes (idxfd db)) = 967" "fbytes (datfd db) = []" by (rule db_new)
  obtain db1 where db1: "db_rep db1 [''key'' \<mapsto> ''data'']"
    using store_ok [OF db(1) room_new(2,3,1) [OF db(2,3)], of DB_STORE] by (auto simp: kv_store_def)
  obtain idx dat where c: "db_close db1 = (idx, dat)" by fastforce
  from db_close_open_roundtrip [OF db1 c, of "''d''" False] db1 c show ?thesis by blast
qed

text \<open>\<open>db_open\<close> with \<open>O_CREAT\<close> and \<open>O_TRUNC\<close> makes an empty database whatever files were
  there before.\<close>

theorem db_open_creates_empty:
  "\<exists>db. db_open path True True oldidx olddat [] = Inr (Some db) \<and> db_rep db Map.empty"
  using open_create_ok [of path oldidx olddat] by auto

text \<open>A key just stored with \<open>DB_STORE\<close> is fetched back, and every other key is as before.\<close>

theorem db_fetch_after_store:
  assumes "db_rep db m" "key_ok k" "value_ok d" "room db k d"
  shows "\<exists>db1 db2. db_store db k d DB_STORE = Inr (0, db1) \<and>
           db_fetch db1 k' = Inr (if k' = k then Some d else m k', db2) \<and> db_rep db2 (m(k \<mapsto> d))"
  using assms by (intro mydb.fetch_after_store) simp_all

theorem db_fetch_after_store_witness:
  "\<exists>db db1 db2. db_open ''d'' True True None None [] = Inr (Some db) \<and>
     db_store db ''key'' ''data'' DB_STORE = Inr (0, db1) \<and> db_fetch db1 ''key'' = Inr (Some ''data'', db2)"
proof -
  obtain db where db: "db_open ''d'' True True None None [] = Inr (Some db)" "db_rep db Map.empty"
    "length (fbytes (idxfd db)) = 967" "fbytes (datfd db) = []" by (rule db_new)
  from db_fetch_after_store [OF db(2) room_new(2,3,1) [OF db(3,4)], of "''key''"] db(1)
  show ?thesis by auto
qed

text \<open>C31: with system calls failing as they may, a call that returns at all has done what the
  map operation does: a failure ends the process and is never taken for a result.\<close>

theorem db_call_survives_faults:
  assumes "db_rep (calm db) m" "db_call_ok (calm db) c" "db_call_step db c = Inr (r, db')"
  shows "r = fst (kv_call m c) \<and> db_rep (calm db') (snd (kv_call m c))"
proof -
  have "db_call_step (calm db) c = Inr (r, calm db')"
    using rsimD [OF rsim_call_step assms(3)] by simp
  with mydb_calls.sim [OF assms(1,2)] show ?thesis by auto
qed

theorem db_call_survives_faults_witness:
  "\<exists>db db'. db_rep (calm db) Map.empty \<and> db_call_ok (calm db) (Fetch ''key'') \<and>
     db_call_step db (Fetch ''key'') = Inr (Fetched None, db') \<and> db_rep (calm db') Map.empty"
proof -
  obtain db where db: "db_rep db Map.empty" by (rule db_new)
  then have "faults db = []" by (auto simp: db_rep_def lay_def)
  then have c: "calm db = db" by (simp add: calm_def)
  obtain db' where f: "db_fetch db ''key'' = Inr (None, db')" using fetch_ok [OF db, of "''key''"] by auto
  then have s: "db_call_step db (Fetch ''key'') = Inr (Fetched None, db')" by (simp add: db_call_step_def)
  have ok: "db_call_ok (calm db) (Fetch ''key'')" by (simp add: db_call_ok_def)
  have "db_rep (calm db') Map.empty"
    using db_call_survives_faults [OF _ ok s, of Map.empty] db c by (simp add: kv_call_def)
  with db c s ok show ?thesis by (intro exI [of _ db] exI [of _ db']) simp
qed

end
