(* ===== verification/Cstdio.thy ===== *)
theory Cstdio
  imports Prelude "HOL-Library.Sublist"
begin

text \<open>
  The parts of \<^verbatim>\<open><stdio.h>\<close> and \<^verbatim>\<open><string.h>\<close> that the command programs use: the
  conversions of \<open>scanf\<close>, \<open>fgets\<close>, and the searches \<open>strstr\<close> and \<open>strrchr\<close>, on C
  strings (lists without the closing NUL), with what each of them finds.
\<close>

section \<open>Definitions\<close>

fun starts_with :: "string \<Rightarrow> string \<Rightarrow> bool" where
  "starts_with s [] = True"
| "starts_with [] (c # cs) = False"
| "starts_with (x # xs) (c # cs) = (x = c \<and> starts_with xs cs)"

text \<open>\<open>strstr(s, t)\<close>: the index of the first occurrence.\<close>

fun strstr :: "string \<Rightarrow> string \<Rightarrow> nat option" where
  "strstr [] t = (if t = [] then Some 0 else None)"
| "strstr (x # xs) t =
     (if starts_with (x # xs) t then Some 0 else map_option Suc (strstr xs t))"

text \<open>The last index not after \<open>i\<close> that holds \<open>c\<close>; \<open>strrchr\<close> starts at the end.\<close>

fun last_at :: "string \<Rightarrow> char \<Rightarrow> nat \<Rightarrow> nat option" where
  "last_at s c 0 = (if s \<noteq> [] \<and> s ! 0 = c then Some 0 else None)"
| "last_at s c (Suc i) =
     (if Suc i < length s \<and> s ! Suc i = c then Some (Suc i) else last_at s c i)"

definition strrchr :: "string \<Rightarrow> char \<Rightarrow> nat option" where
  "strrchr s c = last_at s c (length s)"

text \<open>The conversion \<open>%d\<close> of \<open>scanf\<close>: white space is skipped, then a sign and digits.  A
  matching failure gives \<open>None\<close> and leaves the input after what was consumed (a sign that no
  digit follows is lost).  The value goes through \<open>long\<close> as \<open>strtol\<close> clamps it.\<close>

definition scan_num :: "string \<Rightarrow> int option \<times> string" where
  "scan_num s =
     (let s = dropWhile isspace s;
          neg = (s \<noteq> [] \<and> hd s = CHR ''-'');
          t = (if s \<noteq> [] \<and> (hd s = CHR ''-'' \<or> hd s = CHR ''+'') then tl s else s);
          ds = takeWhile isdigit t
      in if ds = [] then (None, t)
         else (Some (clamp_long (if neg then - int (digits_val 0 ds) else int (digits_val 0 ds))),
               dropWhile isdigit t))"

definition scan_int :: "string \<Rightarrow> int option \<times> string" where
  "scan_int s = (case scan_num s of (v, t) \<Rightarrow> (map_option to_int32 v, t))"

text \<open>The conversion \<open>%s\<close>: white space is skipped, then everything up to white space.\<close>

definition scan_word :: "string \<Rightarrow> string option \<times> string" where
  "scan_word s =
     (let s = dropWhile isspace s; w = takeWhile (\<lambda>c. \<not> isspace c) s
      in if w = [] then (None, s) else (Some w, dropWhile (\<lambda>c. \<not> isspace c) s))"

text \<open>\<open>fgets(buf, n + 1, f)\<close>: up to \<open>n\<close> characters, ending after a newline.\<close>

fun fgets_chunk :: "nat \<Rightarrow> string \<Rightarrow> string \<times> string" where
  "fgets_chunk 0 s = ([], s)"
| "fgets_chunk (Suc n) [] = ([], [])"
| "fgets_chunk (Suc n) (c # s) =
     (if c = NL then ([c], s) else case fgets_chunk n s of (l, r) \<Rightarrow> (c # l, r))"

section \<open>Searching\<close>

lemma starts_with_iff: "starts_with s t \<longleftrightarrow> (\<exists>r. s = t @ r)"
  by (induction s t rule: starts_with.induct) auto

lemma starts_with_take: "starts_with s t \<longleftrightarrow> take (length t) s = t"
  by (induction s t rule: starts_with.induct) auto

lemma strstr_Some:
  "strstr s t = Some i \<Longrightarrow> \<exists>r. s = take i s @ t @ r"
proof (induction s arbitrary: i)
  case (Cons x xs)
  then show ?case
    by (auto simp: starts_with_iff split: if_splits)
qed (auto split: if_splits)

lemma strstr_le: "strstr s t = Some i \<Longrightarrow> i + length t \<le> length s"
proof -
  assume *: "strstr s t = Some i"
  then obtain r where r: "s = take i s @ t @ r" using strstr_Some by blast
  have "i \<le> length s" using *
    by (induction s arbitrary: i) (auto split: if_splits)
  with arg_cong [OF r, of length] show ?thesis by simp
qed

lemma strstr_first: "strstr s t = Some i \<Longrightarrow> j < i \<Longrightarrow> \<not> starts_with (drop j s) t"
proof (induction s arbitrary: i j)
  case (Cons x xs)
  then show ?case by (cases j) (auto split: if_splits)
qed (auto split: if_splits)

lemma strstr_None: "strstr s t = None \<Longrightarrow> \<not> (\<exists>a r. s = a @ t @ r)"
proof (induction s)
  case (Cons x xs)
  then have no: "\<not> starts_with (x # xs) t" "strstr xs t = None" by (auto split: if_splits)
  show ?case
  proof
    assume "\<exists>a r. x # xs = a @ t @ r"
    then obtain a r where a: "x # xs = a @ t @ r" by blast
    show False
    proof (cases a)
      case Nil
      with a no(1) show False by (auto simp: starts_with_iff)
    next
      case (Cons y ys)
      with a have "xs = ys @ t @ r" by simp
      with Cons.IH [OF no(2)] show False by blast
    qed
  qed
qed (auto split: if_splits)

lemma last_at_Some:
  "last_at s c n = Some i \<Longrightarrow> i < length s \<and> s ! i = c \<and> i \<le> n \<and> (\<forall>j. i < j \<and> j \<le> n \<and> j < length s \<longrightarrow> s ! j \<noteq> c)"
proof (induction n)
  case (Suc n)
  then show ?case by (auto simp: le_Suc_eq split: if_splits)
qed (auto split: if_splits)

lemma last_at_None: "last_at s c n = None \<Longrightarrow> i \<le> n \<Longrightarrow> i < length s \<Longrightarrow> s ! i \<noteq> c"
  by (induction n) (auto simp: le_Suc_eq split: if_splits)

section \<open>Scanning\<close>

lemma isspace_digit [simp]: "isdigit c \<Longrightarrow> \<not> isspace c"
  by (auto simp: isdigit_def isspace_def)

lemma scan_word_length:
  "scan_word s = (Some w, r) \<Longrightarrow> length w + length r \<le> length s"
proof -
  assume *: "scan_word s = (Some w, r)"
  let ?s = "dropWhile isspace s"
  have "w = takeWhile (\<lambda>c. \<not> isspace c) ?s" "r = dropWhile (\<lambda>c. \<not> isspace c) ?s"
    using * by (auto simp: scan_word_def Let_def split: if_splits)
  then have "length w + length r = length ?s"
    by (metis length_append takeWhile_dropWhile_id)
  also have "\<dots> \<le> length s" by (rule length_dropWhile_le)
  finally show ?thesis .
qed

lemma scan_word_here:
  "w \<noteq> [] \<Longrightarrow> \<forall>c\<in>set w. \<not> isspace c \<Longrightarrow> isspace b \<Longrightarrow> scan_word (w @ b # r) = (Some w, b # r)"
proof -
  assume w: "w \<noteq> []" "\<forall>c\<in>set w. \<not> isspace c" and b: "isspace b"
  have "dropWhile isspace (w @ b # r) = w @ b # r" using w by (cases w) auto
  moreover have "takeWhile (\<lambda>c. \<not> isspace c) (w @ b # r) = w"
    using w b by (simp add: takeWhile_tail)
  moreover have "dropWhile (\<lambda>c. \<not> isspace c) (w @ b # r) = b # r"
    using w b by (simp add: dropWhile_append3)
  ultimately show ?thesis using w by (simp add: scan_word_def Let_def)
qed

lemma takeWhile_digits: "(\<forall>c\<in>set ds. isdigit c) \<Longrightarrow> \<not> isdigit b \<Longrightarrow>
  takeWhile isdigit (ds @ b # r) = ds \<and> dropWhile isdigit (ds @ b # r) = b # r"
  by (induction ds) auto

lemma dec_hd: "isdigit (hd (dec n))"
  using dec_isdigit [of "hd (dec n)" n] by simp

lemma scan_num_dec:
  assumes "- (2 ^ 63) \<le> z" "z < 2 ^ 63" "\<not> isdigit b"
  shows "scan_num (dec_int z @ b # r) = (Some z, b # r)"
proof -
  let ?n = "nat (if z < 0 then - z else z)"
  have ds: "\<forall>c\<in>set (dec ?n). isdigit c" using dec_isdigit by blast
  note td = takeWhile_digits [OF ds assms(3), of r]
  obtain c cs where d: "dec ?n = c # cs" by (cases "dec ?n") auto
  have c: "isdigit c" using ds d by simp
  have minus: "\<not> isspace (CHR ''-'')" by (simp add: isspace_def uchar_def)
  show ?thesis
  proof (cases "z < 0")
    case True
    then show ?thesis
      using assms td minus d c digits_val_dec [of ?n]
      by (simp add: dec_int_def scan_num_def Let_def clamp_long_def)
  next
    case False
    have "c \<noteq> CHR ''-''" "c \<noteq> CHR ''+''" using digit_not_sign [OF c] by auto
    then show ?thesis
      using False assms td d c digits_val_dec [of ?n]
      by (simp add: dec_int_def scan_num_def Let_def clamp_long_def)
  qed
qed

lemma scan_int_dec:
  assumes "- (2 ^ 31) \<le> z" "z < 2 ^ 31" "\<not> isdigit b"
  shows "scan_int (dec_int z @ b # r) = (Some z, b # r)"
  using scan_num_dec [of z b r] assms by (simp add: scan_int_def to_int32_id)

lemma scan_num_space [simp]: "isspace b \<Longrightarrow> scan_num (b # r) = scan_num r"
  by (simp add: scan_num_def)

lemma scan_int_space [simp]: "isspace b \<Longrightarrow> scan_int (b # r) = scan_int r"
  by (simp add: scan_int_def)

lemma scan_word_space [simp]: "isspace b \<Longrightarrow> scan_word (b # r) = scan_word r"
  by (simp add: scan_word_def)

lemma scan_int_Nil [simp]: "scan_int [] = (None, [])"
  by (simp add: scan_int_def scan_num_def)

lemma nl_facts [simp]: "isspace NL" "\<not> isdigit NL" "\<not> isdigit (CHR '' '')"
  by (simp_all add: isspace_def isdigit_def uchar_def)

end
