(* ===== verification/Cvm.thy ===== *)
theory Cvm
  imports Cstdio
begin

text \<open>
  The virtual machine control program of \<^verbatim>\<open>src/c_code/cvm/cvm.c\<close>.  It reads one command
  from its standard input, runs shell commands, talks to the monitor socket of a machine and
  prints its answer.  The state \<open>cvm\<close> holds the input left to read, the output, the globals
  whose value outlives a function (\<open>name\<close>, \<open>result\<close>, \<open>result2\<close>) and the \<open>trace\<close> of
  everything the program asked of the system.

  The shell, the monitors, the local daemon, the file system and the clock are not part of the
  program: they are the parameter \<open>ext\<close>, whose answers may depend on the whole trace.  A run can end in an
  error: a variable read that no \<open>scanf\<close> set (\<open>Uninit\<close>), a string too long for its array
  (\<open>Overflow\<close>), an access through a null pointer or before an array (\<open>Crash\<close>), or a loop
  that never ends (\<open>Hangs\<close>).
\<close>

section \<open>The state and the system\<close>

datatype event =
    System string          \<comment> \<open>\<open>system\<close>\<close>
  | Capture string         \<comment> \<open>\<open>system\<close> with its output read back\<close>
  | Connect int            \<comment> \<open>\<open>connect\<close> to the monitor of a machine\<close>
  | Monitor int string     \<comment> \<open>a command written to it\<close>
  | Exec_connect           \<comment> \<open>\<open>connect\<close> to the local daemon\<close>
  | Exec_write string      \<comment> \<open>\<open>write\<close> of a command to it\<close>
  | Exec string            \<comment> \<open>the bytes that were sent\<close>
  | Xmlog string           \<comment> \<open>the log file opened for a line\<close>
  | Open string            \<comment> \<open>\<open>fopen\<close> for appending\<close>
  | Access string | Stat string | ReadFile string | Time
  | Append string string   \<comment> \<open>text appended to a file\<close>
  | Sleep nat              \<comment> \<open>microseconds\<close>

datatype cvm_error = Uninit | Overflow string | Crash string | Hangs

record ext =
  x_stdout :: "event list \<Rightarrow> string"
  x_exists :: "event list \<Rightarrow> bool"
  x_size :: "event list \<Rightarrow> int"
  x_file :: "event list \<Rightarrow> string option"
  x_opens :: "event list \<Rightarrow> bool"              \<comment> \<open>a file opened for appending\<close>
  x_connects :: "event list \<Rightarrow> bool"
  x_exec_connects :: "event list \<Rightarrow> bool"
  x_exec_writes :: "event list \<Rightarrow> nat option"  \<comment> \<open>\<open>None\<close> is -1\<close>
  x_reply :: "event list \<Rightarrow> string"
  x_time :: "event list \<Rightarrow> int"
  x_mix :: "int \<Rightarrow> int \<Rightarrow> int"      \<comment> \<open>\<open>(int)(a*0.9 + b*0.1)\<close> in floating point\<close>

record cvm =
  input :: string
  out :: string
  g_name :: string
  g_result :: string
  g_result2 :: string
  trace :: "event list"     \<comment> \<open>the latest event first\<close>

type_synonym 'a act = "cvm_error + 'a \<times> cvm"

definition log_path :: string where "log_path = ''/var/cos/cvm/log/cvm.log''"
definition logdir :: string where "logdir = ''/var/cos/cvm/log''"
definition dir :: string where "dir = ''/var/cos/cvm''"
definition vmdir :: string where "vmdir = ''/var/cos/cvm/vm''"
definition diskdir :: string where "diskdir = ''/var/cos/cvm/disk''"
definition cldir :: string where "cldir = ''/var/cos/cvm/vm/cl''"
definition qmdir :: string where "qmdir = ''/var/cos/cvm/vm/qm''"
definition isodir :: string where "isodir = ''/var/cos/cvm/iso''"
definition sysdir :: string where "sysdir = ''/var/cos/cvm/sys''"
definition dataisodir :: string where "dataisodir = ''/var/cos/cvm/data/iso''"
definition datasysdir :: string where "datasysdir = ''/var/cos/cvm/data/sys''"
definition backupdir :: string where "backupdir = ''/var/cos/cvm/data/backup''"
definition ifup :: string where "ifup = ''/var/cos/cvm/qemu-ifup''"
definition ifdown :: string where "ifdown = ''/var/cos/cvm/qemu-ifdown''"
definition fake :: string where "fake = ''/var/cos/cvm/sys/.fake''"
definition virtio :: string where "virtio = ''/var/cos/cvm/iso/virtio_tiny.iso''"
definition vnctoken :: string where "vnctoken = ''/var/cos/cvm/vnc_tokens''"
definition filelen :: nat where "filelen = 1024"
definition namelen :: nat where "namelen = 1024"
definition cmdlen :: nat where "cmdlen = 4096"
definition resultlen :: nat where "resultlen = 65536"

text \<open>\<open>sprintf\<close> into an array of \<open>n\<close> characters.\<close>

definition sprintf :: "nat \<Rightarrow> string list \<Rightarrow> cvm \<Rightarrow> string act" where
  "sprintf n parts s =
     (let t = concat parts in if length t < n then Inr (t, s) else Inl (Overflow t))"

definition event :: "event \<Rightarrow> cvm \<Rightarrow> cvm" where
  "event ev s = s\<lparr>trace := ev # trace s\<rparr>"

definition print :: "string \<Rightarrow> cvm \<Rightarrow> cvm" where
  "print t s = s\<lparr>out := out s @ t\<rparr>"

definition println :: "string \<Rightarrow> cvm \<Rightarrow> cvm" where
  "println t s = print (t @ [NL]) s"

text \<open>\<open>printf("ok\n")\<close> or \<open>printf("error\n")\<close>.\<close>

definition ok_error :: "bool \<Rightarrow> cvm \<Rightarrow> cvm" where
  "ok_error b s = println (if b then ''ok'' else ''error'') s"

text \<open>\<open>xmlog\<close> does not test whether the log file could be opened: \<open>fprintf\<close> crashes on the null
  pointer.\<close>

definition xmlog :: "ext \<Rightarrow> string \<Rightarrow> cvm \<Rightarrow> cvm_error + cvm" where
  "xmlog e t s = (let s = event (Xmlog t) s in if x_opens e (trace s) then Inr s else Inl (Crash log_path))"

definition systm :: "string \<Rightarrow> cvm \<Rightarrow> cvm" where
  "systm c s = event (System c) s"

definition usleep :: "nat \<Rightarrow> cvm \<Rightarrow> cvm" where
  "usleep n s = event (Sleep n) s"

definition time_now :: "ext \<Rightarrow> cvm \<Rightarrow> int \<times> cvm" where
  "time_now e s = (let s = event Time s in (x_time e (trace s), s))"

text \<open>\<open>getresult\<close>: at most \<open>resultlen - 1\<close> bytes of the command's output.\<close>

definition getresult :: "ext \<Rightarrow> string \<Rightarrow> bool \<Rightarrow> cvm \<Rightarrow> string act" where
  "getresult e cmd olog s =
     (let s = event (Capture cmd) s;
          r = cstr (take (resultlen - 1) (x_stdout e (trace s)))
      in if olog then andthen (xmlog e cmd s) (\<lambda>s. andthen (xmlog e r s) (\<lambda>s. Inr (r, s)))
         else Inr (r, s))"

definition to_result :: "string act \<Rightarrow> cvm_error + cvm" where
  "to_result rs = andthen rs (\<lambda>(r, s). Inr (s\<lparr>g_result := r\<rparr>))"

definition fileExist :: "ext \<Rightarrow> string \<Rightarrow> cvm \<Rightarrow> bool \<times> cvm" where
  "fileExist e f s = (let s = event (Access f) s in (x_exists e (trace s), s))"

definition fileSize :: "ext \<Rightarrow> string \<Rightarrow> cvm \<Rightarrow> int \<times> cvm" where
  "fileSize e f s = (let s = event (Stat f) s in (x_size e (trace s), s))"

definition readfile :: "ext \<Rightarrow> string \<Rightarrow> cvm \<Rightarrow> string act" where
  "readfile e f s =
     (let s = event (ReadFile f) s
      in case x_file e (trace s) of None \<Rightarrow> Inl (Crash f) | Some t \<Rightarrow> Inr (t, s))"

text \<open>The monitor's greeting is read and dropped, then the command is written and the reply
  read into \<open>result\<close> (all of it: \<open>read\<close> may fill the array without a closing NUL).\<close>

definition monitor :: "ext \<Rightarrow> int \<Rightarrow> string \<Rightarrow> cvm \<Rightarrow> bool act" where
  "monitor e vid cmd s =
     (let s = event (Connect vid) s in
      if \<not> x_connects e (trace s) then Inr (False, s)
      else let s = usleep 100000 s;
               s = usleep 100000 (event (Monitor vid cmd) s);
               r = cstr (take resultlen (x_reply e (trace s)))
           in andthen (xmlog e cmd (s\<lparr>g_result := r\<rparr>)) (\<lambda>s.
              andthen (xmlog e r s) (\<lambda>s. Inr (True, s))))"

text \<open>The answers of \<open>exec\<close>: nothing is sent when the daemon cannot be reached or the \<open>write\<close>
  fails; a short \<open>write\<close> counts as a success.  Its callers ignore the result.\<close>

definition exec :: "ext \<Rightarrow> string \<Rightarrow> cvm \<Rightarrow> bool \<times> cvm" where
  "exec e cmd s =
     (let s = event Exec_connect s in
      if \<not> x_exec_connects e (trace s) then (False, s)
      else let s = event (Exec_write cmd) s in
           case x_exec_writes e (trace s) of
             None \<Rightarrow> (False, s)
           | Some n \<Rightarrow> (True, event (Exec (take n cmd)) s))"

section \<open>Reading the input\<close>

definition scanf_d :: "int option \<Rightarrow> cvm \<Rightarrow> int option \<times> cvm" where
  "scanf_d v s =
     (case scan_int (input s) of (r, t) \<Rightarrow>
        (case r of None \<Rightarrow> v | Some n \<Rightarrow> Some n, s\<lparr>input := t\<rparr>))"

text \<open>A conversion into a fresh variable.\<close>

definition get_int :: "cvm \<Rightarrow> int act" where
  "get_int s =
     (case scanf_d None s of (Some n, s) \<Rightarrow> Inr (n, s) | (None, s) \<Rightarrow> Inl Uninit)"

definition get_long :: "cvm \<Rightarrow> int act" where
  "get_long s =
     (case scan_num (input s) of (Some n, t) \<Rightarrow> Inr (n, s\<lparr>input := t\<rparr>) | (None, t) \<Rightarrow> Inl Uninit)"

definition get_word :: "nat \<Rightarrow> cvm \<Rightarrow> string act" where
  "get_word n s =
     (case scan_word (input s) of
        (None, t) \<Rightarrow> Inl Uninit
      | (Some w, t) \<Rightarrow> if length w < n then Inr (cstr w, s\<lparr>input := t\<rparr>) else Inl (Overflow w))"

text \<open>A word into the global \<open>name\<close>, which keeps its value at the end of the input.\<close>

definition get_name :: "cvm \<Rightarrow> string act" where
  "get_name s =
     (case scan_word (input s) of
        (None, t) \<Rightarrow> Inr (g_name s, s\<lparr>input := t\<rparr>)
      | (Some w, t) \<Rightarrow>
          if length w < namelen then Inr (cstr w, s\<lparr>input := t, g_name := cstr w\<rparr>)
          else Inl (Overflow w))"

text \<open>The conversions of one \<open>scanf\<close> into variables that may hold values from before: the first
  that does not match stops it (\<open>go\<close> is false from then on).\<close>

definition conv_d :: "bool \<Rightarrow> int option \<Rightarrow> cvm \<Rightarrow> cvm_error + (bool \<times> int option) \<times> cvm" where
  "conv_d go v s =
     (if \<not> go then Inr ((False, v), s)
      else case scan_int (input s) of
             (None, t) \<Rightarrow> Inr ((False, v), s\<lparr>input := t\<rparr>)
           | (Some n, t) \<Rightarrow> Inr ((True, Some n), s\<lparr>input := t\<rparr>))"

definition conv_s :: "nat \<Rightarrow> bool \<Rightarrow> string option \<Rightarrow> cvm \<Rightarrow> cvm_error + (bool \<times> string option) \<times> cvm" where
  "conv_s n go v s =
     (if \<not> go then Inr ((False, v), s)
      else case scan_word (input s) of
             (None, t) \<Rightarrow> Inr ((False, v), s\<lparr>input := t\<rparr>)
           | (Some w, t) \<Rightarrow>
               if length w < n then Inr ((True, Some (cstr w)), s\<lparr>input := t\<rparr>) else Inl (Overflow w))"

definition need :: "'a option \<Rightarrow> cvm_error + 'a" where
  "need v = (case v of None \<Rightarrow> Inl Uninit | Some x \<Rightarrow> Inr x)"

text \<open>The loop \<open>while(true) { scanf("%d", &id); if(id == -1) break; body }\<close>, with the local
  variables \<open>l\<close> the body keeps between its turns.  A turn that reads nothing leaves \<open>id\<close> and
  the locals as they were, and so do all the turns after it; the fuel, one more than the
  characters of input, is enough for every loop that ends.\<close>

fun id_loop :: "nat \<Rightarrow> (int \<Rightarrow> 'l \<Rightarrow> cvm \<Rightarrow> 'l act) \<Rightarrow> int option \<Rightarrow> 'l \<Rightarrow> cvm \<Rightarrow> 'l act" where
  "id_loop 0 body v l s = Inl Hangs"
| "id_loop (Suc n) body v l s =
     (case scanf_d v s of (v, s) \<Rightarrow>
        case v of
          None \<Rightarrow> Inl Uninit
        | Some vid \<Rightarrow>
            if vid = - 1 then Inr (l, s)
            else andthen (body vid l s) (\<lambda>(l, s). id_loop n body v l s))"

definition loop_ids :: "(int \<Rightarrow> 'l \<Rightarrow> cvm \<Rightarrow> 'l act) \<Rightarrow> 'l \<Rightarrow> cvm \<Rightarrow> 'l act" where
  "loop_ids body l s = id_loop (Suc (length (input s))) body None l s"

definition for_ids :: "(int \<Rightarrow> cvm \<Rightarrow> cvm_error + cvm) \<Rightarrow> cvm \<Rightarrow> cvm_error + cvm" where
  "for_ids body s =
     andthen (loop_ids (\<lambda>vid _ s. andthen (body vid s) (\<lambda>s. Inr ((), s))) () s) (\<lambda>(_, s). Inr s)"

text \<open>A command formatted, logged and run.\<close>

definition log_system :: "ext \<Rightarrow> string list \<Rightarrow> cvm \<Rightarrow> cvm_error + cvm" where
  "log_system e parts s =
     andthen (sprintf cmdlen parts s) (\<lambda>(cmd, s).
     andthen (xmlog e cmd s) (\<lambda>s. Inr (systm cmd s)))"

section \<open>Progress of a transfer\<close>

definition total_size :: string where "total_size = ''total size is''"

text \<open>The space at or before \<open>p\<close>, and \<open>sscanf(p, "%d", &r)\<close>.\<close>

definition space_before :: "string \<Rightarrow> nat \<Rightarrow> cvm_error + nat" where
  "space_before r p =
     (case last_at r (CHR '' '') p of None \<Rightarrow> Inl (Crash r) | Some q \<Rightarrow> Inr q)"

definition sscanf_d :: "int option \<Rightarrow> string \<Rightarrow> cvm_error + int" where
  "sscanf_d v t =
     (case (fst (scan_int t), v) of
        (Some n, _) \<Rightarrow> Inr n | (None, Some n) \<Rightarrow> Inr n | (None, None) \<Rightarrow> Inl Uninit)"

definition rate0 :: "string \<Rightarrow> nat \<Rightarrow> cvm \<Rightarrow> int act" where
  "rate0 r p s =
     andthen (space_before r p) (\<lambda>q.
     andthen (sscanf_d None (drop q r)) (\<lambda>n. Inr (n, s)))"

definition rate1 :: "string \<Rightarrow> nat \<Rightarrow> cvm \<Rightarrow> int act" where
  "rate1 r p s =
     (if p < 2 then Inl (Crash r)
      else
      andthen (space_before r (p - 2)) (\<lambda>q.
      andthen (sscanf_d None (drop q r)) (\<lambda>n.
      if n \<noteq> 100 then Inr (n, s)
      else let r = take q r; s = s\<lparr>g_result := r\<rparr> in
        case strrchr r (CHR ''%'') of
          None \<Rightarrow> Inr (99, s)
        | Some p \<Rightarrow>
            if p < 2 then Inl (Crash r)
            else
            andthen (space_before r (p - 2)) (\<lambda>q.
            andthen (sscanf_d (Some n) (drop q r)) (\<lambda>n.
            Inr (if n = 100 then 100 else 99, s))))))"

definition rate :: "ext \<Rightarrow> int \<Rightarrow> nat \<Rightarrow> cvm \<Rightarrow> int act" where
  "rate e t type s =
     andthen (sprintf filelen [logdir, ''/'', dec_int t] s) (\<lambda>(file, s).
     andthen (readfile e file s) (\<lambda>(text, s).
     if length text + 1 \<ge> resultlen then Inl (Overflow text) else
     let r = cstr (text @ [CHR 0xFF]); s = s\<lparr>g_result := r\<rparr> in
     if strstr r total_size \<noteq> None then Inr (100, s)
     else case strrchr r (CHR ''%'') of
       None \<Rightarrow> Inr (0, s)
     | Some p \<Rightarrow> if type = 0 then rate0 r p s else rate1 r p s))"

text \<open>The number after the first word of a line of \<open>ps\<close>.\<close>

definition second_number :: "string \<Rightarrow> cvm_error + int" where
  "second_number r =
     (case scan_word r of
        (None, _) \<Rightarrow> Inl Uninit
      | (Some w, t) \<Rightarrow> (case scan_int t of (None, _) \<Rightarrow> Inl Uninit | (Some n, _) \<Rightarrow> Inr n))"

definition getpid :: "ext \<Rightarrow> string \<Rightarrow> cvm \<Rightarrow> int act" where
  "getpid e arg s =
     andthen (sprintf cmdlen [''ps -ef | grep \"'', arg, ''\" | grep -v grep''] s) (\<lambda>(cmd, s).
     andthen (to_result (getresult e cmd True s)) (\<lambda>s.
     if g_result s = [] then Inr (0, s)
     else andthen (second_number (g_result s)) (\<lambda>n. Inr (n, s))))"

definition killpid :: "ext \<Rightarrow> int \<Rightarrow> cvm \<Rightarrow> cvm_error + cvm" where
  "killpid e pid s =
     andthen (sprintf cmdlen [''kill -9 '', dec_int pid, '' > /dev/null 2>&1''] s) (\<lambda>(cmd, s).
     xmlog e cmd (systm cmd s))"

text \<open>\<open>viewMode\<close>: the loop over the lines of the token file.  At the end of the file
  \<open>fgets\<close> leaves the line before in its buffer.\<close>

function view_loop :: "string \<Rightarrow> string \<Rightarrow> string option \<Rightarrow> cvm_error + bool" where
  "view_loop tmp rest buf =
     (if rest = [] then
        (case buf of None \<Rightarrow> Inl Uninit | Some b \<Rightarrow> Inr (strstr (cstr b) tmp \<noteq> None))
      else case fgets_chunk 1023 rest of (l, rest') \<Rightarrow>
        if strstr (cstr l) tmp \<noteq> None then Inr True
        else if rest' = [] \<and> last l \<noteq> NL \<and> length l < 1023 then Inr False
        else view_loop tmp rest' (Some l))"
  by pat_completeness auto

lemma fgets_chunk_length: "fgets_chunk n s = (l, r) \<Longrightarrow> length l + length r = length s"
  by (induction n s arbitrary: l r rule: fgets_chunk.induct) (auto split: if_splits prod.splits)

lemma fgets_chunk_Nil: "fgets_chunk (Suc n) s = (l, r) \<Longrightarrow> s \<noteq> [] \<Longrightarrow> l \<noteq> []"
  by (cases s) (auto split: if_splits prod.splits)

lemma view_progress: "(l, r) = fgets_chunk 1023 s \<Longrightarrow> s \<noteq> [] \<Longrightarrow> length r < length s"
  using fgets_chunk_length [of 1023 s l r] fgets_chunk_Nil [of 1022 s l r] by (cases l) auto

termination view_loop
  by (relation "measure (\<lambda>(tmp, rest, buf). length rest)") (auto dest: view_progress)

definition viewMode :: "ext \<Rightarrow> int \<Rightarrow> cvm \<Rightarrow> bool act" where
  "viewMode e vid s =
     andthen (sprintf 10 [''VM'', dec_int vid, '':''] s) (\<lambda>(tmp, s).
     andthen (readfile e vnctoken s) (\<lambda>(text, s).
     andthen (view_loop tmp text None) (\<lambda>b. Inr (b, s))))"

section \<open>Machines\<close>

text \<open>\<open>vmadd\<close> calls itself once, with type 1, when its type is 2.\<close>

definition vmadd1 :: "ext \<Rightarrow> int \<Rightarrow> int \<Rightarrow> cvm \<Rightarrow> cvm_error + cvm" where
  "vmadd1 e arg vid s =
     log_system e [''qemu-img create -f qcow2 -o backing_file='', vmdir, ''/BACK'', dec_int arg, '' '',
                 vmdir, ''/VM'', dec_int vid, '' > /dev/null 2>&1''] s"

definition vm_exists :: "ext \<Rightarrow> int \<Rightarrow> cvm \<Rightarrow> bool act" where
  "vm_exists e vid s =
     andthen (sprintf filelen [vmdir, ''/VM'', dec_int vid] s) (\<lambda>(file, s).
     Inr (fileExist e file s))"

definition vmadd :: "ext \<Rightarrow> int \<Rightarrow> int \<Rightarrow> int \<Rightarrow> cvm \<Rightarrow> bool act" where
  "vmadd e type arg vid s =
     andthen (if type = 1 then vmadd1 e arg vid s
              else if type = 2 then
                andthen (log_system e [''qemu-img create -f qcow2  '', vmdir, ''/BACK'', dec_int vid, '' '',
                                     dec_int arg, ''G > /dev/null 2>&1''] s) (\<lambda>s.
                andthen (vmadd1 e vid vid s) (\<lambda>s.
                andthen (vm_exists e vid s) (\<lambda>(b, s). Inr s)))
              else Inr s) (\<lambda>s.
     vm_exists e vid s)"

text \<open>The file tested at the end is the \<open>BACK\<close> image, the last one \<open>file\<close> named.\<close>

definition vmdel :: "ext \<Rightarrow> int \<Rightarrow> cvm \<Rightarrow> bool act" where
  "vmdel e vid s =
     andthen (sprintf filelen [vmdir, ''/VM'', dec_int vid] s) (\<lambda>(file, s).
     andthen (log_system e [''rm -f '', file, '' > /dev/null 2>&1''] s) (\<lambda>s.
     andthen (sprintf filelen [vmdir, ''/BACK'', dec_int vid] s) (\<lambda>(file, s).
     andthen (log_system e [''rm -f '', file, '' > /dev/null 2>&1''] s) (\<lambda>s.
     andthen (log_system e [''sed -i '', [CHR 0x27], ''/VM'', dec_int vid, '':/d'', [CHR 0x27], '' '', vnctoken] s) (\<lambda>s.
     case fileExist e file s of (b, s) \<Rightarrow> Inr (\<not> b, s))))))"

definition vmison :: "ext \<Rightarrow> int \<Rightarrow> cvm \<Rightarrow> bool act" where
  "vmison e vid s =
     andthen (sprintf cmdlen [''ps -ef | grep \"qemu-kvm -name VM'', dec_int vid,
                              '' \" | grep -v grep | wc -l''] s) (\<lambda>(cmd, s).
     andthen (to_result (getresult e cmd False s)) (\<lambda>s.
     case scan_int (g_result s) of
       (None, _) \<Rightarrow> Inl Uninit
     | (Some rs, _) \<Rightarrow> Inr (rs = 1, s)))"

definition vmstatus :: "ext \<Rightarrow> int \<Rightarrow> cvm \<Rightarrow> int act" where
  "vmstatus e vid s = andthen (vmison e vid s) (\<lambda>(b, s). Inr (if b then 0 else 1, s))"

text \<open>The sockets of a machine on the command line of \<open>qemu-kvm\<close>.\<close>

definition sockets :: "int \<Rightarrow> string list" where
  "sockets vid =
     ['' -chardev socket,id=CL'', dec_int vid, '',path='', cldir, ''/CL'', dec_int vid,
      '',server,nowait -monitor chardev:CL'', dec_int vid, '' -chardev socket,id=QM'', dec_int vid,
      '',path='', qmdir, ''/QM'', dec_int vid, '',server,nowait -qmp chardev:QM'', dec_int vid]"

definition vmon :: "ext \<Rightarrow> int \<Rightarrow> int \<Rightarrow> string \<Rightarrow> int \<Rightarrow> string \<Rightarrow> cvm \<Rightarrow> bool act" where
  "vmon e vid cpu cpu_type mem mac s =
     andthen (vmison e vid s) (\<lambda>(on, s).
     if on then Inr (True, s)
     else
     andthen (sprintf filelen [vmdir, ''/VM'', dec_int vid] s) (\<lambda>(file, s).
     andthen (sprintf cmdlen
       ([''qemu-kvm -name VM'', dec_int vid, '' -smp '', dec_int cpu, '',maxcpus=240 -cpu '', cpu_type,
         '' -m '', dec_int mem, '' -rtc base=localtime -drive file='', file,
         '',if=virtio,media=disk,index=0 -vnc :'', dec_int (to_int32 (vid + 100)), '' -net nic,macaddr='', mac,
         '',model=virtio -net tap,script='', ifup, '',downscript='', ifdown, '',ifname=VM'', dec_int vid,
         '' -usb -usbdevice tablet -enable-kvm''] @ sockets vid @ ['' > /dev/null 2>&1 &'']) s) (\<lambda>(cmd, s).
     andthen (xmlog e cmd s) (\<lambda>s.
     let s = usleep 100000 (snd (exec e cmd s)) in
     andthen (vmison e vid s) (\<lambda>(on, s).
     if \<not> on then Inr (False, s)
     else
     andthen (monitor e vid ''loadvm init'' s) (\<lambda>(_, s).
     andthen (monitor e vid ''c'' s) (\<lambda>(_, s).
     andthen (viewMode e vid s) (\<lambda>(v, s).
     if v then andthen (monitor e vid ''change vnc password cac028'' s) (\<lambda>(_, s). Inr (True, s))
     else Inr (True, s)))))))))"

definition vmoff :: "ext \<Rightarrow> int \<Rightarrow> cvm \<Rightarrow> bool act" where
  "vmoff e vid s =
     andthen (vmison e vid s) (\<lambda>(on, s).
     if \<not> on then Inr (True, s) else monitor e vid ''system_powerdown'' s)"

definition vmhalt :: "ext \<Rightarrow> int \<Rightarrow> cvm \<Rightarrow> bool act" where
  "vmhalt e vid s =
     andthen (vmison e vid s) (\<lambda>(on, s).
     if \<not> on then Inr (True, s)
     else
     andthen (sprintf cmdlen [''ps -ef | grep \"qemu-kvm -name VM'', dec_int vid, '' \" | grep -v grep''] s) (\<lambda>(cmd, s).
     andthen (to_result (getresult e cmd True s)) (\<lambda>s.
     if g_result s = [] then Inr (True, s)
     else
     andthen (second_number (g_result s)) (\<lambda>rs.
     andthen (log_system e [''kill -9 '', dec_int rs, '' > /dev/null 2>&1''] s) (\<lambda>s.
     let s = usleep 100000 s in
     andthen (vmison e vid s) (\<lambda>(on, s). Inr (\<not> on, s)))))))"

definition vmreset :: "ext \<Rightarrow> int \<Rightarrow> cvm \<Rightarrow> bool act" where
  "vmreset e vid s = monitor e vid ''system_reset'' s"

definition vmstop :: "ext \<Rightarrow> int \<Rightarrow> cvm \<Rightarrow> bool act" where
  "vmstop e vid s = monitor e vid ''stop'' s"

definition vmcontinue :: "ext \<Rightarrow> int \<Rightarrow> cvm \<Rightarrow> bool act" where
  "vmcontinue e vid s = monitor e vid ''c'' s"

definition oson :: "ext \<Rightarrow> int \<Rightarrow> int \<Rightarrow> string \<Rightarrow> int \<Rightarrow> string \<Rightarrow> string \<Rightarrow> cvm \<Rightarrow> bool act" where
  "oson e vid cpu cpu_type mem mac os_iso s =
     andthen (vmison e vid s) (\<lambda>(on, s).
     if on then Inr (False, s)
     else
     andthen (sprintf filelen [vmdir, ''/BACK'', dec_int vid] s) (\<lambda>(file, s).
     andthen (sprintf cmdlen
       ([''qemu-kvm -name VM'', dec_int vid, '' -smp '', dec_int cpu, '',maxcpus=240 -cpu '', cpu_type,
         '' -m '', dec_int mem, '' -drive file='', file, '',if=ide,media=disk,index=0 -drive file='', fake,
         '',if=virtio,media=disk,index=1 -drive file='', virtio, '',if=ide,media=cdrom -cdrom '', isodir,
         ''/'', os_iso, '' -vnc :'', dec_int (to_int32 (vid + 100)),
         '' -enable-kvm -boot once=d -usbdevice tablet -net nic,macaddr='', mac,
         '',model=virtio -net tap,script=/var/cos/cvm/qemu-ifup,downscript=/var/cos/cvm/qemu-ifdown,ifname=VM'',
         dec_int vid] @ sockets vid @ ['' > /dev/null 2>&1 &'']) s) (\<lambda>(cmd, s).
     andthen (xmlog e cmd s) (\<lambda>s.
     let s = usleep 100000 (snd (exec e cmd s)) in
     vmison e vid s))))"

text \<open>The search of \<open>os_same\<close> for a line equal to the name: \<open>base\<close> is the whole text and
  \<open>p\<close> where the next search starts.  A hit inside a line moves \<open>p\<close> to that line's newline.\<close>

lemma strchr_less: "strchr b c = Some j \<Longrightarrow> j < length b"
  by (auto simp: strchr_def Let_def cstr_def split: if_splits
      intro: less_le_trans [OF _ length_takeWhile_le])

function same_loop :: "string \<Rightarrow> string \<Rightarrow> nat \<Rightarrow> cvm_error + bool" where
  "same_loop base t p =
     (case strstr (drop p base) t of
        None \<Rightarrow> Inr True
      | Some i \<Rightarrow>
          let p1 = p + i in
          if p1 = 0 then Inr False
          else if base ! (p1 - 1) = NL then Inr False
          else case strchr (drop p1 base) NL of
                 None \<Rightarrow> Inl (Crash base)
               | Some j \<Rightarrow> if p1 + j = p then Inl Hangs else same_loop base t (p1 + j))"
  by pat_completeness auto

termination same_loop
  by (relation "measure (\<lambda>(base, t, p). length base - p)") (auto dest: strchr_less)

definition os_same :: "ext \<Rightarrow> string \<Rightarrow> string \<Rightarrow> cvm \<Rightarrow> bool act" where
  "os_same e nm ip s =
     andthen (sprintf 1024 [nm, [NL]] s) (\<lambda>(temp_name, s).
     andthen (sprintf cmdlen [''ssh root@'', ip, '' ls '', datasysdir] s) (\<lambda>(cmd, s).
     andthen (to_result (getresult e cmd True s)) (\<lambda>s.
     if g_result s = [] then Inr (True, s)
     else andthen (same_loop (g_result s) temp_name 0) (\<lambda>b. Inr (b, s)))))"

section \<open>Handlers\<close>

text \<open>The loop that prints the first word of every line of \<open>p\<close>: \<open>sscanf(p, "%s", name)\<close>
  leaves \<open>name\<close> alone when nothing matches, and a last line without a newline sends \<open>p\<close>
  through a null pointer.\<close>

function print_words :: "(string \<Rightarrow> string option) \<Rightarrow> string \<Rightarrow> cvm \<Rightarrow> cvm_error + cvm" where
  "print_words conv p s =
     (if p = [] then Inr s
      else
      case conv p of
        Some w \<Rightarrow>
          if length w \<ge> namelen then Inl (Overflow w)
          else (case strchr p NL of
                  None \<Rightarrow> Inl (Crash p)
                | Some i \<Rightarrow> print_words conv (drop (Suc i) p) (println w (s\<lparr>g_name := w\<rparr>)))
      | None \<Rightarrow>
          (case strchr p NL of
             None \<Rightarrow> Inl (Crash p)
           | Some i \<Rightarrow> print_words conv (drop (Suc i) p) (println (g_name s) s)))"
  by pat_completeness auto

termination print_words
  by (relation "measure (\<lambda>(conv, p, s). length p)") (auto dest: strchr_less)

definition word_at :: "string \<Rightarrow> string option" where
  "word_at p = fst (scan_word p)"

text \<open>\<open>sscanf(p, "%*d%s", name)\<close>.\<close>

definition word_after_number :: "string \<Rightarrow> string option" where
  "word_after_number p =
     (case scan_int p of (None, _) \<Rightarrow> None | (Some n, t) \<Rightarrow> fst (scan_word t))"

text \<open>The listings: the output of a command, one word per line, then \<open>-1\<close>.\<close>

definition list_command :: "ext \<Rightarrow> string list \<Rightarrow> cvm \<Rightarrow> cvm_error + cvm" where
  "list_command e parts s =
     andthen (sprintf cmdlen parts s) (\<lambda>(cmd, s).
     andthen (to_result (getresult e cmd True s)) (\<lambda>s.
     if g_result s = [] then Inr (println ''-1'' s)
     else andthen (print_words word_at (g_result s) s) (\<lambda>s. Inr (println ''-1'' s))))"

text \<open>\<open>if(op(id)) printf("ok\n"); else printf("error\n");\<close>\<close>

definition answer :: "bool act \<Rightarrow> cvm_error + cvm" where
  "answer r = andthen r (\<lambda>(b, s). Inr (ok_error b s))"

definition with_id :: "(int \<Rightarrow> cvm \<Rightarrow> cvm_error + cvm) \<Rightarrow> cvm \<Rightarrow> cvm_error + cvm" where
  "with_id f s = andthen (get_int s) (\<lambda>(vid, s). f vid s)"

definition addvm :: "ext \<Rightarrow> cvm \<Rightarrow> cvm_error + cvm" where
  "addvm e s =
     andthen (get_int s) (\<lambda>(type, s).
     andthen (get_int s) (\<lambda>(arg, s).
     for_ids (\<lambda>vid s. answer (vmadd e type arg vid s)) s))"

definition delvm :: "ext \<Rightarrow> cvm \<Rightarrow> cvm_error + cvm" where
  "delvm e s = for_ids (\<lambda>vid s. answer (vmdel e vid s)) s"

definition status_word :: "int \<Rightarrow> string" where
  "status_word r = (if r = 0 then ''on'' else if r = 1 then ''off'' else if r = 2 then ''stop'' else ''unknown'')"

definition print_status :: "ext \<Rightarrow> int \<Rightarrow> cvm \<Rightarrow> cvm_error + cvm" where
  "print_status e vid s = andthen (vmstatus e vid s) (\<lambda>(r, s). Inr (println (status_word r) s))"

definition ppower_status :: "ext \<Rightarrow> cvm \<Rightarrow> cvm_error + cvm" where
  "ppower_status e s = for_ids (print_status e) s"

text \<open>\<open>scanf("%d %s %d %s", &cpu, cpu_type, &mem, mac)\<close> and the start of the machine; the
  four variables outlive a turn of the loop.\<close>

definition turn_on ::
  "ext \<Rightarrow> int \<Rightarrow> int option \<times> string option \<times> int option \<times> string option \<Rightarrow> cvm
     \<Rightarrow> (int option \<times> string option \<times> int option \<times> string option) act" where
  "turn_on e vid l s =
     (case l of (cpu, cpu_type, mem, mac) \<Rightarrow>
      andthen (conv_d True cpu s) (\<lambda>((go, cpu), s).
      andthen (conv_s 512 go cpu_type s) (\<lambda>((go, cpu_type), s).
      andthen (conv_d go mem s) (\<lambda>((go, mem), s).
      andthen (conv_s 1024 go mac s) (\<lambda>((go, mac), s).
      andthen (need cpu) (\<lambda>c. andthen (need cpu_type) (\<lambda>ct. andthen (need mem) (\<lambda>m. andthen (need mac) (\<lambda>mc.
      andthen (vmon e vid c ct m mc s) (\<lambda>(b, s).
      Inr ((cpu, cpu_type, mem, mac), ok_error b s)))))))))))"

definition ppower_on :: "ext \<Rightarrow> cvm \<Rightarrow> cvm_error + cvm" where
  "ppower_on e s = andthen (loop_ids (turn_on e) (None, None, None, None) s) (\<lambda>(l, s). Inr s)"

definition ppower_off :: "ext \<Rightarrow> cvm \<Rightarrow> cvm_error + cvm" where
  "ppower_off e s = for_ids (\<lambda>vid s. answer (vmoff e vid s)) s"

definition ppower_halt :: "ext \<Rightarrow> cvm \<Rightarrow> cvm_error + cvm" where
  "ppower_halt e s = for_ids (\<lambda>vid s. answer (vmhalt e vid s)) s"

definition ppower_reset :: "ext \<Rightarrow> cvm \<Rightarrow> cvm_error + cvm" where
  "ppower_reset e s = for_ids (\<lambda>vid s. answer (vmreset e vid s)) s"

definition ppower_stop :: "ext \<Rightarrow> cvm \<Rightarrow> cvm_error + cvm" where
  "ppower_stop e s = for_ids (\<lambda>vid s. answer (vmstop e vid s)) s"

definition ppower_continue :: "ext \<Rightarrow> cvm \<Rightarrow> cvm_error + cvm" where
  "ppower_continue e s = for_ids (\<lambda>vid s. answer (vmcontinue e vid s)) s"

definition power_status :: "ext \<Rightarrow> cvm \<Rightarrow> cvm_error + cvm" where
  "power_status e s = with_id (print_status e) s"

definition power_on :: "ext \<Rightarrow> cvm \<Rightarrow> cvm_error + cvm" where
  "power_on e s =
     with_id (\<lambda>vid s. andthen (turn_on e vid (None, None, None, None) s) (\<lambda>(l, s). Inr s)) s"

definition power_off :: "ext \<Rightarrow> cvm \<Rightarrow> cvm_error + cvm" where
  "power_off e s = with_id (\<lambda>vid s. answer (vmoff e vid s)) s"

definition power_halt :: "ext \<Rightarrow> cvm \<Rightarrow> cvm_error + cvm" where
  "power_halt e s = with_id (\<lambda>vid s. answer (vmhalt e vid s)) s"

definition power_reset :: "ext \<Rightarrow> cvm \<Rightarrow> cvm_error + cvm" where
  "power_reset e s = with_id (\<lambda>vid s. answer (vmreset e vid s)) s"

definition power_stop :: "ext \<Rightarrow> cvm \<Rightarrow> cvm_error + cvm" where
  "power_stop e s = with_id (\<lambda>vid s. answer (vmstop e vid s)) s"

definition power_continue :: "ext \<Rightarrow> cvm \<Rightarrow> cvm_error + cvm" where
  "power_continue e s = with_id (\<lambda>vid s. answer (vmcontinue e vid s)) s"

definition power_commit :: "ext \<Rightarrow> cvm \<Rightarrow> cvm_error + cvm" where
  "power_commit e s =
     with_id (\<lambda>vid s.
       andthen (log_system e [''qemu-img commit -f qcow2 '', vmdir, ''/VM'', dec_int vid,
                            '' > /dev/null 2>&1''] s) (\<lambda>s.
       Inr (println ''ok'' s))) s"

definition power_drop :: "ext \<Rightarrow> cvm \<Rightarrow> cvm_error + cvm" where
  "power_drop e s =
     with_id (\<lambda>vid s. andthen (vmadd e 1 vid vid s) (\<lambda>(b, s). Inr (println ''ok'' s))) s"

definition power_rebuild :: "ext \<Rightarrow> cvm \<Rightarrow> cvm_error + cvm" where
  "power_rebuild e s =
     andthen (get_int s) (\<lambda>(base, s).
     andthen (for_ids (\<lambda>vid s. andthen (vmadd e 1 base vid s) (\<lambda>(b, s). Inr s)) s) (\<lambda>s.
     Inr (println ''ok'' s)))"

definition power_compare :: "ext \<Rightarrow> cvm \<Rightarrow> cvm_error + cvm" where
  "power_compare e s =
     with_id (\<lambda>vid s.
       andthen (sprintf filelen [vmdir, ''/VM'', dec_int vid] s) (\<lambda>(file, s).
       case fileSize e file s of (ret, s) \<Rightarrow> Inr (ok_error (ret < 1000000) s))) s"

text \<open>\<open>snapshot_list\<close> skips two lines, each with \<open>p = strchr(p, 10); ++p;\<close>.\<close>

definition next_line :: "string \<Rightarrow> cvm_error + string" where
  "next_line p = (case strchr p NL of None \<Rightarrow> Inl (Crash p) | Some i \<Rightarrow> Inr (drop (Suc i) p))"

definition snapshot_list :: "ext \<Rightarrow> cvm \<Rightarrow> cvm_error + cvm" where
  "snapshot_list e s =
     with_id (\<lambda>vid s.
       andthen (sprintf cmdlen [''qemu-img snapshot -l '', vmdir, ''/VM'', dec_int vid] s) (\<lambda>(cmd, s).
       andthen (xmlog e cmd s) (\<lambda>s.
       andthen (to_result (getresult e cmd True s)) (\<lambda>s.
       if g_result s = [] then Inr (println ''-1'' s)
       else
       andthen (next_line (g_result s)) (\<lambda>p.
       andthen (next_line p) (\<lambda>p.
       andthen (print_words word_after_number p s) (\<lambda>s. Inr (println ''-1'' s)))))))) s"

text \<open>\<open>scanf("%d %s", &id, name)\<close> and a monitor command that ends in the name.\<close>

definition name_monitor :: "ext \<Rightarrow> (string \<Rightarrow> string list) \<Rightarrow> cvm \<Rightarrow> cvm_error + cvm" where
  "name_monitor e parts s =
     with_id (\<lambda>vid s.
       andthen (get_name s) (\<lambda>(nm, s).
       andthen (sprintf cmdlen (parts nm) s) (\<lambda>(cmd, s).
       answer (monitor e vid cmd s)))) s"

definition snapshot_create :: "ext \<Rightarrow> cvm \<Rightarrow> cvm_error + cvm" where
  "snapshot_create e s = name_monitor e (\<lambda>nm. [''savevm '', nm]) s"

definition snapshot_del :: "ext \<Rightarrow> cvm \<Rightarrow> cvm_error + cvm" where
  "snapshot_del e s = name_monitor e (\<lambda>nm. [''delvm '', nm]) s"

definition snapshot_apply :: "ext \<Rightarrow> cvm \<Rightarrow> cvm_error + cvm" where
  "snapshot_apply e s = name_monitor e (\<lambda>nm. [''loadvm '', nm]) s"

definition cd_list :: "ext \<Rightarrow> cvm \<Rightarrow> cvm_error + cvm" where
  "cd_list e s = list_command e [''ls '', isodir] s"

text \<open>\<open>*p = 0; while(*(p-1) != '/') --p;\<close> prints what is between the last slash before
  \<open>.iso\<close> and it.\<close>

definition cd_mounted :: "ext \<Rightarrow> cvm \<Rightarrow> cvm_error + cvm" where
  "cd_mounted e s =
     with_id (\<lambda>vid s.
       andthen (monitor e vid ''info block'' s) (\<lambda>(_, s).
       let r = g_result s in
       if strstr r ''ide1-cd0: [not inserted]'' \<noteq> None then Inr (println ''null'' s)
       else case strstr r ''.iso'' of
         None \<Rightarrow> Inl (Crash r)
       | Some p \<Rightarrow>
           let r = take p r; s = s\<lparr>g_result := r\<rparr> in
           (case last_at r (CHR ''/'') (p - 1) of
              None \<Rightarrow> Inl (Crash r)
            | Some q \<Rightarrow> Inr (println (drop (Suc q) r) s)))) s"

definition cd_mount :: "ext \<Rightarrow> cvm \<Rightarrow> cvm_error + cvm" where
  "cd_mount e s = name_monitor e (\<lambda>nm. [''change ide1-cd0 '', isodir, ''/'', nm]) s"

definition cd_unmount :: "ext \<Rightarrow> cvm \<Rightarrow> cvm_error + cvm" where
  "cd_unmount e s = with_id (\<lambda>vid s. answer (monitor e vid ''eject -f ide1-cd0'' s)) s"

definition os_list :: "ext \<Rightarrow> cvm \<Rightarrow> cvm_error + cvm" where
  "os_list e s = list_command e [''ls '', sysdir] s"

definition virtual_size :: string where "virtual_size = ''virtual size: ''"

definition os_import :: "ext \<Rightarrow> cvm \<Rightarrow> cvm_error + cvm" where
  "os_import e s =
     andthen (get_name s) (\<lambda>(nm, s).
     andthen (get_int s) (\<lambda>(vid, s).
     case time_now e s of (t, s) \<Rightarrow>
     andthen (sprintf filelen [sysdir, ''/'', nm] s) (\<lambda>(file, s).
     andthen (sprintf cmdlen [''qemu-img info '', file] s) (\<lambda>(cmd, s).
     andthen (to_result (getresult e cmd True s)) (\<lambda>s.
     case strstr (g_result s) virtual_size of
       None \<Rightarrow> Inl (Crash (g_result s))
     | Some p \<Rightarrow>
         andthen (sscanf_d None (drop (p + length virtual_size) (g_result s))) (\<lambda>disk.
         andthen (log_system e [''rsync -avP '', file, '' '', vmdir, ''/BACK'', dec_int vid, '' > '',
                              logdir, ''/'', dec_int t, '' &''] s) (\<lambda>s.
         Inr (println (dec_int t) (println (dec_int disk) s)))))))))"

text \<open>\<open>scanf("%lld", &t); printf("%d\n", rate(t, type));\<close>\<close>

definition query_rate :: "ext \<Rightarrow> nat \<Rightarrow> cvm \<Rightarrow> cvm_error + cvm" where
  "query_rate e type s =
     andthen (get_long s) (\<lambda>(t, s).
     andthen (rate e t type s) (\<lambda>(r, s). Inr (println (dec_int r) s)))"

definition os_query :: "ext \<Rightarrow> cvm \<Rightarrow> cvm_error + cvm" where
  "os_query e s = query_rate e 0 s"

text \<open>The rebuild of \<open>os\<close> and \<open>sync\<close> creates every image twice.\<close>

definition rebuild_twice :: "ext \<Rightarrow> cvm \<Rightarrow> cvm_error + cvm" where
  "rebuild_twice e s =
     andthen (get_int s) (\<lambda>(base, s).
     andthen (for_ids (\<lambda>vid s.
         andthen (vmadd e 1 base vid s) (\<lambda>(b, s).
         andthen (vmadd e 1 base vid (usleep 100000 s)) (\<lambda>(b, s). Inr s))) s) (\<lambda>s.
     Inr (println ''ok'' s)))"

definition os_rebuild :: "ext \<Rightarrow> cvm \<Rightarrow> cvm_error + cvm" where
  "os_rebuild e s = rebuild_twice e s"

text \<open>\<open>rsync\<close> in the background with its progress in a log file named after the time.\<close>

definition rsync :: "ext \<Rightarrow> string list \<Rightarrow> int \<Rightarrow> cvm \<Rightarrow> cvm_error + cvm" where
  "rsync e parts t s = log_system e ([''rsync -avP ''] @ parts @ ['' > '', logdir, ''/'', dec_int t, '' &'']) s"

definition sync_sync :: "ext \<Rightarrow> cvm \<Rightarrow> cvm_error + cvm" where
  "sync_sync e s =
     andthen (get_int s) (\<lambda>(vid, s).
     andthen (get_word 32 s) (\<lambda>(ip, s).
     case time_now e s of (t, s) \<Rightarrow>
     andthen (rsync e [vmdir, ''/BACK'', dec_int vid, '' root@'', ip, '':'', vmdir, ''/BACK'', dec_int vid] t s) (\<lambda>s.
     Inr (println (dec_int t) s))))"

definition sync_query :: "ext \<Rightarrow> cvm \<Rightarrow> cvm_error + cvm" where
  "sync_query e s = query_rate e 0 s"

definition sync_rebuild :: "ext \<Rightarrow> cvm \<Rightarrow> cvm_error + cvm" where
  "sync_rebuild e s = rebuild_twice e s"

definition migrate_send0 :: "ext \<Rightarrow> cvm \<Rightarrow> cvm_error + cvm" where
  "migrate_send0 e s =
     andthen (get_int s) (\<lambda>(vid, s).
     andthen (get_word 32 s) (\<lambda>(ip, s).
     andthen (sprintf cmdlen [''migrate -d -i tcp:'', ip, '':'', dec_int (to_int32 (vid + 8000))] s) (\<lambda>(cmd, s).
     answer (monitor e vid cmd s))))"

definition migrate_recv0 :: "ext \<Rightarrow> cvm \<Rightarrow> cvm_error + cvm" where
  "migrate_recv0 e s =
     andthen (get_int s) (\<lambda>(vid, s).
     andthen (get_int s) (\<lambda>(cpu, s).
     andthen (get_int s) (\<lambda>(mem, s).
     andthen (get_word 1024 s) (\<lambda>(mac, s).
     andthen (get_int s) (\<lambda>(base, s).
     andthen (vmison e vid s) (\<lambda>(on, s).
     andthen (if on then andthen (vmhalt e vid s) (\<lambda>(b, s). Inr s) else Inr s) (\<lambda>s.
     case time_now e s of (t, s) \<Rightarrow>
     andthen (vmadd e 1 base vid s) (\<lambda>(b, s).
     andthen (sprintf filelen [vmdir, ''/VM'', dec_int vid] s) (\<lambda>(file, s).
     andthen (sprintf cmdlen
       ([''qemu-kvm -name VM'', dec_int vid, '' -smp '', dec_int cpu, '',maxcpus=240 -m '', dec_int mem,
         '' -rtc base=localtime -drive file='', file, '',if=virtio,media=disk,index=0 -vnc :'',
         dec_int (to_int32 (vid + 100)), '' -net nic,macaddr='', mac, '',model=virtio -net tap,script='', ifup,
         '',downscript='', ifdown, '',ifname=VM'', dec_int vid, '' -usb -usbdevice tablet -enable-kvm''] @
        sockets vid @
        ['' -incoming tcp:0:'', dec_int (to_int32 (vid + 8000)), '' > '', logdir, ''/'', dec_int t, '' &'']) s)
       (\<lambda>(cmd, s).
     andthen (xmlog e cmd s) (\<lambda>s.
     Inr (println (dec_int t) (snd (exec e cmd s))))))))))))))"

definition migrate_query0 :: "ext \<Rightarrow> cvm \<Rightarrow> cvm_error + cvm" where
  "migrate_query0 e s = query_rate e 1 s"

definition migrate_cancel0 :: "ext \<Rightarrow> cvm \<Rightarrow> cvm_error + cvm" where
  "migrate_cancel0 e s = with_id (\<lambda>vid s. answer (monitor e vid ''migrate_cancel'' s)) s"

definition migrate_send1 :: "ext \<Rightarrow> cvm \<Rightarrow> cvm_error + cvm" where
  "migrate_send1 e s =
     andthen (get_int s) (\<lambda>(vid, s).
     andthen (get_word 32 s) (\<lambda>(ip, s).
     case time_now e s of (t, s) \<Rightarrow>
     andthen (rsync e [vmdir, ''/VM'', dec_int vid, '' root@'', ip, '':'', vmdir, ''/VM'', dec_int vid] t s) (\<lambda>s.
     Inr (println (dec_int t) s))))"

definition migrate_query1 :: "ext \<Rightarrow> cvm \<Rightarrow> cvm_error + cvm" where
  "migrate_query1 e s = query_rate e 0 s"

text \<open>\<open>while(pid = getpid(name)) { killpid(pid); usleep(100000); }\<close> goes on as long as the
  system reports a process; the fuel bounds the rounds that are followed.\<close>

fun cancel_loop :: "ext \<Rightarrow> nat \<Rightarrow> string \<Rightarrow> cvm \<Rightarrow> cvm_error + cvm" where
  "cancel_loop e 0 nm s = Inl Hangs"
| "cancel_loop e (Suc n) nm s =
     andthen (getpid e nm s) (\<lambda>(pid, s).
     if pid = 0 then Inr s
     else andthen (killpid e pid s) (\<lambda>s. cancel_loop e n nm (usleep 100000 s)))"

definition migrate_cancel1 :: "ext \<Rightarrow> nat \<Rightarrow> cvm \<Rightarrow> cvm_error + cvm" where
  "migrate_cancel1 e fuel s =
     andthen (get_int s) (\<lambda>(vid, s).
     andthen (get_word 32 s) (\<lambda>(ip, s).
     andthen (sprintf namelen [''rsync -avP '', vmdir, ''/VM'', dec_int vid, '' root@'', ip, '':'', vmdir,
                               ''/VM'', dec_int vid] s) (\<lambda>(nm, s).
     andthen (cancel_loop e fuel nm (s\<lparr>g_name := nm\<rparr>)) (\<lambda>s.
     Inr (println ''ok'' s)))))"

definition migrate_delete1 :: "ext \<Rightarrow> cvm \<Rightarrow> cvm_error + cvm" where
  "migrate_delete1 e s =
     andthen (get_int s) (\<lambda>(vid, s).
     andthen (get_word 32 s) (\<lambda>(ip, s).
     andthen (log_system e [''ssh root@'', ip, '' rm '', vmdir, ''/VM'', dec_int vid] s) (\<lambda>s.
     Inr (println ''ok'' s))))"

definition sys_list :: "ext \<Rightarrow> cvm \<Rightarrow> cvm_error + cvm" where
  "sys_list e s =
     andthen (get_word 32 s) (\<lambda>(ip, s). list_command e [''ssh root@'', ip, '' ls '', datasysdir] s)"

text \<open>\<open>scanf("%s%s", name, ip)\<close> and a transfer of that file.\<close>

definition pull :: "ext \<Rightarrow> string \<Rightarrow> string \<Rightarrow> cvm \<Rightarrow> cvm_error + cvm" where
  "pull e from to s =
     andthen (get_name s) (\<lambda>(nm, s).
     andthen (get_word 32 s) (\<lambda>(ip, s).
     case time_now e s of (t, s) \<Rightarrow>
     andthen (rsync e [''root@'', ip, '':'', from, ''/'', nm, '' '', to, ''/'', nm] t s) (\<lambda>s.
     Inr (println (dec_int t) s))))"

definition sys_rsync :: "ext \<Rightarrow> cvm \<Rightarrow> cvm_error + cvm" where
  "sys_rsync e s = pull e datasysdir sysdir s"

definition iso_list :: "ext \<Rightarrow> cvm \<Rightarrow> cvm_error + cvm" where
  "iso_list e s =
     andthen (get_word 32 s) (\<lambda>(ip, s). list_command e [''ssh root@'', ip, '' ls '', dataisodir] s)"

definition iso_rsync :: "ext \<Rightarrow> cvm \<Rightarrow> cvm_error + cvm" where
  "iso_rsync e s = pull e dataisodir isodir s"

definition sysiso_query :: "ext \<Rightarrow> cvm \<Rightarrow> cvm_error + cvm" where
  "sysiso_query e s = query_rate e 0 s"

text \<open>Both images of a machine to the backup server, logged under \<open>t\<close> and \<open>t + 1\<close>.\<close>

definition send_backup :: "ext \<Rightarrow> int \<Rightarrow> int \<Rightarrow> string \<Rightarrow> cvm \<Rightarrow> cvm_error + cvm" where
  "send_backup e vmid backid ip s =
     (case time_now e s of (t, s) \<Rightarrow>
      andthen (rsync e [vmdir, ''/BACK'', dec_int vmid, '' root@'', ip, '':'', backupdir, ''/BACK'', dec_int backid] t s) (\<lambda>s.
      andthen (rsync e [vmdir, ''/VM'', dec_int vmid, '' root@'', ip, '':'', backupdir, ''/VM'', dec_int backid] (t + 1) s) (\<lambda>s.
      Inr (println (dec_int t) s))))"

definition backup_backup :: "ext \<Rightarrow> cvm \<Rightarrow> cvm_error + cvm" where
  "backup_backup e s =
     andthen (get_int s) (\<lambda>(vmid, s).
     andthen (get_int s) (\<lambda>(backid, s).
     andthen (get_word 32 s) (\<lambda>(ip, s). send_backup e vmid backid ip s)))"

definition backup_restore :: "ext \<Rightarrow> cvm \<Rightarrow> cvm_error + cvm" where
  "backup_restore e s =
     andthen (get_int s) (\<lambda>(vmid, s).
     andthen (get_int s) (\<lambda>(backid, s).
     andthen (get_word 32 s) (\<lambda>(ip, s).
     case time_now e s of (t, s) \<Rightarrow>
     andthen (rsync e [''root@'', ip, '':'', backupdir, ''/BACK'', dec_int backid, '' '', vmdir, ''/BACK'', dec_int vmid] t s) (\<lambda>s.
     andthen (rsync e [''root@'', ip, '':'', backupdir, ''/VM'', dec_int backid, '' '', vmdir, ''/VM'', dec_int vmid] (t + 1) s) (\<lambda>s.
     Inr (println (dec_int t) s))))))"

text \<open>\<open>rate(t, 0)*0.9 + rate(t+1, 0)*0.1\<close>: the first progress file is read first.\<close>

definition backup_query :: "ext \<Rightarrow> cvm \<Rightarrow> cvm_error + cvm" where
  "backup_query e s =
     andthen (get_long s) (\<lambda>(t, s).
     andthen (rate e t 0 s) (\<lambda>(r1, s).
     andthen (rate e (t + 1) 0 s) (\<lambda>(r2, s).
     Inr (println (dec_int (x_mix e r1 r2)) s))))"

definition rebase :: "ext \<Rightarrow> int \<Rightarrow> cvm \<Rightarrow> cvm_error + cvm" where
  "rebase e vid s =
     log_system e [''qemu-img rebase -f qcow2 -u -b '', vmdir, ''/BACK'', dec_int vid, '' '', vmdir, ''/VM'',
                 dec_int vid, '' > /dev/null 2>&1''] s"

definition backup_rebase :: "ext \<Rightarrow> cvm \<Rightarrow> cvm_error + cvm" where
  "backup_rebase e s = with_id (\<lambda>vid s. andthen (rebase e vid s) (\<lambda>s. Inr (println ''ok'' s))) s"

definition alter_alter :: "ext \<Rightarrow> cvm \<Rightarrow> cvm_error + cvm" where
  "alter_alter e s =
     andthen (get_int s) (\<lambda>(vid, s).
     andthen (get_int s) (\<lambda>(baseid, s).
     andthen (rebase e vid s) (\<lambda>s.
     case time_now e s of (t, s) \<Rightarrow>
     andthen (rsync e [vmdir, ''/BACK'', dec_int baseid, '' '', vmdir, ''/BACK'', dec_int vid] t s) (\<lambda>s.
     Inr (println (dec_int t) s)))))"

definition alter_query :: "ext \<Rightarrow> cvm \<Rightarrow> cvm_error + cvm" where
  "alter_query e s = query_rate e 0 s"

definition alter_rebase :: "ext \<Rightarrow> cvm \<Rightarrow> cvm_error + cvm" where
  "alter_rebase e s = with_id (\<lambda>vid s. andthen (rebase e vid s) (\<lambda>s. Inr (println ''ok'' s))) s"

text \<open>The loop of \<open>online\<close>: for a line that starts with \<open>VM\<close>, the number after it (or, if
  there is none, the number of the line before) and whether that machine is on.\<close>

function online_loop :: "ext \<Rightarrow> string \<Rightarrow> int option \<Rightarrow> cvm \<Rightarrow> cvm_error + cvm" where
  "online_loop e p v s =
     (if p = [] then Inr s
      else if starts_with p ''VM'' then
        andthen (sscanf_d v (drop 2 p)) (\<lambda>vid.
        andthen (vmison e vid s) (\<lambda>(on, s).
        let s = println (if on then ''1'' else ''0'') (println (dec_int vid) s) in
        case strchr p NL of
          None \<Rightarrow> Inl (Crash p)
        | Some i \<Rightarrow> online_loop e (drop (Suc i) p) (Some vid) s))
      else
        case strchr p NL of
          None \<Rightarrow> Inl (Crash p)
        | Some i \<Rightarrow> online_loop e (drop (Suc i) p) v s)"
  by pat_completeness auto

termination online_loop
  by (relation "measure (\<lambda>(e, p, v, s). length p)") (auto dest: strchr_less)

definition online :: "ext \<Rightarrow> cvm \<Rightarrow> cvm_error + cvm" where
  "online e s =
     andthen (sprintf cmdlen [''ls '', vmdir, '' | grep VM''] s) (\<lambda>(cmd, s).
     andthen (getresult e cmd False s) (\<lambda>(r, s).
     let s = s\<lparr>g_result2 := r\<rparr> in
     if r = [] then Inr (println ''-1'' s)
     else andthen (online_loop e r None s) (\<lambda>s. Inr (println ''-1'' s))))"

definition disk_list :: "ext \<Rightarrow> cvm \<Rightarrow> cvm_error + cvm" where
  "disk_list e s = list_command e [''ls '', diskdir] s"

text \<open>The format of the file name ends in a lone \<open>%\<close>, which writes nothing.\<close>

definition disk_create :: "ext \<Rightarrow> cvm \<Rightarrow> cvm_error + cvm" where
  "disk_create e s =
     andthen (get_name s) (\<lambda>(nm, s).
     andthen (get_int s) (\<lambda>(size, s).
     andthen (sprintf filelen [diskdir, ''/'', nm] s) (\<lambda>(file, s).
     andthen (log_system e [''qemu-img create -f qcow2  '', file, '' '', dec_int size, ''G > /dev/null 2>&1''] s) (\<lambda>s.
     answer (Inr (fileExist e file s))))))"

text \<open>A drive and a device for it.  A failure of the first is reported, and the second is
  tried all the same.\<close>

definition add_drive :: "ext \<Rightarrow> int \<Rightarrow> string \<Rightarrow> string \<Rightarrow> cvm \<Rightarrow> cvm_error + cvm" where
  "add_drive e vid file dev s =
     andthen (sprintf cmdlen [''drive_add 0 if=none,file='', file, '',format=qcow2,id='', dev] s) (\<lambda>(cmd, s).
     andthen (monitor e vid cmd s) (\<lambda>(b, s).
     let s = (if b then s else println ''error'' s) in
     andthen (sprintf cmdlen [''device_add virtio-blk-pci,drive='', dev, '',id='', dev] s) (\<lambda>(cmd, s).
     answer (monitor e vid cmd s))))"

definition disk_mount :: "ext \<Rightarrow> cvm \<Rightarrow> cvm_error + cvm" where
  "disk_mount e s =
     andthen (get_name s) (\<lambda>(nm, s).
     andthen (get_int s) (\<lambda>(vid, s).
     andthen (sprintf filelen [diskdir, ''/'', nm] s) (\<lambda>(file, s). add_drive e vid file nm s)))"

definition disk_umount :: "ext \<Rightarrow> cvm \<Rightarrow> cvm_error + cvm" where
  "disk_umount e s =
     andthen (get_name s) (\<lambda>(nm, s).
     andthen (get_int s) (\<lambda>(vid, s).
     andthen (sprintf cmdlen [''device_del '', nm] s) (\<lambda>(cmd, s).
     answer (monitor e vid cmd s))))"

definition brctl_addbr :: "ext \<Rightarrow> cvm \<Rightarrow> cvm_error + cvm" where
  "brctl_addbr e s =
     andthen (get_int s) (\<lambda>(type, s).
     andthen (get_int s) (\<lambda>(tag, s).
     andthen (get_word 32 s) (\<lambda>(br, s).
     andthen (get_word 32 s) (\<lambda>(eth, s).
     andthen (get_word 32 s) (\<lambda>(ip, s).
     andthen (get_word 32 s) (\<lambda>(netmask, s).
     andthen (get_word 32 s) (\<lambda>(gateway, s).
     andthen (get_word 32 s) (\<lambda>(network, s).
     andthen (log_system e [dir, ''/addbr.sh '', dec_int type, '' '', dec_int tag, '' '', br, '' '', eth, '' '', ip, '' '',
                          netmask, '' '', gateway, '' '', network, '' > /dev/null 2>&1''] s) (\<lambda>s.
     Inr (println ''ok'' s))))))))))"

definition brctl_addif :: "ext \<Rightarrow> cvm \<Rightarrow> cvm_error + cvm" where
  "brctl_addif e s =
     andthen (loop_ids (\<lambda>vid (type, pre_br, cur_br) s.
       andthen (conv_d True type s) (\<lambda>((go, type), s).
       andthen (conv_s 32 go pre_br s) (\<lambda>((go, pre_br), s).
       andthen (conv_s 32 go cur_br s) (\<lambda>((go, cur_br), s).
       andthen (need type) (\<lambda>ty. andthen (need pre_br) (\<lambda>pb. andthen (need cur_br) (\<lambda>cb.
       andthen (log_system e [dir, ''/addif.sh '', dec_int vid, '' '', dec_int ty, '' '', pb, '' '', cb,
                            '' > /dev/null 2>&1''] s) (\<lambda>s.
       Inr ((type, pre_br, cur_br), println ''ok'' s))))))))) (None, None, None) s) (\<lambda>(l, s). Inr s)"

definition brctl_delbr :: "ext \<Rightarrow> cvm \<Rightarrow> cvm_error + cvm" where
  "brctl_delbr e s =
     andthen (loop_ids (\<lambda>tag (br, eth) s.
       andthen (conv_s 32 True br s) (\<lambda>((go, br), s).
       andthen (conv_s 32 go eth s) (\<lambda>((go, eth), s).
       andthen (need br) (\<lambda>b. andthen (need eth) (\<lambda>et.
       andthen (log_system e [dir, ''/delbr.sh '', dec_int tag, '' '', b, '' '', et, '' > /dev/null 2>&1''] s) (\<lambda>s.
       Inr ((br, eth), println ''ok'' s))))))) (None, None) s) (\<lambda>(l, s). Inr s)"

definition diskk_mount :: "ext \<Rightarrow> cvm \<Rightarrow> cvm_error + cvm" where
  "diskk_mount e s =
     andthen (get_int s) (\<lambda>(vid, s).
     andthen (get_word 64 s) (\<lambda>(disk, s).
     andthen (sprintf cmdlen [dir, ''/file.sh '', dec_int vid, '' '', disk] s) (\<lambda>(cmd, s).
     let s = systm cmd s in
     andthen (sprintf filelen [vmdir, ''/'', dec_int vid, ''-'', disk] s) (\<lambda>(file, s).
     add_drive e vid file ''xmdisk'' s))))"

definition diskk_umount :: "ext \<Rightarrow> cvm \<Rightarrow> cvm_error + cvm" where
  "diskk_umount e s = with_id (\<lambda>vid s. answer (monitor e vid ''device_del xmdisk'' s)) s"

definition diskk_expend :: "ext \<Rightarrow> cvm \<Rightarrow> cvm_error + cvm" where
  "diskk_expend e s =
     andthen (get_int s) (\<lambda>(vid, s).
     andthen (get_int s) (\<lambda>(disks, s).
     andthen (vmison e vid s) (\<lambda>(on, s).
     if on then Inr (println ''error'' s)
     else
     andthen (log_system e [''qemu-img resize '', vmdir, ''/VM'', dec_int vid, '' +'', dec_int disks, ''G > /dev/null''] s) (\<lambda>s.
     Inr (println ''ok'' s)))))"

definition pbackup_backup :: "ext \<Rightarrow> cvm \<Rightarrow> cvm_error + cvm" where
  "pbackup_backup e s =
     andthen (loop_ids (\<lambda>vmid (backid, ip) s.
       andthen (conv_d True backid s) (\<lambda>((go, backid), s).
       andthen (conv_s 32 go ip s) (\<lambda>((go, ip), s).
       andthen (need backid) (\<lambda>b. andthen (need ip) (\<lambda>i.
       andthen (send_backup e vmid b i s) (\<lambda>s.
       Inr ((backid, ip), usleep 10000000 s))))))) (None, None) s) (\<lambda>(l, s). Inr s)"

definition os_power_on :: "ext \<Rightarrow> cvm \<Rightarrow> cvm_error + cvm" where
  "os_power_on e s =
     andthen (get_int s) (\<lambda>(vid, s).
     andthen (get_int s) (\<lambda>(cpu, s).
     andthen (get_word 512 s) (\<lambda>(cpu_type, s).
     andthen (get_int s) (\<lambda>(mem, s).
     andthen (get_word 1024 s) (\<lambda>(mac, s).
     andthen (get_word 1024 s) (\<lambda>(os_iso, s).
     andthen (oson e vid cpu cpu_type mem mac os_iso s) (\<lambda>(b, s).
     if b then andthen (vmadd e 1 vid vid (println ''ok'' s)) (\<lambda>(b, s). Inr s)
     else Inr (println ''error'' s))))))))"

text \<open>The failure is printed without a newline.\<close>

definition os_upload :: "ext \<Rightarrow> cvm \<Rightarrow> cvm_error + cvm" where
  "os_upload e s =
     andthen (get_int s) (\<lambda>(vid, s).
     andthen (get_word 1024 s) (\<lambda>(nm, s).
     andthen (get_word 32 s) (\<lambda>(ip, s).
     andthen (os_same e nm ip s) (\<lambda>(b, s).
     if b then
       case time_now e s of (t, s) \<Rightarrow>
       andthen (rsync e [vmdir, ''/BACK'', dec_int vid, '' root@'', ip, '':'', datasysdir, ''/'', nm] t s) (\<lambda>s.
       Inr (println (dec_int t) s))
     else Inr (print ''error'' s)))))"

text \<open>The lines of \<open>addVMview\<close> reach the token file when it is closed.  That the file could be
  opened is not tested: the first use of the null pointer crashes.\<close>

definition view_line :: "int \<Rightarrow> string" where
  "view_line vid = ''VM'' @ dec_int vid @ '': localhost:'' @ dec_int (to_int32 (6000 + vid)) @ [NL]"

definition vncconf :: "bool \<Rightarrow> cvm_error + unit" where
  "vncconf opened = (if opened then Inr () else Inl (Crash vnctoken))"

definition addVMview :: "ext \<Rightarrow> cvm \<Rightarrow> cvm_error + cvm" where
  "addVMview e s =
     (let s = event (Open vnctoken) s; opened = x_opens e (trace s) in
      andthen (loop_ids (\<lambda>vid text s.
          andthen (vncconf opened) (\<lambda>_.
          andthen (monitor e vid ''change vnc password cac028'' s) (\<lambda>(_, s).
          Inr (text @ view_line vid, s)))) [] s) (\<lambda>(text, s).
      andthen (vncconf opened) (\<lambda>_.
      Inr (println ''ok'' (event (Append vnctoken text) s)))))"

definition delVMview :: "ext \<Rightarrow> cvm \<Rightarrow> cvm_error + cvm" where
  "delVMview e s =
     andthen (for_ids (\<lambda>vid s.
         andthen (sprintf cmdlen [''sed -i '', [CHR 0x27], ''/VM'', dec_int vid, '':/d'', [CHR 0x27], '' '', vnctoken] s) (\<lambda>(cmd, s).
         andthen (monitor e vid ''change vnc password \"\"'' (systm cmd s)) (\<lambda>(_, s). Inr s))) s) (\<lambda>s.
     Inr (println ''ok'' s))"

section \<open>The dispatcher\<close>

text \<open>The sub-commands are numbered from 1; another number does nothing.\<close>

definition pick :: "int \<Rightarrow> (cvm \<Rightarrow> cvm_error + cvm) list \<Rightarrow> cvm \<Rightarrow> cvm_error + cvm" where
  "pick ctl hs s = (if 1 \<le> ctl \<and> ctl \<le> int (length hs) then (hs ! nat (ctl - 1)) s else Inr s)"

definition with_ctl :: "(cvm \<Rightarrow> cvm_error + cvm) list \<Rightarrow> cvm \<Rightarrow> cvm_error + cvm" where
  "with_ctl hs s = andthen (get_int s) (\<lambda>(ctl, s). pick ctl hs s)"

definition dispatch :: "ext \<Rightarrow> nat \<Rightarrow> string \<Rightarrow> cvm \<Rightarrow> cvm_error + cvm" where
  "dispatch e fuel cmd s =
     (if cmd = ''addvm'' then addvm e s
      else if cmd = ''delvm'' then delvm e s
      else if cmd = ''power'' then
        with_ctl [power_status e, power_on e, power_off e, power_reset e, power_stop e, power_continue e,
                  power_halt e, power_commit e, power_drop e, power_rebuild e, power_compare e, os_power_on e] s
      else if cmd = ''snapshot'' then
        with_ctl [snapshot_list e, snapshot_create e, snapshot_del e, snapshot_apply e] s
      else if cmd = ''cd'' then with_ctl [cd_list e, cd_mounted e, cd_mount e, cd_unmount e] s
      else if cmd = ''ppower'' then
        with_ctl [ppower_status e, ppower_on e, ppower_off e, ppower_reset e, ppower_stop e, ppower_continue e,
                  ppower_halt e] s
      else if cmd = ''os'' then with_ctl [os_list e, os_import e, os_query e, os_rebuild e, os_upload e] s
      else if cmd = ''sync'' then with_ctl [sync_sync e, sync_query e, sync_rebuild e] s
      else if cmd = ''migrate'' then
        with_ctl [migrate_send0 e, migrate_recv0 e, migrate_send1 e, Inr, migrate_query0 e, migrate_query1 e,
                  migrate_cancel0 e, migrate_cancel1 e fuel, migrate_delete1 e] s
      else if cmd = ''distb'' then with_ctl [sys_list e, sys_rsync e, iso_list e, iso_rsync e, sysiso_query e] s
      else if cmd = ''backup'' then
        with_ctl [backup_backup e, backup_restore e, backup_query e, backup_rebase e] s
      else if cmd = ''alter'' then with_ctl [alter_alter e, alter_query e, alter_rebase e] s
      else if cmd = ''online'' then online e s
      else if cmd = ''disk'' then with_ctl [disk_list e, disk_create e, disk_mount e, disk_umount e] s
      else if cmd = ''brctl'' then with_ctl [brctl_addbr e, brctl_delbr e, brctl_addif e] s
      else if cmd = ''diskk'' then with_ctl [diskk_mount e, diskk_umount e, diskk_expend e] s
      else if cmd = ''pbackup'' then pbackup_backup e s
      else if cmd = ''viewmode'' then with_ctl [addVMview e, delVMview e] s
      else Inr s)"

definition cvm_init :: "string \<Rightarrow> cvm" where
  "cvm_init stdin =
     \<lparr>input = stdin, out = [], g_name = [], g_result = [], g_result2 = [], trace = []\<rparr>"

definition cvm_main :: "ext \<Rightarrow> nat \<Rightarrow> string \<Rightarrow> cvm_error + cvm" where
  "cvm_main e fuel stdin =
     andthen (get_word 1024 (cvm_init stdin)) (\<lambda>(cmd, s). dispatch e fuel cmd s)"

end
