(* ===== verification/Cvm_Loops.thy ===== *)
theory Cvm_Loops
  imports Cvm
begin

text \<open>
  The loops of \<^verbatim>\<open>cvm.c\<close> that read machine numbers until \<open>-1\<close>.  A handler that does not
  read the input itself (\<open>blind\<close>) is run once for every number, in order; without the closing
  \<open>-1\<close> the loop never ends.
\<close>

section \<open>Handlers that do not read the input\<close>

text \<open>\<open>same_but_input t x y\<close>: \<open>y\<close> is the computation \<open>x\<close> on a state whose input is \<open>t\<close>.\<close>

definition blind_val :: "string \<Rightarrow> 'a act \<Rightarrow> 'a act \<Rightarrow> bool" where
  "blind_val t x y \<longleftrightarrow> y = (case x of Inl e \<Rightarrow> Inl e | Inr (v, s) \<Rightarrow> Inr (v, s\<lparr>input := t\<rparr>))"

definition blind_st :: "string \<Rightarrow> cvm_error + cvm \<Rightarrow> cvm_error + cvm \<Rightarrow> bool" where
  "blind_st t x y \<longleftrightarrow> y = (case x of Inl e \<Rightarrow> Inl e | Inr s \<Rightarrow> Inr (s\<lparr>input := t\<rparr>))"

named_theorems blind \<open>computations that leave the input alone\<close>

lemma blind_Inl [blind]: "blind_val t (Inl e) (Inl e)" "blind_st t (Inl e) (Inl e)"
  by (simp_all add: blind_val_def blind_st_def)

lemma blind_Inr [blind]:
  "blind_val t (Inr (v, s)) (Inr (v, s\<lparr>input := t\<rparr>))" "blind_st t (Inr s) (Inr (s\<lparr>input := t\<rparr>))"
  by (simp_all add: blind_val_def blind_st_def)

lemma blind_if [blind]:
  "blind_val t a a' \<Longrightarrow> blind_val t b b' \<Longrightarrow> blind_val t (if c then a else b) (if c then a' else b')"
  "blind_st t d d' \<Longrightarrow> blind_st t f f' \<Longrightarrow> blind_st t (if c then d else f) (if c then d' else f')"
  by simp_all

lemma blind_bind [blind]:
  "blind_val t x y \<Longrightarrow> (\<And>v s. blind_val t (f v s) (g v (s\<lparr>input := t\<rparr>))) \<Longrightarrow>
   blind_val t (andthen x (\<lambda>(v, s). f v s)) (andthen y (\<lambda>(v, s). g v s))"
  "blind_st t x' y' \<Longrightarrow> (\<And>s. blind_val t (f' s) (g' (s\<lparr>input := t\<rparr>))) \<Longrightarrow>
   blind_val t (andthen x' f') (andthen y' g')"
  "blind_val t x y \<Longrightarrow> (\<And>v s. blind_st t (h v s) (k v (s\<lparr>input := t\<rparr>))) \<Longrightarrow>
   blind_st t (andthen x (\<lambda>(v, s). h v s)) (andthen y (\<lambda>(v, s). k v s))"
  "blind_st t x' y' \<Longrightarrow> (\<And>s. blind_st t (h' s) (k' (s\<lparr>input := t\<rparr>))) \<Longrightarrow>
   blind_st t (andthen x' h') (andthen y' k')"
  by (auto simp: blind_val_def blind_st_def split: sum.splits)

lemma blind_pure [blind]:
  "(\<And>v. blind_val t (f v) (g v)) \<Longrightarrow> blind_val t (andthen x f) (andthen x g)"
  "(\<And>v. blind_st t (h v) (k v)) \<Longrightarrow> blind_st t (andthen x h) (andthen x k)"
  by (cases x; simp add: blind_val_def blind_st_def)+

lemma input_updates [simp]:
  "trace (s\<lparr>input := t\<rparr>) = trace s" "g_result (s\<lparr>input := t\<rparr>) = g_result s"
  "event ev (s\<lparr>input := t\<rparr>) = (event ev s)\<lparr>input := t\<rparr>"
  "systm c (s\<lparr>input := t\<rparr>) = (systm c s)\<lparr>input := t\<rparr>"
  "usleep n (s\<lparr>input := t\<rparr>) = (usleep n s)\<lparr>input := t\<rparr>"
  "println w (s\<lparr>input := t\<rparr>) = (println w s)\<lparr>input := t\<rparr>"
  "ok_error b (s\<lparr>input := t\<rparr>) = (ok_error b s)\<lparr>input := t\<rparr>"
  by (simp_all add: event_def systm_def usleep_def println_def print_def ok_error_def)

lemma blind_sprintf [blind]: "blind_val t (sprintf n parts s) (sprintf n parts (s\<lparr>input := t\<rparr>))"
  by (simp add: blind_val_def sprintf_def Let_def)

lemma blind_xmlog [blind]: "blind_st t (xmlog e c s) (xmlog e c (s\<lparr>input := t\<rparr>))"
  by (simp add: blind_st_def xmlog_def Let_def)

lemma blind_log_system [blind]: "blind_st t (log_system e parts s) (log_system e parts (s\<lparr>input := t\<rparr>))"
  unfolding log_system_def by (auto intro!: blind)

lemma blind_fileExist [blind]: "blind_val t (Inr (fileExist e f s)) (Inr (fileExist e f (s\<lparr>input := t\<rparr>)))"
  by (simp add: blind_val_def fileExist_def Let_def)

lemma blind_xmlog_eq: "s' = s\<lparr>input := t\<rparr> \<Longrightarrow> blind_st t (xmlog e c s) (xmlog e c s')"
  by (simp add: blind_xmlog)

lemma blind_getresult [blind]: "blind_val t (getresult e c l s) (getresult e c l (s\<lparr>input := t\<rparr>))"
  by (auto simp: getresult_def Let_def intro!: blind)

lemma blind_to_result [blind]: "blind_val t x y \<Longrightarrow> blind_st t (to_result x) (to_result y)"
  by (auto simp: blind_val_def blind_st_def to_result_def split: sum.split)

lemma blind_monitor [blind]: "blind_val t (monitor e vid c s) (monitor e vid c (s\<lparr>input := t\<rparr>))"
  unfolding monitor_def Let_def by (auto intro!: blind blind_xmlog_eq)

lemma blind_vm_exists [blind]: "blind_val t (vm_exists e vid s) (vm_exists e vid (s\<lparr>input := t\<rparr>))"
  unfolding vm_exists_def by (intro blind)

lemma blind_vmadd [blind]: "blind_val t (vmadd e ty arg vid s) (vmadd e ty arg vid (s\<lparr>input := t\<rparr>))"
  unfolding vmadd_def vmadd1_def by (intro blind)

lemma blind_vmdel [blind]: "blind_val t (vmdel e vid s) (vmdel e vid (s\<lparr>input := t\<rparr>))"
proof -
  have "blind_val t (case fileExist e f s of (b, s) \<Rightarrow> Inr (\<not> b, s))
     (case fileExist e f (s\<lparr>input := t\<rparr>) of (b, s) \<Rightarrow> Inr (\<not> b, s))" for f s
    by (simp add: blind_val_def fileExist_def Let_def)
  then show ?thesis unfolding vmdel_def by (intro blind)
qed

lemma blind_vmison [blind]: "blind_val t (vmison e vid s) (vmison e vid (s\<lparr>input := t\<rparr>))"
  unfolding vmison_def Let_def
  by (intro blind) (auto split: prod.split option.split intro!: blind)

lemma blind_vmstatus [blind]: "blind_val t (vmstatus e vid s) (vmstatus e vid (s\<lparr>input := t\<rparr>))"
  unfolding vmstatus_def by (intro blind)

lemma blind_vmoff [blind]: "blind_val t (vmoff e vid s) (vmoff e vid (s\<lparr>input := t\<rparr>))"
  unfolding vmoff_def by (intro blind)

lemma blind_vmhalt [blind]: "blind_val t (vmhalt e vid s) (vmhalt e vid (s\<lparr>input := t\<rparr>))"
  unfolding vmhalt_def Let_def by (auto intro!: blind)

lemma blind_answer [blind]: "blind_val t x y \<Longrightarrow> blind_st t (answer x) (answer y)"
  unfolding answer_def by (auto intro!: blind)

section \<open>The loop\<close>

definition ids_text :: "int list \<Rightarrow> string" where
  "ids_text ids = concat (map (\<lambda>i. dec_int i @ [NL]) ids)"

definition vm_id :: "int \<Rightarrow> bool" where
  "vm_id i \<longleftrightarrow> - (2 ^ 31) \<le> i \<and> i < 2 ^ 31 \<and> i \<noteq> - 1"

fun each_id :: "(int \<Rightarrow> 'l \<Rightarrow> cvm \<Rightarrow> 'l act) \<Rightarrow> int list \<Rightarrow> 'l \<Rightarrow> cvm \<Rightarrow> 'l act" where
  "each_id body [] l s = Inr (l, s)"
| "each_id body (i # is) l s = andthen (body i l s) (\<lambda>(l, s). each_id body is l s)"

lemma scan_int_spaces: "\<forall>c\<in>set w. isspace c \<Longrightarrow> scan_int (w @ t) = scan_int t"
  by (induction w) auto

lemma scanf_d_id:
  assumes "\<forall>c\<in>set w. isspace c" "- (2 ^ 31) \<le> i" "i < 2 ^ 31" "input s = w @ dec_int i @ NL # t"
  shows "scanf_d v s = (Some i, s\<lparr>input := NL # t\<rparr>)"
  using assms scan_int_dec [of i NL t] by (simp add: scanf_d_def scan_int_spaces)

lemma blind_each_id:
  assumes "\<And>vid l s t. blind_val t (body vid l s) (body vid l (s\<lparr>input := t\<rparr>))"
  shows "blind_val t (each_id body is l s) (each_id body is l (s\<lparr>input := t\<rparr>))"
  by (induction "is" arbitrary: l s) (auto intro!: blind assms)

lemma andthen_set_input:
  assumes "blind_val t x y"
  shows "andthen y (\<lambda>(l, s). Inr (l, s\<lparr>input := u\<rparr>)) = andthen x (\<lambda>(l, s). Inr (l, s\<lparr>input := u\<rparr>))"
  using assms by (auto simp: blind_val_def split: sum.split)

lemma id_loop_run:
  assumes "\<forall>i\<in>set ids. vm_id i" "length ids < fuel" "\<forall>c\<in>set w. isspace c"
    and "input s = w @ ids_text ids @ dec_int (- 1) @ NL # rest"
    and blind: "\<And>vid l s t. blind_val t (body vid l s) (body vid l (s\<lparr>input := t\<rparr>))"
  shows "id_loop fuel body v l s =
           andthen (each_id body ids l s) (\<lambda>(l, s). Inr (l, s\<lparr>input := NL # rest\<rparr>))"
  using assms(1-4)
proof (induction ids arbitrary: fuel v l s w)
  case Nil
  then obtain n where "fuel = Suc n" by (cases fuel) auto
  with Nil scanf_d_id [of w "- 1" s rest v] show ?case by (simp add: ids_text_def)
next
  case (Cons i "is")
  then obtain n where f: "fuel = Suc n" by (cases fuel) auto
  have i: "- (2 ^ 31) \<le> i" "i < 2 ^ 31" "i \<noteq> - 1" using Cons.prems(1) by (simp_all add: vm_id_def)
  let ?t = "NL # ids_text is @ dec_int (- 1) @ NL # rest"
  have sc: "scanf_d v s = (Some i, s\<lparr>input := ?t\<rparr>)"
    using Cons.prems i by (intro scanf_d_id) (simp_all add: ids_text_def)
  show ?case
  proof (cases "body i l s")
    case (Inl e)
    then have "body i l (s\<lparr>input := ?t\<rparr>) = Inl e" using blind [of ?t i l s] by (simp add: blind_val_def)
    with f sc i Inl show ?thesis by simp
  next
    case (Inr r)
    obtain l' s' where r: "r = (l', s')" by fastforce
    then have b: "body i l (s\<lparr>input := ?t\<rparr>) = Inr (l', s'\<lparr>input := ?t\<rparr>)"
      using blind [of ?t i l s] Inr by (simp add: blind_val_def)
    have "id_loop n body (Some i) l' (s'\<lparr>input := ?t\<rparr>) =
        andthen (each_id body is l' (s'\<lparr>input := ?t\<rparr>)) (\<lambda>(l, s). Inr (l, s\<lparr>input := NL # rest\<rparr>))"
      using Cons.prems f by (intro Cons.IH [of _ "[NL]"]) simp_all
    also have "\<dots> = andthen (each_id body is l' s') (\<lambda>(l, s). Inr (l, s\<lparr>input := NL # rest\<rparr>))"
      by (rule andthen_set_input [OF blind_each_id [OF blind]])
    finally show ?thesis using f sc i b Inr r by simp
  qed
qed

lemma length_ids_text: "length ids \<le> length (ids_text ids)"
  by (induction ids) (simp_all add: ids_text_def)

text \<open>Once per number, in order, and the loop ends.\<close>

definition each :: "(int \<Rightarrow> cvm \<Rightarrow> cvm_error + cvm) \<Rightarrow> int list \<Rightarrow> cvm \<Rightarrow> cvm_error + cvm" where
  "each body ids s =
     andthen (each_id (\<lambda>vid _ s. andthen (body vid s) (\<lambda>s. Inr ((), s))) ids () s) (\<lambda>(_, s). Inr s)"

lemma each_simps [simp]:
  "each body [] s = Inr s"
  "each body (i # is) s = andthen (body i s) (\<lambda>s. each body is s)"
  by (simp_all add: each_def) (cases "body i s"; simp)

lemma for_ids_run:
  assumes "\<forall>i\<in>set ids. vm_id i" "\<forall>c\<in>set w. isspace c"
    and "input s = w @ ids_text ids @ dec_int (- 1) @ NL # rest"
    and "\<And>vid s t. blind_st t (body vid s) (body vid (s\<lparr>input := t\<rparr>))"
  shows "for_ids body s = andthen (each body ids s) (\<lambda>s. Inr (s\<lparr>input := NL # rest\<rparr>))"
proof -
  let ?b = "\<lambda>vid (_ :: unit) s. andthen (body vid s) (\<lambda>s. Inr ((), s))"
  have "length ids < Suc (length (input s))" using length_ids_text [of ids] assms(3) by simp
  then have "id_loop (Suc (length (input s))) ?b None () s =
      andthen (each_id ?b ids () s) (\<lambda>(l, s). Inr (l, s\<lparr>input := NL # rest\<rparr>))"
    using assms by (intro id_loop_run) (auto intro!: blind)
  then show ?thesis by (cases "each_id ?b ids () s") (auto simp: for_ids_def loop_ids_def each_def)
qed

lemma id_loop_hangs:
  assumes "\<forall>i\<in>I. vm_id i" "set ids \<subseteq> I" "\<forall>c\<in>set w. isspace c" "input s = w @ ids_text ids"
    and "ids \<noteq> [] \<or> (\<exists>i\<in>I. v = Some i)"
    and blind: "\<And>vid l s t. blind_val t (body vid l s) (body vid l (s\<lparr>input := t\<rparr>))"
    and total: "\<And>vid l s. vid \<in> I \<Longrightarrow> \<exists>l' s'. body vid l s = Inr (l', s')"
  shows "id_loop fuel body v l s = Inl Hangs"
  using assms(2-5)
proof (induction fuel arbitrary: ids v l s w)
  case (Suc n)
  obtain i "is" w' where step: "scanf_d v s = (Some i, s\<lparr>input := w' @ ids_text is\<rparr>)" "i \<in> I"
    "set is \<subseteq> I" "\<forall>c\<in>set w'. isspace c"
  proof (cases ids)
    case Nil
    then obtain i where i: "i \<in> I" "v = Some i" using Suc.prems(4) by auto
    have "scan_int w = (None, [])" using Suc.prems(2) scan_int_spaces [of w "[]"] by simp
    then have "scanf_d v s = (Some i, s\<lparr>input := [] @ ids_text []\<rparr>)"
      using Nil Suc.prems(3) i by (simp add: scanf_d_def ids_text_def)
    then show ?thesis using that [of i "[]" "[]"] i by (simp add: ids_text_def)
  next
    case (Cons i "is")
    then have i: "i \<in> I" "- (2 ^ 31) \<le> i" "i < 2 ^ 31" using Suc.prems(1) assms(1) by (auto simp: vm_id_def)
    then have "scanf_d v s = (Some i, s\<lparr>input := NL # ids_text is\<rparr>)"
      using Suc.prems Cons by (intro scanf_d_id) (simp_all add: ids_text_def)
    then show ?thesis using that [of i "[NL]" "is"] i Suc.prems(1) Cons by simp
  qed
  have "i \<noteq> - 1" using assms(1) step(2) by (auto simp: vm_id_def)
  moreover obtain l' s' where b: "body i l s = Inr (l', s')" using total step(2) by blast
  have "body i l (s\<lparr>input := w' @ ids_text is\<rparr>) = Inr (l', s'\<lparr>input := w' @ ids_text is\<rparr>)"
    using blind [of "w' @ ids_text is" i l s] b by (simp add: blind_val_def)
  moreover have "id_loop n body (Some i) l' (s'\<lparr>input := w' @ ids_text is\<rparr>) = Inl Hangs"
    using step by (intro Suc.IH [where w = w' and ids = "is"]) auto
  ultimately show ?case using step(1) by simp
qed simp

lemma for_ids_hangs:
  assumes "\<forall>i\<in>set ids. vm_id i" "\<forall>c\<in>set w. isspace c" "input s = w @ ids_text ids" "ids \<noteq> []"
    and "\<And>vid s t. blind_st t (body vid s) (body vid (s\<lparr>input := t\<rparr>))"
    and "\<And>vid s. vid \<in> set ids \<Longrightarrow> \<exists>s'. body vid s = Inr s'"
  shows "for_ids body s = Inl Hangs"
proof -
  let ?b = "\<lambda>vid (_ :: unit) s. andthen (body vid s) (\<lambda>s. Inr ((), s))"
  have "id_loop (Suc (length (input s))) ?b None () s = Inl Hangs"
  proof (rule id_loop_hangs [where I = "set ids"])
    show "blind_val t (?b vid l s) (?b vid l (s\<lparr>input := t\<rparr>))" for vid l s t
      by (intro blind assms(5))
    show "\<exists>l' s'. ?b vid l s = Inr (l', s')" if "vid \<in> set ids" for vid l s
      using assms(6) [OF that, of s] by auto
  qed (use assms in auto)
  then show ?thesis by (simp add: for_ids_def loop_ids_def)
qed

section \<open>Lengths of command lines\<close>

lemma length_dec_int32: "- (2 ^ 31) \<le> i \<Longrightarrow> i < 2 ^ 31 \<Longrightarrow> length (dec_int i) \<le> 11"
proof -
  assume "- (2 ^ 31) \<le> i" "i < 2 ^ 31"
  then have "length (dec (nat (- i))) \<le> 10 \<or> 0 \<le> i" "length (dec (nat i)) \<le> 10 \<or> i < 0"
    using length_dec_le [of 10 "nat (- i)"] length_dec_le [of 10 "nat i"] by auto
  then show ?thesis by (auto simp: dec_int_def)
qed

lemma sprintf_ok: "length (concat parts) < n \<Longrightarrow> sprintf n parts s = Inr (concat parts, s)"
  by (simp add: sprintf_def Let_def)

text \<open>A system on which the log file can always be opened.\<close>

definition log_opens :: "ext \<Rightarrow> bool" where
  "log_opens e \<longleftrightarrow> (\<forall>tr. x_opens e tr)"

lemma xmlog_ok [simp]: "log_opens e \<Longrightarrow> xmlog e c s = Inr (event (Xmlog c) s)"
  by (simp add: xmlog_def log_opens_def Let_def)

lemma log_system_ok:
  "log_opens e \<Longrightarrow> length (concat parts) < 4096 \<Longrightarrow>
   log_system e parts s = Inr (systm (concat parts) (event (Xmlog (concat parts)) s))"
  by (simp add: log_system_def sprintf_ok cmdlen_def xmlog_ok)

end
