(* ===== verification/Cvm_Props.thy ===== *)
theory Cvm_Props
  imports Cvm_Loops
begin

text \<open>
  Properties of the virtual machine control program \<^verbatim>\<open>cvm.c\<close>: which commands a handler
  issues and in which order, what it prints, when a loop does not end, and where a string
  does not fit its array.
\<close>

section \<open>Commands and their effects\<close>

definition commands :: "cvm \<Rightarrow> string list" where
  "commands s = concat (map (\<lambda>ev. case ev of System c \<Rightarrow> [c] | _ \<Rightarrow> []) (rev (trace s)))"

definition execs :: "cvm \<Rightarrow> string list" where
  "execs s = concat (map (\<lambda>ev. case ev of Exec c \<Rightarrow> [c] | _ \<Rightarrow> []) (rev (trace s)))"

definition line :: "string \<Rightarrow> string" where
  "line w = w @ [NL]"

definition reply :: "bool \<Rightarrow> string" where
  "reply b = line (if b then ''ok'' else ''error'')"

definition vm_image :: "string \<Rightarrow> int \<Rightarrow> string" where
  "vm_image kind vid = vmdir @ ''/'' @ kind @ dec_int vid"

definition rm_cmd :: "string \<Rightarrow> string" where
  "rm_cmd f = ''rm -f '' @ f @ '' > /dev/null 2>&1''"

definition sed_cmd :: "int \<Rightarrow> string" where
  "sed_cmd vid = ''sed -i '' @ [CHR 0x27] @ ''/VM'' @ dec_int vid @ '':/d'' @ [CHR 0x27] @ '' '' @ vnctoken"

lemma effects [simp]:
  "commands (event (System c) s) = commands s @ [c]"
  "commands (systm c s) = commands s @ [c]" "commands (event (Xmlog c) s) = commands s"
  "commands (println w s) = commands s" "commands (ok_error b s) = commands s"
  "commands (event (Access f) s) = commands s" "commands (usleep n s) = commands s"
  "commands (s\<lparr>input := t\<rparr>) = commands s"
  "out (systm c s) = out s" "out (event ev s) = out s"
  "out (println w s) = out s @ line w" "out (ok_error b s) = out s @ reply b"
  by (simp_all add: commands_def event_def systm_def println_def print_def ok_error_def
      usleep_def line_def reply_def)

lemma trace_effects:
  "trace (systm c s) = System c # trace s" "trace (event ev s) = ev # trace s"
  by (simp_all add: systm_def event_def)

lemma vm_id_len: "vm_id i \<Longrightarrow> length (dec_int i) \<le> 11"
  by (rule length_dec_int32) (simp_all add: vm_id_def)

lemma vmdel_run:
  assumes "vm_id vid" "log_opens e"
  shows "\<exists>s'. vmdel e vid s = Inr (\<not> x_exists e (trace s'), s') \<and> out s' = out s \<and>
           trace s' = [Access (vm_image ''BACK'' vid), System (sed_cmd vid), Xmlog (sed_cmd vid),
             System (rm_cmd (vm_image ''BACK'' vid)), Xmlog (rm_cmd (vm_image ''BACK'' vid)),
             System (rm_cmd (vm_image ''VM'' vid)), Xmlog (rm_cmd (vm_image ''VM'' vid))] @ trace s"
proof -
  have l: "length (dec_int vid) \<le> 11" using assms(1) by (rule vm_id_len)
  show ?thesis
    using l assms(2) unfolding vmdel_def
    by (simp add: sprintf_ok log_system_ok filelen_def vmdir_def vnctoken_def fileExist_def Let_def
        vm_image_def rm_cmd_def sed_cmd_def trace_effects)
qed

lemma commands_trace:
  assumes "trace s' = [Access f, System a, Xmlog a, System b, Xmlog b, System c, Xmlog c] @ trace s"
  shows "commands s' = commands s @ [c, b, a]"
  using assms by (simp add: commands_def)

lemma vmdel_answer:
  assumes "vm_id vid" "log_opens e"
  shows "\<exists>s' b. answer (vmdel e vid s) = Inr s' \<and> out s' = out s @ reply b \<and>
           commands s' = commands s @ [rm_cmd (vm_image ''VM'' vid), rm_cmd (vm_image ''BACK'' vid), sed_cmd vid]"
proof -
  obtain s' where s': "vmdel e vid s = Inr (\<not> x_exists e (trace s'), s')" "out s' = out s"
    "trace s' = [Access (vm_image ''BACK'' vid), System (sed_cmd vid), Xmlog (sed_cmd vid),
       System (rm_cmd (vm_image ''BACK'' vid)), Xmlog (rm_cmd (vm_image ''BACK'' vid)),
       System (rm_cmd (vm_image ''VM'' vid)), Xmlog (rm_cmd (vm_image ''VM'' vid))] @ trace s"
    using vmdel_run [OF assms, of s] by blast
  show ?thesis using s'(1,2) commands_trace [OF s'(3)] by (auto simp: answer_def)
qed

text \<open>A handler that answers once and issues the commands \<open>cmds i\<close>, run for every number.\<close>

lemma each_batch:
  assumes "\<And>i s. i \<in> set ids \<Longrightarrow> \<exists>s' b. f i s = Inr s' \<and> out s' = out s @ reply b \<and>
             commands s' = commands s @ cmds i"
  shows "\<exists>s' bs. each f ids s = Inr s' \<and> length bs = length ids \<and>
           out s' = out s @ concat (map reply bs) \<and> commands s' = commands s @ concat (map cmds ids)"
  using assms
proof (induction ids arbitrary: s)
  case (Cons i "is")
  obtain s1 b where s1: "f i s = Inr s1" "out s1 = out s @ reply b" "commands s1 = commands s @ cmds i"
    using Cons.prems [of i s] by auto
  from Cons.IH [of s1] Cons.prems obtain s2 bs where
    "each f is s1 = Inr s2" "length bs = length is" "out s2 = out s1 @ concat (map reply bs)"
    "commands s2 = commands s1 @ concat (map cmds is)" by auto
  with s1 show ?case by (intro exI [of _ s2] exI [of _ "b # bs"]) simp
qed simp

definition create_back :: "int \<Rightarrow> int \<Rightarrow> string" where
  "create_back gb vid = ''qemu-img create -f qcow2  '' @ vm_image ''BACK'' vid @ '' '' @ dec_int gb @ ''G > /dev/null 2>&1''"

definition create_vm :: "int \<Rightarrow> int \<Rightarrow> string" where
  "create_vm base vid = ''qemu-img create -f qcow2 -o backing_file='' @ vm_image ''BACK'' base @ '' '' @
     vm_image ''VM'' vid @ '' > /dev/null 2>&1''"

text \<open>What \<open>vmadd\<close> runs: a new image on the template \<open>arg\<close> (type 1), or a new template of
  \<open>arg\<close> gigabytes and an image on it (type 2).\<close>

definition add_cmds :: "int \<Rightarrow> int \<Rightarrow> int \<Rightarrow> string list" where
  "add_cmds type arg vid =
     (if type = 1 then [create_vm arg vid]
      else if type = 2 then [create_back arg vid, create_vm vid vid] else [])"

lemma vmadd_answer:
  assumes "vm_id vid" "- (2 ^ 31) \<le> arg" "arg < 2 ^ 31" "log_opens e"
  shows "\<exists>s' b. answer (vmadd e ty arg vid s) = Inr s' \<and> out s' = out s @ reply b \<and>
           commands s' = commands s @ add_cmds ty arg vid"
proof -
  have l: "length (dec_int vid) \<le> 11" "length (dec_int arg) \<le> 11"
    using vm_id_len [OF assms(1)] length_dec_int32 [OF assms(2,3)] by simp_all
  show ?thesis
    using l assms(4) unfolding vmadd_def vmadd1_def answer_def vm_exists_def
    by (simp add: sprintf_ok log_system_ok filelen_def vmdir_def fileExist_def Let_def vm_image_def
        add_cmds_def create_back_def create_vm_def)
       fastforce
qed

section \<open>Looking for a template of the same name\<close>

definition text_of :: "string list \<Rightarrow> string" where
  "text_of ls = concat (map line ls)"

definition plain :: "string \<Rightarrow> bool" where
  "plain l \<longleftrightarrow> NL \<notin> set l \<and> NUL \<notin> set l"

lemma text_of_simps [simp]: "text_of [] = []" "text_of (l # ls) = line l @ text_of ls"
  by (simp_all add: text_of_def)

lemma plain_text: "\<forall>l\<in>set ls. plain l \<Longrightarrow> NUL \<notin> set (text_of ls)"
  by (induction ls) (auto simp: line_def plain_def)

lemma starts_with_line:
  assumes "NL \<notin> set l" "NL \<notin> set nm"
  shows "starts_with (l @ NL # r) (nm @ [NL]) \<longleftrightarrow> l = nm"
  using assms
proof (induction nm arbitrary: l)
  case Nil
  then show ?case by (cases l) auto
next
  case (Cons c nm)
  then show ?case by (cases l) auto
qed

text \<open>The first occurrence of a name and its newline is in the first line that ends in the name.\<close>

lemma strstr_line:
  assumes "NL \<notin> set l" "NL \<notin> set nm" "nm \<noteq> []"
  shows "strstr (line l @ r) (nm @ [NL]) =
    (if suffix nm l then Some (length l - length nm)
     else map_option (\<lambda>i. length l + 1 + i) (strstr r (nm @ [NL])))"
  using assms
proof (induction l)
  case Nil
  then have "\<not> starts_with (NL # r) (nm @ [NL])" using starts_with_line [of "[]" nm r] by simp
  with Nil show ?case by (simp add: line_def option.map_comp comp_def) (simp add: map_option_case split: option.split)
next
  case (Cons c l)
  show ?case
  proof (cases "c # l = nm")
    case True
    then have "starts_with ((c # l) @ NL # r) (nm @ [NL])" using Cons.prems starts_with_line by blast
    then have "strstr ((c # l) @ NL # r) (nm @ [NL]) = Some 0" by simp
    moreover have "suffix nm (c # l)" "length (c # l) - length nm = 0" using True by auto
    ultimately show ?thesis unfolding line_def append_assoc append.simps(2) [of NL "[]"] append_Nil by auto
  next
    case False
    then have "\<not> starts_with ((c # l) @ NL # r) (nm @ [NL])" using Cons.prems starts_with_line by blast
    moreover have "suffix nm (c # l) \<longleftrightarrow> suffix nm l" using False by (auto simp: suffix_Cons)
    moreover have "Suc (length l - length nm) = Suc (length l) - length nm" if "suffix nm l"
      using suffix_length_le [OF that] by simp
    ultimately show ?thesis
      using Cons by (auto simp: line_def option.map_comp comp_def)
  qed
qed

declare same_loop.simps [simp del]

lemma same_loop_hit:
  assumes "drop p base = x @ nm @ NL # r" "strstr (drop p base) (nm @ [NL]) = Some (length x)"
    and "0 < p + length x" "base ! (p + length x - 1) \<noteq> NL" "plain nm" "nm \<noteq> []"
  shows "same_loop base (nm @ [NL]) p = same_loop base (nm @ [NL]) (p + length x + length nm)"
proof -
  have "drop (p + length x) base = drop (length x) (drop p base)" by (simp add: add.commute)
  also have "\<dots> = nm @ NL # r" using assms(1) by simp
  finally have "strchr (drop (p + length x) base) NL = Some (length nm)"
    using strchr_append [of NL nm r] assms(5) by (simp add: plain_def)
  then show ?thesis using assms by (subst same_loop.simps) (auto simp: Let_def)
qed

lemma char_before:
  assumes "base = a @ x @ b" "x \<noteq> []" "NL \<notin> set x"
  shows "base ! (length a + length x - 1) \<noteq> NL"
proof -
  obtain y c where x: "x = y @ [c]" using assms(2) by (cases x rule: rev_cases) auto
  then have "base ! (length a + length x - 1) = c" using assms(1) by (simp add: nth_append)
  with assms(3) x show ?thesis by auto
qed

lemma same_loop_shift:
  assumes "strstr (drop p base) t = map_option (\<lambda>i. k + i) (strstr (drop (p + k) base) t)"
    and "\<And>i. strstr (drop (p + k) base) t = Some i \<Longrightarrow> 0 < i"
  shows "same_loop base t p = same_loop base t (p + k)"
proof (cases "strstr (drop (p + k) base) t")
  case None
  with assms show ?thesis by (subst (1 2) same_loop.simps) simp
next
  case (Some i)
  with assms show ?thesis
    by (subst (1 2) same_loop.simps) (simp add: Let_def add.assoc split: option.split)
qed

lemma length_text_of_pos: "dn \<noteq> [] \<Longrightarrow> 0 < length (text_of dn)"
  by (cases dn) (simp_all add: line_def)

lemma drop_text_of:
  "dn \<noteq> [] \<Longrightarrow> drop (length (text_of dn) - 1) (text_of dn @ r) = NL # r"
proof (induction dn rule: rev_induct)
  case (snoc l dn)
  have "text_of (dn @ [l]) @ r = (text_of dn @ l) @ NL # r" by (simp add: text_of_def line_def)
  moreover have "length (text_of (dn @ [l])) - 1 = length (text_of dn @ l)"
    by (simp add: text_of_def line_def)
  ultimately show ?case by simp
qed simp

lemma strstr_after_nl:
  assumes "NL \<notin> set nm" "nm \<noteq> []"
  shows "strstr (NL # r) (nm @ [NL]) = map_option Suc (strstr r (nm @ [NL]))"
  using starts_with_line [of "[]" nm r] assms by simp

lemma same_loop_from:
  assumes "\<forall>l\<in>set rest. plain l" "plain nm" "nm \<noteq> []" "dn \<noteq> []"
  shows "same_loop (text_of dn @ text_of rest) (nm @ [NL]) (length (text_of dn) - 1) = Inr (nm \<notin> set rest)"
  using assms
proof (induction rest arbitrary: dn)
  case Nil
  then show ?case using drop_text_of [of dn "[]"] strstr_after_nl [of nm "[]"]
    by (subst same_loop.simps) (simp add: plain_def)
next
  case (Cons l rest)
  let ?t = "nm @ [NL]" and ?base = "text_of dn @ text_of (l # rest)" and ?n = "length (text_of dn)"
  note d = drop_text_of [OF Cons.prems(4), of "text_of (l # rest)"]
  have n: "0 < ?n" using length_text_of_pos [OF Cons.prems(4)] .
  have nl: "NL \<notin> set nm" "NL \<notin> set l" using Cons.prems by (simp_all add: plain_def)
  have base: "?base = text_of (dn @ [l]) @ text_of rest" by (simp add: text_of_def)
  have pos: "length (text_of (dn @ [l])) - 1 = ?n + length l" by (simp add: text_of_def line_def)
  have IH: "same_loop ?base ?t (?n + length l) = Inr (nm \<notin> set rest)"
    using Cons.IH [of "dn @ [l]"] Cons.prems unfolding base [symmetric] pos by simp
  have ss: "strstr (drop (?n - 1) ?base) ?t = map_option Suc (strstr (line l @ text_of rest) ?t)"
    using d strstr_after_nl [OF nl(1) Cons.prems(3)] by simp
  show ?case
  proof (cases "suffix nm l")
    case True
    then obtain x where x: "l = x @ nm" by (auto simp: suffix_def)
    have s: "strstr (drop (?n - 1) ?base) ?t = Some (Suc (length x))"
      using ss strstr_line [OF nl(2,1) Cons.prems(3), of "text_of rest"] True x by simp
    show ?thesis
    proof (cases "x = []")
      case True
      have "?base ! (?n - 1) = NL" using d by (metis nth_via_drop)
      then have "same_loop ?base ?t (?n - 1) = Inr False"
        using s n True by (subst same_loop.simps) (simp add: Let_def)
      with x True show ?thesis by simp
    next
      case False
      have "?base ! (?n + length x - 1) \<noteq> NL"
        using False nl(2) x by (intro char_before [where b = "nm @ NL # text_of rest"]) (simp_all add: line_def)
      moreover have ix: "?n - 1 + length (NL # x) - 1 = ?n + length x - 1"
        using n by (simp del: length_greater_0_conv)
      ultimately have c: "?base ! (?n - 1 + length (NL # x) - 1) \<noteq> NL" unfolding ix by simp
      have dr: "drop (?n - 1) ?base = (NL # x) @ nm @ NL # text_of rest"
        unfolding d by (simp add: line_def x)
      have "strstr (drop (?n - 1) ?base) ?t = Some (length (NL # x))" using s by (simp only: list.size) simp
      then have "same_loop ?base ?t (?n - 1) = same_loop ?base ?t (?n - 1 + length (NL # x) + length nm)"
        using same_loop_hit [OF dr _ _ c Cons.prems(2,3)] by auto
      also have "?n - 1 + length (NL # x) + length nm = ?n + length l"
        using n x by (simp del: length_greater_0_conv)
      finally show ?thesis using IH x False by auto
    qed
  next
    case False
    let ?k = "length l + 1"
    have "strstr (drop (?n - 1) ?base) ?t = map_option (\<lambda>i. Suc (length l + 1 + i)) (strstr (text_of rest) ?t)"
      using ss strstr_line [OF nl(2,1) Cons.prems(3), of "text_of rest"] False
      by (simp add: option.map_comp comp_def)
    moreover have ix: "?n - 1 + ?k = ?n + length l" using n by (simp del: length_greater_0_conv)
    moreover have "drop (?n + length l) ?base = NL # text_of rest"
      using drop_text_of [of "dn @ [l]" "text_of rest"] unfolding base [symmetric] pos by simp
    ultimately have "same_loop ?base ?t (?n - 1) = same_loop ?base ?t (?n - 1 + ?k)"
      using strstr_after_nl [OF nl(1) Cons.prems(3), of "text_of rest"]
      by (intro same_loop_shift; simp only: ix) (auto simp: option.map_comp comp_def)
    also note ix
    finally show ?thesis using IH False by auto
  qed
qed

lemma same_loop_all:
  assumes "\<forall>l\<in>set ls. plain l" "plain nm" "nm \<noteq> []"
  shows "same_loop (text_of ls) (nm @ [NL]) 0 = Inr (nm \<notin> set ls)"
proof (cases ls)
  case Nil
  then show ?thesis by (subst same_loop.simps) simp
next
  case (Cons l rest)
  let ?t = "nm @ [NL]" and ?base = "text_of ls"
  have nl: "NL \<notin> set nm" "NL \<notin> set l" using assms Cons by (simp_all add: plain_def)
  have IH: "same_loop ?base ?t (length l) = Inr (nm \<notin> set rest)"
    using same_loop_from [of rest nm "[l]"] assms Cons by (simp add: line_def)
  show ?thesis
  proof (cases "suffix nm l")
    case True
    then obtain x where x: "l = x @ nm" by (auto simp: suffix_def)
    have s: "strstr ?base ?t = Some (length x)"
      using strstr_line [OF nl(2,1) assms(3), of "text_of rest"] True x Cons by simp
    show ?thesis
    proof (cases "x = []")
      case True
      then have "same_loop ?base ?t 0 = Inr False" using s by (subst same_loop.simps) simp
      with x True Cons show ?thesis by simp
    next
      case False
      have "?base ! (length x - 1) \<noteq> NL"
        using char_before [of ?base "[]" x "nm @ NL # text_of rest"] False nl(2) x Cons by (simp add: line_def)
      then have "same_loop ?base ?t 0 = same_loop ?base ?t (0 + length x + length nm)"
        using s False assms by (intro same_loop_hit [where r = "text_of rest"]) (simp_all add: line_def x Cons)
      with IH x False Cons show ?thesis by auto
    qed
  next
    case False
    have "strstr (drop 0 ?base) ?t = map_option (\<lambda>i. length l + 1 + i) (strstr (text_of rest) ?t)"
      using strstr_line [OF nl(2,1) assms(3), of "text_of rest"] False Cons
      by (cases "strstr (text_of rest) ?t") simp_all
    moreover have "drop (length l) ?base = NL # text_of rest" by (simp add: Cons line_def)
    ultimately have "same_loop ?base ?t 0 = same_loop ?base ?t (0 + length l)"
      using strstr_after_nl [OF nl(1) assms(3), of "text_of rest"]
      by (intro same_loop_shift) (auto simp: option.map_comp comp_def)
    with IH False Cons show ?thesis by auto
  qed
qed

section \<open>Listings\<close>

definition is_word :: "string \<Rightarrow> bool" where
  "is_word w \<longleftrightarrow> w \<noteq> [] \<and> NUL \<notin> set w \<and> (\<forall>c\<in>set w. \<not> isspace c) \<and> length w < 1024"

lemma word_plain: "is_word w \<Longrightarrow> plain w"
  by (auto simp: is_word_def plain_def)

declare print_words.simps [simp del]

lemma print_words_text:
  assumes "\<forall>w\<in>set ws. is_word w"
  shows "\<exists>s'. print_words word_at (text_of ws) s = Inr s' \<and> out s' = out s @ text_of ws"
  using assms
proof (induction ws arbitrary: s)
  case Nil
  then show ?case by (subst print_words.simps) simp
next
  case (Cons w ws)
  have w: "is_word w" using Cons.prems by simp
  have "word_at (line w @ text_of ws) = Some w"
    using w scan_word_here [of w NL "text_of ws"] by (simp add: word_at_def line_def is_word_def)
  moreover have "strchr (line w @ text_of ws) NL = Some (length w)"
    using strchr_append [of NL w "text_of ws"] word_plain [OF w] by (simp add: line_def plain_def)
  ultimately have "print_words word_at (text_of (w # ws)) s = print_words word_at (text_of ws) (println w (s\<lparr>g_name := w\<rparr>))"
    using w by (subst print_words.simps) (simp add: is_word_def namelen_def line_def)
  with Cons.IH [of "println w (s\<lparr>g_name := w\<rparr>)"] Cons.prems show ?case by auto
qed

lemma getresult_ok:
  "log_opens e \<Longrightarrow> x_stdout e (Capture c # trace s) = r \<Longrightarrow> NUL \<notin> set r \<Longrightarrow> length r < resultlen \<Longrightarrow>
   getresult e c True s = Inr (r, event (Xmlog r) (event (Xmlog c) (event (Capture c) s)))"
  by (simp add: getresult_def Let_def trace_effects cstr_no_nul)

lemma list_command_ok:
  assumes "length (concat parts) < 4096" "\<forall>w\<in>set ws. is_word w" "log_opens e"
    and "x_stdout e (Capture (concat parts) # trace s) = text_of ws" "length (text_of ws) < resultlen"
  shows "\<exists>s'. list_command e parts s = Inr s' \<and> out s' = out s @ text_of ws @ line ''-1''"
proof -
  have "\<forall>w\<in>set ws. plain w" using assms(2) word_plain by blast
  then obtain t where t: "to_result (getresult e (concat parts) True s) = Inr t" "g_result t = text_of ws" "out t = out s"
    using getresult_ok [OF assms(3,4) plain_text assms(5)] by (simp add: to_result_def)
  have u: "list_command e parts s = (if g_result t = [] then Inr (println ''-1'' t)
      else andthen (print_words word_at (g_result t) t) (\<lambda>s. Inr (println ''-1'' s)))"
    using assms(1) t(1) by (simp add: list_command_def sprintf_ok cmdlen_def)
  show ?thesis
  proof (cases "text_of ws = []")
    case True
    then show ?thesis using u t by simp
  next
    case False
    obtain s' where "print_words word_at (text_of ws) t = Inr s'" "out s' = out s @ text_of ws"
      using print_words_text [OF assms(2), of t] t(3) by auto
    then show ?thesis using u t False by simp
  qed
qed

section \<open>Progress files\<close>

lemma last_at_append:
  assumes "length a \<le> n" "c \<notin> set (take (n - length a) b)"
  shows "last_at (a @ c # b) c n = Some (length a)"
proof (cases "last_at (a @ c # b) c n")
  case None
  from last_at_None [OF None, of "length a"] assms(1) show ?thesis by simp
next
  case (Some i)
  note i = last_at_Some [OF Some]
  have "\<not> i < length a" using i assms(1) by (auto dest: spec [of _ "length a"])
  moreover have "\<not> length a < i"
  proof
    assume lt: "length a < i"
    then have "(a @ c # b) ! i = b ! (i - length a - 1)" by (simp add: nth_append nth_Cons')
    moreover have "i - length a - 1 < length (take (n - length a) b)" using i lt by auto
    ultimately have "c \<in> set (take (n - length a) b)" using i
      by (metis (no_types, lifting) length_take min_less_iff_conj nth_mem nth_take)
    with assms(2) show False ..
  qed
  ultimately show ?thesis using Some by simp
qed

lemma strrchr_append: "c \<notin> set b \<Longrightarrow> strrchr (a @ c # b) c = Some (length a)"
  unfolding strrchr_def by (rule last_at_append) (auto dest: in_set_takeD)

lemma rate_ok:
  assumes tx: "x_file e (ReadFile (logdir @ ''/'' @ dec_int t) # trace s) =
      Some (pre @ CHR '' '' # dec n @ CHR ''%'' # post)"
    and n: "int n < 2 ^ 31" and post: "CHR ''%'' \<notin> set post" and nul: "NUL \<notin> set pre" "NUL \<notin> set post"
    and len: "length (pre @ CHR '' '' # dec n @ CHR ''%'' # post) < 65535"
    and run: "strstr (pre @ CHR '' '' # dec n @ CHR ''%'' # post @ [CHR 0xFF]) total_size = None"
    and t: "length (dec_int t) < 1000"
  shows "\<exists>s'. rate e t 0 s = Inr (int n, s')"
proof -
  let ?text = "pre @ CHR '' '' # dec n @ CHR ''%'' # post"
  let ?r = "pre @ CHR '' '' # dec n @ CHR ''%'' # post @ [CHR 0xFF]"
  have r: "cstr (?text @ [CHR 0xFF]) = ?r" using nul by (simp add: cstr_no_nul)
  have p: "strrchr ?r (CHR ''%'') = Some (length pre + 1 + length (dec n))"
    using strrchr_append [of "CHR ''%''" "post @ [CHR 0xFF]" "pre @ CHR '' '' # dec n"] post by simp
  have sp: "CHR '' '' \<notin> set (dec n)"
    using dec_isdigit [of "CHR '' ''" n] nl_facts(3) by blast
  have q: "last_at ?r (CHR '' '') (length pre + 1 + length (dec n)) = Some (length pre)"
  proof (rule last_at_append)
    have "take (1 + length (dec n)) (dec n @ CHR ''%'' # post @ [CHR 0xFF]) = dec n @ [CHR ''%'']" by simp
    with sp show "CHR '' '' \<notin> set (take (length pre + 1 + length (dec n) - length pre) (dec n @ CHR ''%'' # post @ [CHR 0xFF]))"
      by simp
  qed simp
  have "scan_int (drop (length pre) ?r) = (Some (int n), CHR ''%'' # post @ [CHR 0xFF])"
    using scan_int_dec [of "int n" "CHR ''%''" "post @ [CHR 0xFF]"] n
    by (simp add: dec_int_def isdigit_def uchar_def)
  then have "rate0 ?r (length pre + 1 + length (dec n)) s1 = Inr (int n, s1)" for s1
    using q by (simp add: rate0_def space_before_def sscanf_d_def)
  moreover have "length (concat [logdir, ''/'', dec_int t]) < filelen" using t by (simp add: filelen_def logdir_def)
  ultimately show ?thesis
    using tx r p run len
    by (simp add: rate_def sprintf_ok readfile_def event_def Let_def resultlen_def)
qed

section \<open>Starting a machine\<close>

lemma execs_event [simp]:
  "execs (event (Exec c) s) = execs s @ [c]"
  "(\<And>c. ev \<noteq> Exec c) \<Longrightarrow> execs (event ev s) = execs s"
  by (auto simp: execs_def event_def split: event.split)

lemma execs_fields [simp]:
  "execs (s\<lparr>g_result := r\<rparr>) = execs s" "execs (usleep n s) = execs s"
  by (simp_all add: execs_def event_def usleep_def)

text \<open>What reaches the daemon of a command after the requests \<open>tr\<close>: nothing when the connection or
  the \<open>write\<close> fails.\<close>

definition sent :: "ext \<Rightarrow> string \<Rightarrow> event list \<Rightarrow> string list" where
  "sent e cmd tr =
     (if x_exec_connects e (Exec_connect # tr)
      then (case x_exec_writes e (Exec_write cmd # Exec_connect # tr) of None \<Rightarrow> [] | Some n \<Rightarrow> [take n cmd])
      else [])"

lemma execs_exec: "execs (snd (exec e cmd s)) = execs s @ sent e cmd (trace s)"
  by (simp add: exec_def sent_def Let_def trace_effects split: option.split)

lemma execs_sprintf: "sprintf n parts s = Inr (c, s') \<Longrightarrow> s' = s \<and> c = concat parts"
  by (auto simp: sprintf_def Let_def split: if_splits)

lemma xmlog_Inr: "xmlog e c s = Inr s' \<Longrightarrow> s' = event (Xmlog c) s"
  by (simp add: xmlog_def Let_def split: if_splits)

lemma execs_xmlog: "xmlog e c s = Inr s' \<Longrightarrow> execs s' = execs s"
  by (drule xmlog_Inr) simp

lemma execs_getresult: "getresult e c l s = Inr (r, s') \<Longrightarrow> execs s' = execs s"
  by (auto simp: getresult_def Let_def andthen_Inr_iff split: if_splits dest!: execs_xmlog)

lemma execs_to_result: "to_result (getresult e c l s) = Inr s' \<Longrightarrow> execs s' = execs s"
  by (auto simp: to_result_def andthen_Inr_iff dest!: execs_getresult)

lemma execs_vmison:
  assumes "vmison e vid s = Inr (b, s')"
  shows "execs s' = execs s"
proof -
  obtain c t where "to_result (getresult e c False s) = Inr t"
    "(case scan_int (g_result t) of (None, _) \<Rightarrow> Inl Uninit | (Some rs, _) \<Rightarrow> Inr (rs = 1, t)) = Inr (b, s')"
    using assms by (auto simp: vmison_def andthen_Inr_iff dest!: execs_sprintf)
  then show ?thesis by (auto split: prod.splits option.splits dest!: execs_to_result)
qed

lemma execs_monitor: "monitor e vid c s = Inr (b, s') \<Longrightarrow> execs s' = execs s"
  by (auto simp: monitor_def Let_def andthen_Inr_iff split: if_splits dest!: execs_xmlog)

lemma execs_viewMode: "viewMode e vid s = Inr (b, s') \<Longrightarrow> execs s' = execs s"
  by (auto simp: viewMode_def andthen_Inr_iff readfile_def Let_def split: option.splits dest!: execs_sprintf)

text \<open>The state after a start command was handed over and the tenth of a second was waited.\<close>

definition started :: "ext \<Rightarrow> string \<Rightarrow> cvm \<Rightarrow> cvm" where
  "started e cmd s = usleep 100000 (snd (exec e cmd (event (Xmlog cmd) s)))"

lemma execs_started: "execs (started e cmd s) = execs s @ sent e cmd (Xmlog cmd # trace s)"
  by (simp add: started_def execs_exec trace_effects)

lemma vmon_execs:
  assumes "vmon e vid cpu ct mem mac s = Inr (b, s')"
  shows "b \<and> vmison e vid s = Inr (True, s') \<and> execs s' = execs s \<or>
    (\<exists>s1 s2 cmd rest. vmison e vid s = Inr (False, s1) \<and> cmd = ''qemu-kvm -name VM'' @ dec_int vid @ '' -smp '' @ rest \<and>
       execs s' = execs s @ sent e cmd (Xmlog cmd # trace s1) \<and> vmison e vid (started e cmd s1) = Inr (b, s2))"
proof -
  obtain on s1 where v: "vmison e vid s = Inr (on, s1)" using assms by (auto simp: vmon_def andthen_Inr_iff)
  show ?thesis
  proof (cases on)
    case True
    with v assms execs_vmison [OF v] show ?thesis by (simp add: vmon_def)
  next
    case False
    obtain cmd rest s2 on2 where c: "cmd = ''qemu-kvm -name VM'' @ dec_int vid @ '' -smp '' @ rest"
      "vmison e vid (started e cmd s1) = Inr (on2, s2)" "b = on2" "execs s' = execs s2"
      using assms v False
      by (auto simp: vmon_def andthen_Inr_iff Let_def started_def split: if_splits
          dest!: execs_sprintf xmlog_Inr execs_monitor execs_viewMode)
    with v False execs_vmison [OF v] execs_vmison [OF c(2)] show ?thesis by (auto simp: execs_started)
  qed
qed

section \<open>Properties\<close>

text \<open>A system in which every command prints \<open>0\<close>, no file exists, the log can be written, no
  monitor answers and the daemon takes every command.\<close>

definition ext0 :: ext where
  "ext0 = \<lparr>x_stdout = \<lambda>_. ''0'' @ [NL], x_exists = \<lambda>_. False, x_size = \<lambda>_. 0, x_file = \<lambda>_. None,
           x_opens = \<lambda>_. True, x_connects = \<lambda>_. False, x_exec_connects = \<lambda>_. True,
           x_exec_writes = \<lambda>_. Some cmdlen, x_reply = \<lambda>_. [], x_time = \<lambda>_. 0, x_mix = \<lambda>a b. a\<rparr>"

lemma log_opens_ext0 [simp]: "log_opens ext0" "log_opens (ext0\<lparr>x_stdout := f\<rparr>)"
  by (simp_all add: log_opens_def ext0_def)

text \<open>C21: the command \<open>addvm\<close>, when its log file can be opened: from the first word of the input to the last: for every machine
  number up to \<open>-1\<close>, in order, exactly the image commands of its type are run and one line is
  printed.\<close>

theorem addvm_batch:
  assumes "\<forall>i\<in>set ids. vm_id i" "- (2 ^ 31) \<le> ty" "ty < 2 ^ 31" "- (2 ^ 31) \<le> arg" "arg < 2 ^ 31"
    and "stdin = ''addvm'' @ NL # dec_int ty @ NL # dec_int arg @ NL # ids_text ids @ dec_int (- 1) @ NL # rest"
    and "log_opens e"
  shows "\<exists>s bs. cvm_main e fuel stdin = Inr s \<and> length bs = length ids \<and>
           out s = concat (map reply bs) \<and> commands s = concat (map (add_cmds ty arg) ids)"
proof -
  let ?body = "\<lambda>vid s. answer (vmadd e ty arg vid s)"
  let ?t = "ids_text ids @ dec_int (- 1) @ NL # rest"
  let ?s = "(cvm_init stdin)\<lparr>input := NL # ?t\<rparr>"
  have w: "scan_word stdin = (Some ''addvm'', NL # dec_int ty @ NL # dec_int arg @ NL # ?t)"
    using scan_word_here [of "''addvm''" NL] assms(6) by (simp add: isspace_def uchar_def)
  have "addvm e ((cvm_init stdin)\<lparr>input := NL # dec_int ty @ NL # dec_int arg @ NL # ?t\<rparr>) = for_ids ?body ?s"
    using scan_int_dec [OF assms(2,3), of NL "dec_int arg @ NL # ?t"] scan_int_dec [OF assms(4,5), of NL ?t]
    by (simp add: addvm_def get_int_def scanf_d_def cvm_init_def)
  moreover have "for_ids ?body ?s = andthen (each ?body ids ?s) (\<lambda>s. Inr (s\<lparr>input := NL # rest\<rparr>))"
    using assms(1) by (intro for_ids_run [where w = "[NL]"]) (auto intro!: blind)
  moreover obtain s' bs where "each ?body ids ?s = Inr s'" "length bs = length ids"
    "out s' = out ?s @ concat (map reply bs)" "commands s' = commands ?s @ concat (map (add_cmds ty arg) ids)"
    using each_batch [of ids ?body "add_cmds ty arg" ?s] vmadd_answer assms(1,4,5,7) by blast
  ultimately show ?thesis
    using w by (auto simp: cvm_main_def get_word_def cvm_init_def dispatch_def cstr_no_nul commands_def)
qed

theorem addvm_batch_witness:
  "\<exists>s bs. cvm_main ext0 0 (''addvm'' @ NL # dec_int 2 @ NL # dec_int 10 @ NL # ids_text [7, 8] @ dec_int (- 1) @ NL # []) = Inr s \<and>
     length bs = 2 \<and> out s = concat (map reply bs) \<and>
     commands s = [create_back 10 7, create_vm 7 7, create_back 10 8, create_vm 8 8]"
  using addvm_batch [of "[7, 8]" 2 10 "''addvm'' @ NL # dec_int 2 @ NL # dec_int 10 @ NL # ids_text [7, 8] @ dec_int (- 1) @ NL # []" "[]" ext0 0]
  by (simp add: vm_id_def add_cmds_def numeral_2_eq_2)

text \<open>\<open>delvm\<close> whose input ends before a \<open>-1\<close> never ends: it goes on deleting the last
  machine it read.\<close>

theorem delvm_without_terminator_hangs:
  assumes "\<forall>i\<in>set ids. vm_id i" "ids \<noteq> []" "input s = ids_text ids" "log_opens e"
  shows "delvm e s = Inl Hangs"
  unfolding delvm_def
proof (rule for_ids_hangs [where w = "[]" and ids = ids])
  show "blind_st t (answer (vmdel e vid s)) (answer (vmdel e vid (s\<lparr>input := t\<rparr>)))" for vid s t
    by (intro blind)
  show "\<exists>s'. answer (vmdel e vid s) = Inr s'" if "vid \<in> set ids" for vid s
    using vmdel_answer [of vid e s] assms(1,4) that by blast
qed (use assms in auto)

theorem delvm_without_terminator_hangs_witness: "delvm ext0 (cvm_init (ids_text [3])) = Inl Hangs"
  by (rule delvm_without_terminator_hangs [of "[3]"]) (simp_all add: vm_id_def cvm_init_def)

text \<open>\<open>vmdel\<close> removes both images and the token, in this order, and then looks only for
  the template image: its answer says nothing about the machine's own image.\<close>

theorem vmdel_tests_only_the_template:
  assumes "vm_id vid" "log_opens e"
  shows "\<exists>s'. vmdel e vid s = Inr (\<not> x_exists e (trace s'), s') \<and> out s' = out s \<and>
           trace s' = [Access (vm_image ''BACK'' vid), System (sed_cmd vid), Xmlog (sed_cmd vid),
             System (rm_cmd (vm_image ''BACK'' vid)), Xmlog (rm_cmd (vm_image ''BACK'' vid)),
             System (rm_cmd (vm_image ''VM'' vid)), Xmlog (rm_cmd (vm_image ''VM'' vid))] @ trace s"
  using assms by (rule vmdel_run)

theorem vmdel_tests_only_the_template_witness:
  "\<exists>s'. vmdel ext0 5 (cvm_init []) = Inr (True, s') \<and> hd (trace s') = Access (vm_image ''BACK'' 5)"
  using vmdel_tests_only_the_template [of 5 ext0 "cvm_init []"] by (fastforce simp: vm_id_def ext0_def log_opens_def)

text \<open>C30: \<open>os_same\<close>, when its log file can be opened, returns true exactly when no line of the listing is the name, whatever
  lines only end in it: an upload never overwrites a template of the same name.\<close>

theorem os_same_correct:
  assumes "plain nm" "nm \<noteq> []" "length nm < 1023" "length ip < 32" "\<forall>l\<in>set ls. plain l"
    and "x_stdout e (Capture (''ssh root@'' @ ip @ '' ls '' @ datasysdir) # trace s) = text_of ls"
    and "length (text_of ls) < resultlen" "log_opens e"
  shows "\<exists>s'. os_same e nm ip s = Inr (nm \<notin> set ls, s')"
proof -
  note r = getresult_ok [OF assms(8,6) plain_text [OF assms(5)] assms(7)]
  have "text_of ls = [] \<longleftrightarrow> ls = []" by (cases ls) (simp_all add: line_def)
  then show ?thesis
    using assms(3,4) r same_loop_all [OF assms(5,1,2)]
    by (simp add: os_same_def sprintf_ok cmdlen_def datasysdir_def to_result_def)
qed

theorem os_same_correct_witness:
  "\<exists>s'. os_same (ext0\<lparr>x_stdout := \<lambda>_. text_of [''xp'', ''linux-xp'', ''win7'']\<rparr>) ''win7'' ''10.0.0.1'' (cvm_init []) =
     Inr (False, s')"
  using os_same_correct [of "''win7''" "''10.0.0.1''" "[''xp'', ''linux-xp'', ''win7'']"
      "ext0\<lparr>x_stdout := \<lambda>_. text_of [''xp'', ''linux-xp'', ''win7'']\<rparr>" "cvm_init []"]
  by (simp add: plain_def line_def resultlen_def)

text \<open>A listing (here of \<open>cd_list\<close>) prints every file name of the directory on its own line
  and then \<open>-1\<close>, also when there is none.\<close>

theorem cd_list_prints_all:
  assumes "\<forall>w\<in>set ws. is_word w" "length (text_of ws) < resultlen" "log_opens e"
    and "x_stdout e (Capture (''ls '' @ isodir) # trace s) = text_of ws"
  shows "\<exists>s'. cd_list e s = Inr s' \<and> out s' = out s @ text_of ws @ line ''-1''"
  using list_command_ok [of "[''ls '', isodir]" ws e s] assms by (simp add: cd_list_def isodir_def)

theorem cd_list_prints_all_witness:
  "\<exists>s'. cd_list (ext0\<lparr>x_stdout := \<lambda>_. text_of [''a.iso'', ''b.iso'']\<rparr>) (cvm_init []) = Inr s' \<and>
     out s' = text_of [''a.iso'', ''b.iso''] @ line ''-1''"
  using cd_list_prints_all [of "[''a.iso'', ''b.iso'']" "ext0\<lparr>x_stdout := \<lambda>_. text_of [''a.iso'', ''b.iso'']\<rparr>" "cvm_init []"]
  by (simp add: is_word_def line_def resultlen_def isspace_def uchar_def cvm_init_def)

lemma dec_42: "dec 42 = ''42''" by code_simp
lemma dec_7: "dec 7 = ''7''" by code_simp
lemma dec_0: "dec 0 = ''0''" by code_simp

text \<open>\<open>rate\<close> of a transfer still running is the last percentage in its log.\<close>

theorem rate_is_last_percentage:
  assumes "x_file e (ReadFile (logdir @ ''/'' @ dec_int t) # trace s) =
      Some (pre @ CHR '' '' # dec n @ CHR ''%'' # post)"
    and "int n < 2 ^ 31" "CHR ''%'' \<notin> set post" "NUL \<notin> set pre" "NUL \<notin> set post"
    and "length (pre @ CHR '' '' # dec n @ CHR ''%'' # post) < 65535"
    and "strstr (pre @ CHR '' '' # dec n @ CHR ''%'' # post @ [CHR 0xFF]) total_size = None"
    and "length (dec_int t) < 1000"
  shows "\<exists>s'. rate e t 0 s = Inr (int n, s')"
  using assms by (rule rate_ok)

theorem rate_is_last_percentage_witness:
  "\<exists>s'. rate (ext0\<lparr>x_file := \<lambda>_. Some (''10%'' @ CHR '' '' # dec 42 @ CHR ''%'' # '' 1.2MB/s'')\<rparr>) 7 0 (cvm_init []) = Inr (42, s')"
  using rate_is_last_percentage [of "ext0\<lparr>x_file := \<lambda>_. Some (''10%'' @ CHR '' '' # dec 42 @ CHR ''%'' # '' 1.2MB/s'')\<rparr>"
      7 "cvm_init []" "''10%''" 42 "'' 1.2MB/s''"]
  by (simp add: total_size_def dec_42 dec_int_def dec_7)

text \<open>C38: \<open>vmon\<close> never starts a machine that is on.  For one that is off it hands the start command
  to the local daemon once: the command, as much of it as \<open>write\<close> takes, is sent exactly when the
  connection and the \<open>write\<close> succeed, otherwise nothing is, and the answer is whether the machine is on a tenth of a second
  later.\<close>

theorem vmon_starts_at_most_once:
  assumes "vmon e vid cpu ct mem mac s = Inr (b, s')"
  shows "b \<and> vmison e vid s = Inr (True, s') \<and> execs s' = execs s \<or>
    (\<exists>s1 s2 cmd rest. vmison e vid s = Inr (False, s1) \<and> cmd = ''qemu-kvm -name VM'' @ dec_int vid @ '' -smp '' @ rest \<and>
       execs s' = execs s @ sent e cmd (Xmlog cmd # trace s1) \<and> vmison e vid (started e cmd s1) = Inr (b, s2))"
  using assms by (rule vmon_execs)

lemma vmison_ext0:
  "length (dec_int vid) \<le> 11 \<Longrightarrow> x_stdout e = (\<lambda>_. ''0'' @ [NL]) \<Longrightarrow> \<exists>s'. vmison e vid s = Inr (False, s')"
  using scan_int_dec [of 0 NL "[]"]
  by (simp add: vmison_def sprintf_ok cmdlen_def Let_def to_result_def getresult_def
      cstr_no_nul resultlen_def dec_int_def dec_0)

lemma vmon_ext0:
  assumes "x_stdout e = (\<lambda>_. ''0'' @ [NL])" "log_opens e"
  shows "\<exists>s'. vmon e 7 1 ''host'' 512 ''mac'' s = Inr (False, s')"
proof -
  have l: "length (dec_int n) \<le> 11" if "n \<in> {7, 1, 512, 107}" for n
    using that by (intro length_dec_int32) auto
  have "\<forall>s. \<exists>s'. vmison e 7 s = Inr (False, s')" using vmison_ext0 [OF _ assms(1)] l [of 7] by simp
  then obtain f where f: "\<And>s. vmison e 7 s = Inr (False, f s)" by (auto dest!: choice)
  have "to_int32 (7 + 100) = 107" by (simp add: to_int32_def)
  then show ?thesis
    using l [of 7] l [of 1] l [of 512] l [of 107] assms(2)
    by (simp add: vmon_def f sprintf_ok filelen_def cmdlen_def vmdir_def ifup_def ifdown_def cldir_def
        qmdir_def sockets_def Let_def)
qed

text \<open>With a daemon that takes the command, and with one that cannot be reached.\<close>

theorem vmon_starts_at_most_once_witness:
  "(\<exists>s' rest. vmon ext0 7 1 ''host'' 512 ''mac'' (cvm_init []) = Inr (False, s') \<and>
     execs s' = [take cmdlen (''qemu-kvm -name VM'' @ dec_int 7 @ '' -smp '' @ rest)]) \<and>
   (\<exists>s'. vmon (ext0\<lparr>x_exec_connects := \<lambda>_. False\<rparr>) 7 1 ''host'' 512 ''mac'' (cvm_init []) = Inr (False, s') \<and> execs s' = [])"
proof -
  let ?e = "ext0\<lparr>x_exec_connects := \<lambda>_. False\<rparr>"
  obtain s1 where v1: "vmon ext0 7 1 ''host'' 512 ''mac'' (cvm_init []) = Inr (False, s1)"
    using vmon_ext0 [of ext0 "cvm_init []"] by (auto simp: ext0_def log_opens_def)
  obtain s2 where v2: "vmon ?e 7 1 ''host'' 512 ''mac'' (cvm_init []) = Inr (False, s2)"
    using vmon_ext0 [of ?e "cvm_init []"] by (auto simp: ext0_def log_opens_def)
  have "execs (cvm_init []) = []" by (simp add: execs_def cvm_init_def)
  with vmon_starts_at_most_once [OF v1] vmon_starts_at_most_once [OF v2] v1 v2 show ?thesis
    by (auto simp: sent_def ext0_def)
qed

text \<open>\<open>viewMode\<close> overruns its array of ten characters exactly for numbers of more than six
  characters.\<close>

theorem viewMode_overflow_iff:
  "(\<exists>t. viewMode e vid s = Inl (Overflow t)) \<longleftrightarrow> 6 < length (dec_int vid)"
proof -
  have "view_loop tmp rest buf \<noteq> Inl (Overflow t)" for tmp rest buf t
    by (induction tmp rest buf rule: view_loop.induct)
       (subst view_loop.simps, auto split: option.split prod.split)
  then show ?thesis
    by (auto simp del: view_loop.simps simp: viewMode_def sprintf_def readfile_def Let_def andthen_def split: option.split sum.split)
qed

text \<open>A first word that is no command does nothing at all.\<close>

theorem unknown_command_does_nothing:
  assumes "is_word w" "w \<notin> {''addvm'', ''delvm'', ''power'', ''snapshot'', ''cd'', ''ppower'', ''os'', ''sync'', ''migrate'',
      ''distb'', ''backup'', ''alter'', ''online'', ''disk'', ''brctl'', ''diskk'', ''pbackup'', ''viewmode''}"
  shows "cvm_main e fuel (w @ NL # rest) = Inr ((cvm_init (w @ NL # rest))\<lparr>input := NL # rest\<rparr>)"
proof -
  have "scan_word (w @ NL # rest) = (Some w, NL # rest)"
    using assms(1) by (intro scan_word_here) (auto simp: is_word_def)
  moreover have "dispatch e fuel w s = Inr s" for s
    unfolding dispatch_def using assms(2) by (simp del: char.inject list.inject)
  ultimately show ?thesis
    using assms(1) by (simp add: cvm_main_def get_word_def cvm_init_def is_word_def cstr_no_nul)
qed

theorem unknown_command_does_nothing_witness:
  "cvm_main ext0 0 (''help'' @ NL # []) = Inr ((cvm_init (''help'' @ NL # []))\<lparr>input := [NL]\<rparr>)"
  by (rule unknown_command_does_nothing) (simp_all add: is_word_def isspace_def uchar_def)

end
