(* ===== verification/Jobs.thy ===== *)
theory Jobs
  imports Prelude
begin

text \<open>
  The job queue of \<^verbatim>\<open>src/c_code/apue/rwlock.c\<close>: a doubly linked list under a
  readers-writer lock.  Jobs live in a heap from addresses to structures, so that the
  operations mutate shared nodes as the code does; a null or dangling pointer is an error.
  A queue represents the list of the addresses on it; the operations are shown to insert,
  append and remove an address of that list and to release the lock.

  The file does not compile as it stands.  The member \<open>j_prev\<close> of \<open>struct job\<close> is declared as a
  pointer to \<open>struct jobb\<close>, a type that does not exist, and \<open>job_remove\<close> goes through it; it is read here
  as a pointer to \<open>struct job\<close>, as its uses need it.  \<open>job_find\<close> is not modelled: it reads a member
  that the structure does not have.
\<close>

section \<open>Structures\<close>

text \<open>\<open>j_prev\<close> with its type repaired, see above.\<close>

type_synonym ptr = "nat option"

record job =
  j_next :: ptr
  j_prev :: ptr
  j_id :: nat

record queue =
  q_head :: ptr
  q_tail :: ptr
  q_lock :: bool

datatype job_error = Segv | Deadlock

record jobs =
  jheap :: "nat \<Rightarrow> job option"
  jqueue :: queue

definition deref :: "jobs \<Rightarrow> ptr \<Rightarrow> job_error + nat \<times> job" where
  "deref s p =
     (case p of
        None \<Rightarrow> Inl Segv
      | Some a \<Rightarrow> (case jheap s a of None \<Rightarrow> Inl Segv | Some j \<Rightarrow> Inr (a, j)))"

definition set_next :: "jobs \<Rightarrow> ptr \<Rightarrow> ptr \<Rightarrow> job_error + jobs" where
  "set_next s p v = andthen (deref s p) (\<lambda>(a, j). Inr (s\<lparr>jheap := (jheap s)(a \<mapsto> j\<lparr>j_next := v\<rparr>)\<rparr>))"

definition set_prev :: "jobs \<Rightarrow> ptr \<Rightarrow> ptr \<Rightarrow> job_error + jobs" where
  "set_prev s p v = andthen (deref s p) (\<lambda>(a, j). Inr (s\<lparr>jheap := (jheap s)(a \<mapsto> j\<lparr>j_prev := v\<rparr>)\<rparr>))"

definition get_next :: "jobs \<Rightarrow> ptr \<Rightarrow> job_error + ptr" where
  "get_next s p = andthen (deref s p) (\<lambda>(a, j). Inr (j_next j))"

definition get_prev :: "jobs \<Rightarrow> ptr \<Rightarrow> job_error + ptr" where
  "get_prev s p = andthen (deref s p) (\<lambda>(a, j). Inr (j_prev j))"

definition set_head :: "jobs \<Rightarrow> ptr \<Rightarrow> jobs" where
  "set_head s v = s\<lparr>jqueue := (jqueue s)\<lparr>q_head := v\<rparr>\<rparr>"

definition set_tail :: "jobs \<Rightarrow> ptr \<Rightarrow> jobs" where
  "set_tail s v = s\<lparr>jqueue := (jqueue s)\<lparr>q_tail := v\<rparr>\<rparr>"

section \<open>Operations\<close>

text \<open>A thread that takes the lock while holding it waits for ever.\<close>

definition wrlock :: "jobs \<Rightarrow> job_error + jobs" where
  "wrlock s =
     (if q_lock (jqueue s) then Inl Deadlock else Inr (s\<lparr>jqueue := (jqueue s)\<lparr>q_lock := True\<rparr>\<rparr>))"

definition unlock :: "jobs \<Rightarrow> jobs" where
  "unlock s = s\<lparr>jqueue := (jqueue s)\<lparr>q_lock := False\<rparr>\<rparr>"

definition queue_init :: "jobs \<Rightarrow> jobs" where
  "queue_init s = s\<lparr>jqueue := \<lparr>q_head = None, q_tail = None, q_lock = False\<rparr>\<rparr>"

definition job_insert :: "jobs \<Rightarrow> nat \<Rightarrow> job_error + jobs" where
  "job_insert s jp =
     andthen (wrlock s) (\<lambda>s.
     andthen (set_next s (Some jp) (q_head (jqueue s))) (\<lambda>s.
     andthen (set_prev s (Some jp) None) (\<lambda>s.
     andthen (if q_head (jqueue s) \<noteq> None then set_prev s (q_head (jqueue s)) (Some jp)
              else Inr (set_tail s (Some jp))) (\<lambda>s.
     Inr (unlock (set_head s (Some jp)))))))"

definition job_append :: "jobs \<Rightarrow> nat \<Rightarrow> job_error + jobs" where
  "job_append s jp =
     andthen (wrlock s) (\<lambda>s.
     andthen (set_next s (Some jp) None) (\<lambda>s.
     andthen (set_prev s (Some jp) (q_tail (jqueue s))) (\<lambda>s.
     andthen (if q_tail (jqueue s) \<noteq> None then set_next s (q_tail (jqueue s)) (Some jp)
              else Inr (set_head s (Some jp))) (\<lambda>s.
     Inr (unlock (set_tail s (Some jp)))))))"

text \<open>\<open>jp->j_prev->j_next = jp->j_next\<close> and \<open>jp->j_next->j_prev = jp->j_prev\<close>.\<close>

definition skip_next :: "jobs \<Rightarrow> nat \<Rightarrow> job_error + jobs" where
  "skip_next s jp =
     andthen (get_prev s (Some jp)) (\<lambda>pv. andthen (get_next s (Some jp)) (\<lambda>nx. set_next s pv nx))"

definition skip_prev :: "jobs \<Rightarrow> nat \<Rightarrow> job_error + jobs" where
  "skip_prev s jp =
     andthen (get_next s (Some jp)) (\<lambda>nx. andthen (get_prev s (Some jp)) (\<lambda>pv. set_prev s nx pv))"

definition job_remove :: "jobs \<Rightarrow> nat \<Rightarrow> job_error + jobs" where
  "job_remove s jp =
     andthen (wrlock s) (\<lambda>s.
     andthen
       (if Some jp = q_head (jqueue s) then
          andthen (get_next s (Some jp)) (\<lambda>nx.
          let s = set_head s nx in
          if q_tail (jqueue s) = Some jp then Inr (set_tail s None) else skip_prev s jp)
        else if Some jp = q_tail (jqueue s) then
          andthen (get_prev s (Some jp)) (\<lambda>pv. skip_next (set_tail s pv) jp)
        else andthen (skip_next s jp) (\<lambda>s. skip_prev s jp)) (\<lambda>s.
     Inr (unlock s)))"

section \<open>What a queue represents\<close>

definition first_of :: "nat list \<Rightarrow> ptr \<Rightarrow> ptr" where
  "first_of xs n = (case xs of [] \<Rightarrow> n | x # _ \<Rightarrow> Some x)"

definition last_of :: "ptr \<Rightarrow> nat list \<Rightarrow> ptr" where
  "last_of p xs = (if xs = [] then p else Some (last xs))"

fun dseg :: "(nat \<Rightarrow> job option) \<Rightarrow> ptr \<Rightarrow> nat list \<Rightarrow> ptr \<Rightarrow> bool" where
  "dseg h p [] n = True"
| "dseg h p (a # as) n \<longleftrightarrow>
     (\<exists>j. h a = Some j \<and> j_prev j = p \<and> j_next j = first_of as n) \<and> dseg h (Some a) as n"

definition jobs_rep :: "jobs \<Rightarrow> nat list \<Rightarrow> bool" where
  "jobs_rep s xs \<longleftrightarrow>
     distinct xs \<and> dseg (jheap s) None xs None \<and> \<not> q_lock (jqueue s) \<and>
     q_head (jqueue s) = first_of xs None \<and> q_tail (jqueue s) = last_of None xs"

lemma ends [simp]:
  "first_of [] n = n" "first_of (x # xs) n = Some x" "last_of p [] = p"
  "last_of p (xs @ [x]) = Some x" "last_of p (xs @ [y, x]) = Some x" "xs \<noteq> [] \<Longrightarrow> last_of p (x # xs) = last_of q xs" "last_of p [x] = Some x"
  by (simp_all add: first_of_def last_of_def)

lemma first_of_append: "first_of (xs @ ys) n = first_of xs (first_of ys n)"
  by (cases xs) simp_all

lemma last_of_append: "last_of p (xs @ ys) = last_of (last_of p xs) ys"
  by (simp add: last_of_def)

lemma last_of_Cons: "last_of p (x # xs) = last_of (Some x) xs"
  by (simp add: last_of_def)

lemma dseg_append:
  "dseg h p (xs @ ys) n \<longleftrightarrow> dseg h p xs (first_of ys n) \<and> dseg h (last_of p xs) ys n"
  by (induction xs arbitrary: p) (auto simp: first_of_append last_of_Cons)

lemma dseg_frame:
  "(\<And>a. a \<in> set xs \<Longrightarrow> h' a = h a) \<Longrightarrow> dseg h' p xs n = dseg h p xs n"
  by (induction xs arbitrary: p) auto

lemma dseg_dom: "dseg h p xs n \<Longrightarrow> a \<in> set xs \<Longrightarrow> h a \<noteq> None"
  by (induction xs arbitrary: p) auto

text \<open>Changing the outer pointer of the first or of the last node.\<close>

lemma dseg_set_prev:
  assumes "dseg h p (a # as) n" "a \<notin> set as" "h a = Some j"
  shows "dseg (h(a \<mapsto> j\<lparr>j_prev := q\<rparr>)) q (a # as) n"
proof -
  have "dseg (h(a \<mapsto> j\<lparr>j_prev := q\<rparr>)) (Some a) as n = dseg h (Some a) as n"
    using assms(2) by (intro dseg_frame) auto
  then show ?thesis using assms by auto
qed

lemma dseg_set_next:
  assumes "dseg h p (xs @ [a]) n" "a \<notin> set xs" "h a = Some j"
  shows "dseg (h(a \<mapsto> j\<lparr>j_next := m\<rparr>)) p (xs @ [a]) m"
proof -
  have "dseg (h(a \<mapsto> j\<lparr>j_next := m\<rparr>)) p xs (Some a) = dseg h p xs (Some a)"
    using assms(2) by (intro dseg_frame) auto
  then show ?thesis using assms by (auto simp: dseg_append)
qed

lemma heap_ops:
  "jheap s a = Some j \<Longrightarrow> set_next s (Some a) v = Inr (s\<lparr>jheap := (jheap s)(a \<mapsto> j\<lparr>j_next := v\<rparr>)\<rparr>)"
  "jheap s a = Some j \<Longrightarrow> set_prev s (Some a) v = Inr (s\<lparr>jheap := (jheap s)(a \<mapsto> j\<lparr>j_prev := v\<rparr>)\<rparr>)"
  "jheap s a = Some j \<Longrightarrow> get_next s (Some a) = Inr (j_next j)"
  "jheap s a = Some j \<Longrightarrow> get_prev s (Some a) = Inr (j_prev j)"
  by (simp_all add: set_next_def set_prev_def get_next_def get_prev_def deref_def)

lemma queue_ops [simp]:
  "jheap (set_head s v) = jheap s" "jheap (set_tail s v) = jheap s" "jheap (unlock s) = jheap s"
  "jqueue (set_head s v) = (jqueue s)\<lparr>q_head := v\<rparr>" "jqueue (set_tail s v) = (jqueue s)\<lparr>q_tail := v\<rparr>"
  "jqueue (unlock s) = (jqueue s)\<lparr>q_lock := False\<rparr>"
  by (simp_all add: set_head_def set_tail_def unlock_def)

lemma jobs_repD:
  assumes "jobs_rep s xs"
  shows "distinct xs" "dseg (jheap s) None xs None" "wrlock s = Inr (s\<lparr>jqueue := (jqueue s)\<lparr>q_lock := True\<rparr>\<rparr>)"
    "q_head (jqueue s) = first_of xs None" "q_tail (jqueue s) = last_of None xs"
  using assms by (simp_all add: jobs_rep_def wrlock_def)

section \<open>Inserting and appending\<close>

lemma insert_ok:
  assumes r: "jobs_rep s xs" and a: "a \<notin> set xs" "jheap s a = Some j"
  shows "\<exists>s'. job_insert s a = Inr s' \<and> jobs_rep s' (a # xs) \<and> dom (jheap s') = dom (jheap s)"
proof -
  note R = jobs_repD [OF r]
  let ?h1 = "(jheap s)(a \<mapsto> j\<lparr>j_next := first_of xs None, j_prev := None\<rparr>)"
  have f: "dseg ?h1 p xs n = dseg (jheap s) p xs n" for p n using a(1) by (intro dseg_frame) auto
  show ?thesis
  proof (cases xs)
    case Nil
    then show ?thesis
      using R a by (auto simp: job_insert_def heap_ops jobs_rep_def)
  next
    case (Cons x as)
    have xa: "x \<noteq> a" using a(1) Cons by auto
    obtain k where k: "jheap s x = Some k" using R(2) Cons by auto
    have "dseg ?h1 None (x # as) None" using f R(2) Cons by simp
    then have "dseg (?h1(x \<mapsto> k\<lparr>j_prev := Some a\<rparr>)) (Some a) (x # as) None"
      using R(1) Cons k xa by (intro dseg_set_prev) auto
    then show ?thesis
      using R a k xa Cons by (auto simp: job_insert_def heap_ops jobs_rep_def last_of_Cons)
  qed
qed

lemma append_ok:
  assumes r: "jobs_rep s xs" and a: "a \<notin> set xs" "jheap s a = Some j"
  shows "\<exists>s'. job_append s a = Inr s' \<and> jobs_rep s' (xs @ [a]) \<and> dom (jheap s') = dom (jheap s)"
proof -
  note R = jobs_repD [OF r]
  let ?h1 = "(jheap s)(a \<mapsto> j\<lparr>j_next := None, j_prev := last_of None xs\<rparr>)"
  have f: "dseg ?h1 p xs n = dseg (jheap s) p xs n" for p n using a(1) by (intro dseg_frame) auto
  show ?thesis
  proof (cases xs rule: rev_cases)
    case Nil
    then show ?thesis
      using R a by (auto simp: job_append_def heap_ops jobs_rep_def)
  next
    case (snoc ys x)
    have xa: "x \<noteq> a" using a(1) snoc by auto
    obtain k where k: "jheap s x = Some k" using R(2) snoc by (auto simp: dseg_append)
    let ?h2 = "?h1(x \<mapsto> k\<lparr>j_next := Some a\<rparr>)"
    have "dseg ?h1 None (ys @ [x]) None" using f R(2) snoc by simp
    then have d: "dseg ?h2 None (ys @ [x]) (Some a)" using R(1) snoc k xa by (intro dseg_set_next) auto
    have "dseg ?h2 None ((ys @ [x]) @ [a]) None"
      by (subst dseg_append) (use d xa snoc in simp)
    then show ?thesis
      using R a k xa snoc
      by (auto simp: job_append_def heap_ops jobs_rep_def first_of_append)
  qed
qed

section \<open>Removing\<close>

lemma remove_ok:
  assumes r: "jobs_rep s (xs @ a # ys)"
  shows "\<exists>s'. job_remove s a = Inr s' \<and> jobs_rep s' (xs @ ys) \<and> dom (jheap s') = dom (jheap s)"
proof -
  note R = jobs_repD [OF r]
  obtain j where j: "jheap s a = Some j" "j_prev j = last_of None xs" "j_next j = first_of ys None"
    and segs: "dseg (jheap s) None xs (Some a)" "dseg (jheap s) (Some a) ys None"
    using R(2) by (auto simp: dseg_append)
  let ?s = "s\<lparr>jqueue := (jqueue s)\<lparr>q_lock := True\<rparr>\<rparr>"
  consider "xs = []" "ys = []" | y zs where "xs = []" "ys = y # zs" | ws x where "xs = ws @ [x]" "ys = []"
    | ws x y zs where "xs = ws @ [x]" "ys = y # zs"
    by (metis list.exhaust rev_exhaust)
  then show ?thesis
  proof cases
    case 1
    then show ?thesis using R j by (auto simp: job_remove_def heap_ops jobs_rep_def Let_def)
  next
    case 2
    obtain k where k: "jheap s y = Some k" using segs(2) 2 by auto
    have ne: "y \<noteq> a" "last_of None (a # ys) \<noteq> Some a" using R(1) 2 by (auto simp: last_of_def)
    have "dseg ((jheap s)(y \<mapsto> k\<lparr>j_prev := None\<rparr>)) None (y # zs) None"
      using segs(2) R(1) 2 k by (intro dseg_set_prev) auto
    with R j k ne 2 show ?thesis
      by (auto simp: job_remove_def skip_prev_def heap_ops jobs_rep_def Let_def last_of_Cons)
  next
    case 3
    obtain k where k: "jheap s x = Some k" using segs(1) 3 by (auto simp: dseg_append)
    have ne: "x \<noteq> a" "first_of (xs @ [a]) None \<noteq> Some a"
      using R(1) 3 by (simp, cases ws) auto
    have "dseg ((jheap s)(x \<mapsto> k\<lparr>j_next := None\<rparr>)) None (ws @ [x]) None"
      using segs(1) R(1) 3 k by (intro dseg_set_next) auto
    with R j k ne 3 show ?thesis
      by (auto simp: job_remove_def skip_next_def heap_ops jobs_rep_def Let_def first_of_append)
  next
    case 4
    obtain k where k: "jheap s x = Some k" using segs(1) 4 by (auto simp: dseg_append)
    obtain l where l: "jheap s y = Some l" using segs(2) 4 by auto
    have ne: "x \<noteq> a" "y \<noteq> a" "x \<noteq> y" "first_of xs None \<noteq> Some a" "last_of None ys \<noteq> Some a"
      "x \<notin> set ws" "y \<notin> set zs" "x \<notin> set zs" "y \<notin> set ws"
      using R(1) 4 by (cases ws; auto simp: last_of_def)+
    let ?h1 = "(jheap s)(x \<mapsto> k\<lparr>j_next := Some y\<rparr>)" and ?h2 = "(jheap s)(x \<mapsto> k\<lparr>j_next := Some y\<rparr>, y \<mapsto> l\<lparr>j_prev := Some x\<rparr>)"
    have "dseg ?h1 None (ws @ [x]) (Some y)" using segs(1) 4 k ne by (intro dseg_set_next) auto
    moreover have "dseg ?h2 None (ws @ [x]) (Some y) = dseg ?h1 None (ws @ [x]) (Some y)"
      using ne by (intro dseg_frame) auto
    moreover have "dseg ?h1 (Some a) (y # zs) None = dseg (jheap s) (Some a) (y # zs) None"
      using ne by (intro dseg_frame) auto
    then have "dseg ?h2 (Some x) (y # zs) None" using segs(2) 4 l ne by (intro dseg_set_prev) auto
    ultimately have d: "dseg ?h2 None (xs @ ys) None"
      using dseg_append [of ?h2 None "ws @ [x]" "y # zs" None] 4 by (simp only: ends)
    have q: "q_head (jqueue s) = first_of (xs @ ys) None" "q_tail (jqueue s) = last_of None (xs @ ys)"
      using R(4,5) 4 by (simp_all add: first_of_append last_of_append last_of_Cons)
    have nq: "q_head (jqueue s) \<noteq> Some a" "q_tail (jqueue s) \<noteq> Some a"
      using q ne 4 by (simp_all add: first_of_append last_of_append last_of_Cons)
    have "job_remove s a = Inr (unlock (?s\<lparr>jheap := ?h2\<rparr>))"
      using R(3) j k l ne nq 4
      by (auto simp: job_remove_def skip_next_def skip_prev_def heap_ops)
    then show ?thesis using d q R(1) k l by (auto simp: jobs_rep_def)
  qed
qed

section \<open>The interface\<close>

datatype job_call = Insert nat | Append nat | Remove nat

definition job_step :: "jobs \<Rightarrow> job_call \<Rightarrow> job_error + unit \<times> jobs" where
  "job_step s c =
     andthen (case c of Insert a \<Rightarrow> job_insert s a | Append a \<Rightarrow> job_append s a | Remove a \<Rightarrow> job_remove s a)
       (\<lambda>s. Inr ((), s))"

definition list_step :: "nat list \<Rightarrow> job_call \<Rightarrow> unit \<times> nat list" where
  "list_step xs c =
     ((), case c of Insert a \<Rightarrow> a # xs | Append a \<Rightarrow> xs @ [a] | Remove a \<Rightarrow> remove1 a xs)"

text \<open>A caller inserts and appends jobs that are in memory and not on the queue, and removes
  jobs that are on it.\<close>

fun on_queue :: "nat \<Rightarrow> jobs \<Rightarrow> ptr \<Rightarrow> nat \<Rightarrow> bool" where
  "on_queue 0 s p a = False"
| "on_queue (Suc n) s p a =
     (case p of
        None \<Rightarrow> False
      | Some b \<Rightarrow> b = a \<or> (case jheap s b of None \<Rightarrow> False | Some j \<Rightarrow> on_queue n s (j_next j) a))"

definition job_call_ok :: "nat list \<Rightarrow> jobs \<Rightarrow> job_call \<Rightarrow> bool" where
  "job_call_ok pool s c =
     (let on = (\<lambda>a. on_queue (length pool) s (q_head (jqueue s)) a) in
      case c of
        Insert a \<Rightarrow> a \<in> set pool \<and> \<not> on a
      | Append a \<Rightarrow> a \<in> set pool \<and> \<not> on a
      | Remove a \<Rightarrow> on a)"

text \<open>The jobs of a fixed pool, each in memory.\<close>

definition pool_rep :: "nat list \<Rightarrow> jobs \<Rightarrow> nat list \<Rightarrow> bool" where
  "pool_rep pool s xs \<longleftrightarrow> jobs_rep s xs \<and> set xs \<subseteq> set pool \<and> (\<forall>a\<in>set pool. jheap s a \<noteq> None)"

lemma on_queue_seg:
  "dseg (jheap s) p xs None \<Longrightarrow> length xs \<le> n \<Longrightarrow> on_queue n s (first_of xs None) a \<longleftrightarrow> a \<in> set xs"
proof (induction n arbitrary: p xs)
  case (Suc n)
  show ?case
  proof (cases xs)
    case (Cons x ys)
    then obtain j where "jheap s x = Some j" "j_next j = first_of ys None" "dseg (jheap s) (Some x) ys None"
      using Suc.prems(1) by auto
    with Cons Suc.IH [of "Some x" ys] Suc.prems(2) show ?thesis by auto
  qed simp
qed simp

lemma on_queue_iff:
  assumes "pool_rep pool s xs"
  shows "on_queue (length pool) s (q_head (jqueue s)) a \<longleftrightarrow> a \<in> set xs"
proof -
  have r: "jobs_rep s xs" "set xs \<subseteq> set pool" using assms by (simp_all add: pool_rep_def)
  have "length xs = card (set xs)" using jobs_repD(1) [OF r(1)] by (simp add: distinct_card)
  also have "\<dots> \<le> card (set pool)" using r(2) by (simp add: card_mono)
  also have "\<dots> \<le> length pool" by (rule card_length)
  finally show ?thesis using on_queue_seg [OF jobs_repD(2) [OF r(1)]] jobs_repD(4) [OF r(1)] by simp
qed

lemma job_step_ok:
  assumes r: "pool_rep pool s xs" and ok: "job_call_ok pool s c"
  shows "\<exists>s'. job_step s c = Inr (fst (list_step xs c), s') \<and> pool_rep pool s' (snd (list_step xs c))"
proof -
  have q: "jobs_rep s xs" "set xs \<subseteq> set pool" and d: "\<forall>a\<in>set pool. a \<in> dom (jheap s)"
    using r by (auto simp: pool_rep_def)
  show ?thesis
  proof (cases c)
    case (Insert a)
    then have a: "a \<in> set pool" "a \<notin> set xs" using ok on_queue_iff [OF r] by (auto simp: job_call_ok_def Let_def)
    then obtain j where "jheap s a = Some j" using d by auto
    with insert_ok [OF q(1) a(2)] obtain s' where
      "job_insert s a = Inr s'" "jobs_rep s' (a # xs)" "dom (jheap s') = dom (jheap s)" by blast
    with Insert a q d show ?thesis by (auto simp: job_step_def list_step_def pool_rep_def domIff)
  next
    case (Append a)
    then have a: "a \<in> set pool" "a \<notin> set xs" using ok on_queue_iff [OF r] by (auto simp: job_call_ok_def Let_def)
    then obtain j where "jheap s a = Some j" using d by auto
    with append_ok [OF q(1) a(2)] obtain s' where
      "job_append s a = Inr s'" "jobs_rep s' (xs @ [a])" "dom (jheap s') = dom (jheap s)" by blast
    with Append a q d show ?thesis by (auto simp: job_step_def list_step_def pool_rep_def domIff)
  next
    case (Remove a)
    then have "a \<in> set xs" using ok on_queue_iff [OF r] by (auto simp: job_call_ok_def Let_def)
    then obtain us vs where s: "xs = us @ a # vs" "a \<notin> set us" by (auto dest: split_list_first)
    then have "remove1 a xs = us @ vs" by (simp add: remove1_append)
    moreover obtain s' where
      "job_remove s a = Inr s'" "jobs_rep s' (us @ vs)" "dom (jheap s') = dom (jheap s)"
      using remove_ok q(1) s(1) by blast
    ultimately show ?thesis using Remove q d s by (auto simp: job_step_def list_step_def pool_rep_def domIff)
  qed
qed

interpretation job_queue: simulation "pool_rep pool" "job_call_ok pool" job_step list_step for pool
  by unfold_locales (rule job_step_ok)

section \<open>Properties\<close>

text \<open>C32: the queue is the list of its jobs: any sequence of insertions at the head, appends
  and removals of jobs of a pool, each removal of a job that is queued and each insertion or append
  of one that is not, leaves the queue that the list operations give, with every link consistent
  and the lock released; no call follows a null pointer or blocks.  (\<open>j_prev\<close> is read with its
  type repaired.)\<close>

theorem job_calls_refine:
  assumes "pool_rep pool s xs" "adm_run (job_call_ok pool) job_step s cs"
  shows "\<exists>s'. run_steps job_step s cs = Inr (fst (run_spec list_step xs cs), s') \<and>
           pool_rep pool s' (snd (run_spec list_step xs cs))"
  using assms by (rule job_queue.run_refines)

definition two_jobs :: jobs where
  "two_jobs = queue_init \<lparr>jheap = [1 \<mapsto> \<lparr>j_next = None, j_prev = None, j_id = 10\<rparr>, 2 \<mapsto> \<lparr>j_next = None, j_prev = None, j_id = 20\<rparr>],
     jqueue = \<lparr>q_head = Some 9, q_tail = None, q_lock = True\<rparr>\<rparr>"

theorem job_calls_refine_witness:
  "\<exists>s'. run_steps job_step two_jobs [Append 1, Insert 2, Remove 1] = Inr ([(), (), ()], s') \<and>
     pool_rep [1, 2] s' [2]"
proof -
  have "pool_rep [1, 2] two_jobs []"
    by (simp add: two_jobs_def queue_init_def pool_rep_def jobs_rep_def)
  moreover have "adm_run (job_call_ok [1, 2]) job_step two_jobs [Append 1, Insert 2, Remove 1]"
    by (simp add: two_jobs_def queue_init_def job_call_ok_def job_step_def job_append_def job_insert_def
        wrlock_def heap_ops set_head_def set_tail_def unlock_def Let_def split: sum.split)
  ultimately show ?thesis
    using job_calls_refine [of "[1, 2]" two_jobs "[]" "[Append 1, Insert 2, Remove 1]"]
    by (simp add: list_step_def Let_def)
qed

text \<open>Removing a job at the head, at the tail, in the middle or alone on the queue unlinks
  exactly that job.\<close>

theorem job_remove_unlinks:
  assumes "jobs_rep s (xs @ a # ys)"
  shows "\<exists>s'. job_remove s a = Inr s' \<and> jobs_rep s' (xs @ ys) \<and> dom (jheap s') = dom (jheap s)"
  using assms by (rule remove_ok)

theorem job_remove_unlinks_witness:
  "\<exists>s s'. job_append two_jobs 1 = Inr s \<and> job_remove s 1 = Inr s' \<and> jobs_rep s' []"
proof -
  have "jobs_rep two_jobs []" by (simp add: two_jobs_def queue_init_def jobs_rep_def)
  moreover have "jheap two_jobs 1 = Some \<lparr>j_next = None, j_prev = None, j_id = 10\<rparr>"
    by (simp add: two_jobs_def queue_init_def)
  ultimately obtain s where "job_append two_jobs 1 = Inr s" "jobs_rep s [1]"
    using append_ok [of two_jobs "[]" 1] by auto
  with job_remove_unlinks [of s "[]" 1 "[]"] show ?thesis by auto
qed

end
