(* ===== verification/Slist.thy ===== *)
theory Slist
  imports Prelude
begin

text \<open>
  The singly linked lists of \<^verbatim>\<open>src/c_code/algorithem/task/reverselist.c\<close>: a list with a
  header node whose value is never set, built by \<open>initlist\<close> and reversed in place by
  \<open>reavsrsel\<close> (moving each node behind the header) and by \<open>reavsrsel_2\<close> (turning every
  pointer round).  Nodes live in a heap; following a null pointer is the error \<open>Segv\<close>, and a
  loop over a cyclic list runs out of every fuel.
\<close>

section \<open>Definitions\<close>

record node =
  val :: "int option"
  next_p :: "nat option"

datatype list_error = Segv | NoFuel

type_synonym lheap = "nat \<Rightarrow> node option"

definition load :: "lheap \<Rightarrow> nat option \<Rightarrow> list_error + node" where
  "load h p =
     (case p of None \<Rightarrow> Inl Segv | Some a \<Rightarrow> (case h a of None \<Rightarrow> Inl Segv | Some n \<Rightarrow> Inr n))"

definition load_next :: "lheap \<Rightarrow> nat option \<Rightarrow> list_error + nat option" where
  "load_next h p = andthen (load h p) (\<lambda>n. Inr (next_p n))"

definition store_next :: "lheap \<Rightarrow> nat option \<Rightarrow> nat option \<Rightarrow> list_error + lheap" where
  "store_next h p v =
     (case p of
        None \<Rightarrow> Inl Segv
      | Some a \<Rightarrow> (case h a of None \<Rightarrow> Inl Segv | Some n \<Rightarrow> Inr (h(a \<mapsto> n\<lparr>next_p := v\<rparr>))))"

text \<open>\<open>malloc\<close> returns an address not in use; the addresses from \<open>brk\<close> on are free.\<close>

definition list_malloc :: "lheap \<Rightarrow> nat \<Rightarrow> nat \<times> lheap \<times> nat" where
  "list_malloc h brk = (brk, h(brk \<mapsto> \<lparr>val = None, next_p = None\<rparr>), brk + 1)"

text \<open>The loop of \<open>initlist\<close> that hangs the values \<open>i\<close> to \<open>n - 1\<close> after the node \<open>p\<close>.\<close>

fun initlist_loop :: "nat \<Rightarrow> nat \<Rightarrow> nat \<Rightarrow> lheap \<Rightarrow> nat \<Rightarrow> list_error + nat \<times> lheap \<times> nat" where
  "initlist_loop 0 i p h brk = Inr (p, h, brk)"
| "initlist_loop (Suc k) i p h brk =
     (case list_malloc h brk of (temp, h, brk) \<Rightarrow>
      andthen (load h (Some temp)) (\<lambda>n.
      let h = h(temp \<mapsto> n\<lparr>val := Some (int i)\<rparr>) in
      andthen (store_next h (Some p) (Some temp)) (\<lambda>h.
      initlist_loop k (i + 1) temp h brk)))"

definition initlist :: "lheap \<Rightarrow> nat \<Rightarrow> list_error + nat \<times> lheap \<times> nat" where
  "initlist h brk =
     (case list_malloc h brk of (p, h, brk) \<Rightarrow>
      let l = p in
      andthen (initlist_loop 9 1 p h brk) (\<lambda>(p, h, brk).
      andthen (store_next h (Some p) None) (\<lambda>h.
      Inr (l, h, brk))))"

fun reavsrsel_loop :: "nat \<Rightarrow> nat option \<Rightarrow> nat option \<Rightarrow> nat option \<Rightarrow> lheap \<Rightarrow> list_error + lheap" where
  "reavsrsel_loop 0 l p ln h = Inl NoFuel"
| "reavsrsel_loop (Suc fuel) l p ln h =
     andthen (load_next h p) (\<lambda>nx.
     if nx = None then Inr h
     else
       let temp = nx in
       andthen (store_next h l temp) (\<lambda>h.
       andthen (load_next h temp) (\<lambda>tn.
       andthen (store_next h p tn) (\<lambda>h.
       andthen (store_next h temp ln) (\<lambda>h.
       reavsrsel_loop fuel l p temp h)))))"

definition reavsrsel :: "nat \<Rightarrow> nat option \<Rightarrow> lheap \<Rightarrow> list_error + nat option \<times> lheap" where
  "reavsrsel fuel l h =
     andthen (load_next h l) (\<lambda>ln.
     andthen (reavsrsel_loop fuel l ln ln h) (\<lambda>h. Inr (l, h)))"

fun reavsrsel_2_loop ::
  "nat \<Rightarrow> nat option \<Rightarrow> nat option \<Rightarrow> nat option \<Rightarrow> lheap \<Rightarrow> list_error + nat option \<times> lheap" where
  "reavsrsel_2_loop 0 ln p temp h = Inl NoFuel"
| "reavsrsel_2_loop (Suc fuel) ln p temp h =
     (if p = None then andthen (store_next h ln temp) (\<lambda>h. Inr (ln, h))
      else
      andthen (store_next h ln temp) (\<lambda>h.
      let temp = ln; ln = p in
      andthen (load_next h p) (\<lambda>p. reavsrsel_2_loop fuel ln p temp h)))"

definition reavsrsel_2 :: "nat \<Rightarrow> nat option \<Rightarrow> lheap \<Rightarrow> list_error + nat option \<times> lheap" where
  "reavsrsel_2 fuel l h =
     andthen (load_next h l) (\<lambda>p. reavsrsel_2_loop fuel l p None h)"

text \<open>\<open>main\<close>: build, reverse, and print the values of the nodes after the first.  A value
  that was never set prints as \<open>None\<close>.\<close>

fun print_loop :: "nat \<Rightarrow> nat option \<Rightarrow> lheap \<Rightarrow> int option list \<Rightarrow> list_error + int option list" where
  "print_loop 0 p h out = Inl NoFuel"
| "print_loop (Suc fuel) p h out =
     (if p = None then Inr out
      else andthen (load h p) (\<lambda>n. print_loop fuel (next_p n) h (out @ [val n])))"

definition list_main :: "nat \<Rightarrow> lheap \<Rightarrow> nat \<Rightarrow> list_error + int option list" where
  "list_main fuel h brk =
     andthen (initlist h brk) (\<lambda>(l, h, brk).
     andthen (reavsrsel_2 fuel (Some l) h) (\<lambda>(l, h).
     andthen (load_next h l) (\<lambda>p. print_loop fuel p h [])))"

section \<open>Lists in the heap\<close>

fun path :: "lheap \<Rightarrow> nat option \<Rightarrow> nat list \<Rightarrow> nat option \<Rightarrow> bool" where
  "path h p [] q \<longleftrightarrow> p = q"
| "path h p (a # as) q \<longleftrightarrow> p = Some a \<and> (\<exists>n. h a = Some n \<and> path h (next_p n) as q)"

definition same_vals :: "lheap \<Rightarrow> lheap \<Rightarrow> bool" where
  "same_vals h h' \<longleftrightarrow> (\<forall>a. map_option val (h' a) = map_option val (h a))"

lemma path_append: "path h p (xs @ ys) q \<longleftrightarrow> (\<exists>r. path h p xs r \<and> path h r ys q)"
  by (induction xs arbitrary: p) auto

lemma path_frame: "(\<And>a. a \<in> set xs \<Longrightarrow> h' a = h a) \<Longrightarrow> path h' p xs q = path h p xs q"
  by (induction xs arbitrary: p) auto

lemma path_upd [simp]: "a \<notin> set xs \<Longrightarrow> path (h(a \<mapsto> n)) p xs q = path h p xs q"
  by (rule path_frame) auto

lemma heap_steps:
  "h a = Some n \<Longrightarrow> load_next h (Some a) = Inr (next_p n)"
  "h a = Some n \<Longrightarrow> store_next h (Some a) v = Inr (h(a \<mapsto> n\<lparr>next_p := v\<rparr>))"
  by (simp_all add: load_next_def store_next_def load_def)

lemma same_vals_refl [simp]: "same_vals h h"
  by (simp add: same_vals_def)

lemma same_vals_trans: "same_vals h h' \<Longrightarrow> same_vals h' h'' \<Longrightarrow> same_vals h h''"
  by (simp add: same_vals_def)

lemma same_vals_upd: "h a = Some n \<Longrightarrow> same_vals h (h(a \<mapsto> n\<lparr>next_p := v\<rparr>))"
  by (simp add: same_vals_def)

section \<open>Reversing\<close>

text \<open>\<open>ds\<close> are the nodes already moved, the last of them the original first node \<open>p\<close>.\<close>

lemma reavsrsel_loop_ok:
  assumes "path h (Some l) (l # ds @ xs) None" "distinct (l # ds @ xs)" "ds \<noteq> []" "length xs < fuel"
  shows "\<exists>h'. reavsrsel_loop fuel (Some l) (Some (last ds)) (Some (hd ds)) h = Inr h' \<and>
           path h' (Some l) (l # rev xs @ ds) None \<and> same_vals h h'"
  using assms
proof (induction xs arbitrary: h ds fuel)
  case Nil
  then obtain f where f: "fuel = Suc f" by (cases fuel) auto
  obtain ds' p where d: "ds = ds' @ [p]" using Nil.prems(3) by (cases ds rule: rev_cases) auto
  have "\<exists>n. h p = Some n \<and> next_p n = None" using Nil.prems(1) d by (auto simp: path_append)
  with Nil f d show ?case by (auto simp: heap_steps)
next
  case (Cons t xs)
  then obtain f where f: "fuel = Suc f" by (cases fuel) auto
  obtain ds' p where d: "ds = ds' @ [p]" using Cons.prems(3) by (cases ds rule: rev_cases) auto
  obtain nl where nl: "h l = Some nl" "path h (next_p nl) (ds @ t # xs) None" using Cons.prems(1) by auto
  have hd: "next_p nl = Some (hd ds)" using nl(2) Cons.prems(3) by (cases ds) auto
  obtain np nt where n: "h p = Some np" "next_p np = Some t" "h t = Some nt" "path h (next_p nt) xs None"
    "path h (Some (hd ds)) ds' (Some p)"
    using nl(2) hd d by (auto simp: path_append)
  have dist: "l \<noteq> p" "l \<noteq> t" "p \<noteq> t" "l \<notin> set ds'" "p \<notin> set ds'" "t \<notin> set ds'"
    "l \<notin> set xs" "p \<notin> set xs" "t \<notin> set xs" using Cons.prems(2) d by auto
  let ?h1 = "h(l \<mapsto> nl\<lparr>next_p := Some t\<rparr>)"
  let ?h2 = "?h1(p \<mapsto> np\<lparr>next_p := next_p nt\<rparr>)"
  let ?h3 = "?h2(t \<mapsto> nt\<lparr>next_p := Some (hd ds)\<rparr>)"
  have step: "reavsrsel_loop fuel (Some l) (Some p) (Some (hd ds)) h = reavsrsel_loop f (Some l) (Some p) (Some t) ?h3"
    using f nl n dist by (simp add: heap_steps Let_def)
  have p: "path ?h3 (Some l) (l # (t # ds) @ xs) None"
    using d dist n nl by (simp add: path_append)
  have "distinct (l # (t # ds) @ xs)" "length xs < f" using Cons.prems(2,4) f by auto
  from Cons.IH [OF p this(1) _ this(2)] obtain h' where
    "reavsrsel_loop f (Some l) (Some (last (t # ds))) (Some (hd (t # ds))) ?h3 = Inr h'"
    "path h' (Some l) (l # rev xs @ t # ds) None" "same_vals ?h3 h'"
    by blast
  moreover have "same_vals h ?h3"
    using nl n dist by (auto simp: same_vals_def)
  ultimately show ?case using step d same_vals_trans by auto
qed

lemma reavsrsel_ok:
  assumes "path h (Some l) (l # xs) None" "distinct (l # xs)" "xs \<noteq> []" "length xs \<le> fuel"
  shows "\<exists>h'. reavsrsel fuel (Some l) h = Inr (Some l, h') \<and> path h' (Some l) (l # rev xs) None \<and> same_vals h h'"
proof -
  obtain x ys where x: "xs = x # ys" using assms(3) by (cases xs) auto
  obtain n where n: "h l = Some n" "next_p n = Some x" using assms(1) x by auto
  from reavsrsel_loop_ok [of h l "[x]" ys fuel] assms x n show ?thesis
    by (auto simp: reavsrsel_def heap_steps)
qed

lemma reavsrsel_2_loop_ok:
  assumes "path h (Some a) (a # xs) None" "path h t ds None" "distinct (ds @ a # xs)" "length xs < fuel"
    "h a = Some n" "p = next_p n"
  shows "\<exists>h' q. reavsrsel_2_loop fuel (Some a) p t h = Inr (q, h') \<and>
           path h' q (rev xs @ a # ds) None \<and> same_vals h h'"
  using assms
proof (induction xs arbitrary: h a t ds fuel n p)
  case Nil
  then obtain f where f: "fuel = Suc f" by (cases fuel) auto
  with Nil show ?case by (auto simp: heap_steps same_vals_upd)
next
  case (Cons x xs)
  then obtain f where f: "fuel = Suc f" by (cases fuel) auto
  obtain m where m: "p = Some x" "h x = Some m" "path h (next_p m) xs None" using Cons.prems by auto
  let ?h = "h(a \<mapsto> n\<lparr>next_p := t\<rparr>)"
  have d: "a \<noteq> x" "a \<notin> set xs" "a \<notin> set ds" using Cons.prems(3) by auto
  have "reavsrsel_2_loop fuel (Some a) p t h = reavsrsel_2_loop f (Some x) (next_p m) (Some a) ?h"
    using f m d Cons.prems(5) by (simp add: heap_steps Let_def)
  moreover have p: "path ?h (Some x) (x # xs) None" "path ?h (Some a) (a # ds) None" "?h x = Some m"
    using Cons.prems m d by simp_all
  have "distinct ((a # ds) @ x # xs)" "length xs < f" using Cons.prems(3,4) f by auto
  from Cons.IH [OF p(1,2) this p(3) refl] obtain h' q where
    "reavsrsel_2_loop f (Some x) (next_p m) (Some a) ?h = Inr (q, h')"
    "path h' q (rev xs @ x # a # ds) None" "same_vals ?h h'"
    by blast
  moreover have "same_vals h ?h" using Cons.prems(5) by (rule same_vals_upd)
  ultimately show ?case using same_vals_trans by auto
qed

lemma reavsrsel_2_ok:
  assumes "path h (Some l) (l # xs) None" "distinct (l # xs)" "length xs < fuel"
  shows "\<exists>h' q. reavsrsel_2 fuel (Some l) h = Inr (q, h') \<and> path h' q (rev xs @ [l]) None \<and> same_vals h h'"
proof -
  obtain n where n: "h l = Some n" using assms(1) by auto
  from reavsrsel_2_loop_ok [OF assms(1), of None "[]" fuel n "next_p n"] assms n show ?thesis
    by (auto simp: reavsrsel_2_def heap_steps)
qed

section \<open>Printing\<close>

lemma print_loop_ok:
  assumes "path h p xs None" "length xs < fuel"
  shows "print_loop fuel p h out = Inr (out @ map (\<lambda>a. val (the (h a))) xs)"
  using assms
proof (induction xs arbitrary: p fuel out)
  case Nil
  then show ?case by (cases fuel) auto
next
  case (Cons a xs)
  then show ?case by (cases fuel) (auto simp: load_def)
qed

lemma same_vals_val: "same_vals h h' \<Longrightarrow> h a \<noteq> None \<Longrightarrow> val (the (h' a)) = val (the (h a))"
proof -
  assume s: "same_vals h h'" and "h a \<noteq> None"
  then obtain n where n: "h a = Some n" by auto
  have "map_option val (h' a) = Some (val n)" using s n unfolding same_vals_def by (metis option.map(2))
  with n show ?thesis by auto
qed

lemma path_mapped: "path h p xs q \<Longrightarrow> a \<in> set xs \<Longrightarrow> h a \<noteq> None"
  by (induction xs arbitrary: p) auto

section \<open>Building\<close>

definition built :: "lheap \<Rightarrow> nat \<Rightarrow> lheap" where
  "built h b =
     h(b \<mapsto> \<lparr>val = None, next_p = Some (b + 1)\<rparr>,
       b + 1 \<mapsto> \<lparr>val = Some 1, next_p = Some (b + 2)\<rparr>, b + 2 \<mapsto> \<lparr>val = Some 2, next_p = Some (b + 3)\<rparr>,
       b + 3 \<mapsto> \<lparr>val = Some 3, next_p = Some (b + 4)\<rparr>, b + 4 \<mapsto> \<lparr>val = Some 4, next_p = Some (b + 5)\<rparr>,
       b + 5 \<mapsto> \<lparr>val = Some 5, next_p = Some (b + 6)\<rparr>, b + 6 \<mapsto> \<lparr>val = Some 6, next_p = Some (b + 7)\<rparr>,
       b + 7 \<mapsto> \<lparr>val = Some 7, next_p = Some (b + 8)\<rparr>, b + 8 \<mapsto> \<lparr>val = Some 8, next_p = Some (b + 9)\<rparr>,
       b + 9 \<mapsto> \<lparr>val = Some 9, next_p = None\<rparr>)"

lemma initlist_loop_step:
  "h p = Some n \<Longrightarrow> p \<noteq> b \<Longrightarrow>
     initlist_loop (Suc k) i p h b =
       initlist_loop k (i + 1) b (h(b \<mapsto> \<lparr>val = Some (int i), next_p = None\<rparr>, p \<mapsto> n\<lparr>next_p := Some b\<rparr>)) (b + 1)"
  by (simp add: list_malloc_def load_def store_next_def Let_def)

lemma initlist_built: "initlist h b = Inr (b, built h b, b + 10)"
  unfolding initlist_def list_malloc_def
  by (simp add: numeral_eq_Suc initlist_loop_step store_next_def built_def fun_eq_iff del: initlist_loop.simps(2))

lemma built_path: "path (built h b) (Some b) (b # map ((+) b) [1..<10]) None"
  by (simp add: built_def upt_rec numeral_eq_Suc)

section \<open>Properties\<close>

text \<open>\<open>reavsrsel\<close> reverses the list behind its header in place: for a list with at
  least one element, and as many rounds as it has elements, the header then leads through the
  same nodes in the opposite order, and every node keeps its value.  It ends for every such
  list and follows no null pointer.\<close>

theorem reavsrsel_reverses:
  assumes "path h (Some l) (l # xs) None" "distinct (l # xs)" "xs \<noteq> []" "length xs \<le> fuel"
  shows "\<exists>h'. reavsrsel fuel (Some l) h = Inr (Some l, h') \<and> path h' (Some l) (l # rev xs) None \<and> same_vals h h'"
  using assms by (rule reavsrsel_ok)

theorem reavsrsel_reverses_witness:
  "\<exists>h'. initlist Map.empty 0 = Inr (0, built Map.empty 0, 10) \<and>
     reavsrsel 9 (Some 0) (built Map.empty 0) = Inr (Some 0, h') \<and>
     path h' (Some 0) (0 # rev [1..<10]) None"
  using reavsrsel_reverses [of "built Map.empty 0" 0 "[1..<10]" 9]
    built_path [of Map.empty 0] initlist_built [of Map.empty 0] by (auto simp: map_idI simp del: path.simps(2))

text \<open>\<open>reavsrsel\<close> reads the link of a null pointer on the empty list, the one whose
  header has no successor.\<close>

theorem reavsrsel_empty_crashes:
  assumes "path h (Some l) [l] None" "0 < fuel"
  shows "reavsrsel fuel (Some l) h = Inl Segv"
  using assms by (cases fuel) (auto simp: reavsrsel_def heap_steps load_next_def load_def)

theorem reavsrsel_empty_crashes_witness:
  "reavsrsel 1 (Some 5) [5 \<mapsto> \<lparr>val = None, next_p = None\<rparr>] = Inl Segv"
  by (rule reavsrsel_empty_crashes) simp_all

text \<open>\<open>main\<close> builds 1 to 9, reverses with \<open>reavsrsel_2\<close> and prints from the second
  node on; since \<open>reavsrsel_2\<close> turns the header round too, the value 9 is skipped and the
  value of the header, never set, is printed last.  This holds for every heap \<open>malloc\<close>
  starts from.\<close>

theorem main_skips_first_and_prints_header:
  "list_main 10 h b = Inr [Some 8, Some 7, Some 6, Some 5, Some 4, Some 3, Some 2, Some 1, None]"
proof -
  let ?xs = "map ((+) b) [1..<10]"
  have "distinct (b # ?xs)" "length ?xs < 10" by (auto simp: distinct_map)
  from reavsrsel_2_ok [OF built_path this] obtain h' q where
    r: "reavsrsel_2 10 (Some b) (built h b) = Inr (q, h')" "path h' q (rev ?xs @ [b]) None" "same_vals (built h b) h'"
    by blast
  let ?ys = "rev (map ((+) b) [1..<9]) @ [b]"
  have "rev ?xs @ [b] = (b + 9) # ?ys" by (simp add: upt_rec numeral_eq_Suc)
  then obtain n where n: "q = Some (b + 9)" "h' (b + 9) = Some n" "path h' (next_p n) ?ys None"
    using r(2) by (auto simp del: rev_map)
  have "map (\<lambda>a. val (the (h' a))) ?ys = map (\<lambda>a. val (the (built h b a))) ?ys"
    by (intro list.map_cong0 same_vals_val [OF r(3)] path_mapped [OF built_path]) auto
  also have "\<dots> = [Some 8, Some 7, Some 6, Some 5, Some 4, Some 3, Some 2, Some 1, None]"
    by (simp add: built_def upt_rec numeral_eq_Suc)
  finally show ?thesis
    using print_loop_ok [OF n(3), of 10 "[]"] r(1) n(1,2)
    by (simp add: list_main_def initlist_built heap_steps)
qed

end
