(* ===== verification/Fibm.thy ===== *)
theory Fibm
  imports Prelude
begin

text \<open>
  \<^verbatim>\<open>src/c_code/algorithem/fib.c\<close>: Fibonacci numbers with a static table of 100 \<open>long\<close>
  entries that is filled as the recursion returns, and the loop of \<open>main\<close> that answers one
  number after another with the same table.  A read outside the table and a sum outside the
  64-bit \<open>long\<close> are errors.  The two recursive calls of the sum run left to right.
\<close>

section \<open>Definitions\<close>

datatype fib_error = OutOfBounds | Overflow

definition LONG_MAX :: int where
  "LONG_MAX = 2 ^ 63 - 1"

function Fib :: "int \<Rightarrow> int list \<Rightarrow> fib_error + int \<times> int list" where
  "Fib n tab =
     (let a = 1 in
      if n \<le> 1 then Inr (a, tab)
      else if length tab \<le> nat n then Inl OutOfBounds
      else if tab ! nat n \<noteq> 0 then Inr (tab ! nat n, tab)
      else
        andthen (Fib (n - 1) tab) (\<lambda>(x, tab).
        andthen (Fib (n - 2) tab) (\<lambda>(y, tab).
        if x + y > LONG_MAX then Inl Overflow
        else let tab = tab[nat n := x + y] in Inr (tab ! nat n, tab))))"
  by pat_completeness auto
termination by (relation "measure (\<lambda>(n, tab). nat n)") auto

declare Fib.simps [simp del]

definition fib_table :: "int list" where
  "fib_table = replicate 100 0"

fun fib_main :: "int list \<Rightarrow> int list \<Rightarrow> fib_error + int list" where
  "fib_main tab [] = Inr []"
| "fib_main tab (n # ns) =
     andthen (Fib n tab) (\<lambda>(x, tab). andthen (fib_main tab ns) (\<lambda>xs. Inr (x # xs)))"

section \<open>Specification\<close>

fun fibs :: "nat \<Rightarrow> int" where
  "fibs 0 = 1"
| "fibs (Suc 0) = 1"
| "fibs (Suc (Suc n)) = fibs (Suc n) + fibs n"

text \<open>What the table holds: nothing, or the right number; never one beyond index 91.\<close>

definition tab_ok :: "int list \<Rightarrow> bool" where
  "tab_ok tab \<longleftrightarrow> length tab = 100 \<and> (\<forall>i<100. tab ! i = 0 \<or> i \<le> 91 \<and> tab ! i = fibs i)"

fun fib_pair :: "nat \<Rightarrow> int \<times> int" where
  "fib_pair 0 = (1, 1)"
| "fib_pair (Suc n) = (case fib_pair n of (a, b) \<Rightarrow> (b, a + b))"

lemma fib_pair_fibs: "fib_pair n = (fibs n, fibs (Suc n))"
  by (induction n) auto

lemma fibs_pos: "0 < fibs n"
  by (induction n rule: fibs.induct) auto

lemma fibs_mono: "m \<le> n \<Longrightarrow> fibs m \<le> fibs n"
proof (induction rule: inc_induct)
  case (step k)
  have "fibs k \<le> fibs (Suc k)" using fibs_pos by (cases k) (auto intro: less_imp_le)
  with step show ?case by simp
qed simp

lemma fibs_91: "fibs 91 = 7540113804746346429" "fibs 92 = 12200160415121876738"
proof -
  have "fib_pair 91 = (7540113804746346429, 12200160415121876738)" by code_simp
  then show "fibs 91 = 7540113804746346429" "fibs 92 = 12200160415121876738"
    using fib_pair_fibs [of 91] by (simp_all del: fibs.simps)
qed

lemma fibs_fits: "n \<le> 91 \<Longrightarrow> fibs n \<le> LONG_MAX"
  using fibs_mono [of n 91] by (simp add: fibs_91 LONG_MAX_def)

lemma fibs_step: "2 \<le> n \<Longrightarrow> fibs n = fibs (n - 1) + fibs (n - 2)"
  by (cases n rule: fibs.cases) auto

lemma tab_okD: "tab_ok tab \<Longrightarrow> length tab = 100"
  "tab_ok tab \<Longrightarrow> i < 100 \<Longrightarrow> tab ! i \<noteq> 0 \<Longrightarrow> i \<le> 91 \<and> tab ! i = fibs i"
  by (auto simp: tab_ok_def)

lemma tab_ok_update: "tab_ok tab \<Longrightarrow> i \<le> 91 \<Longrightarrow> tab_ok (tab[i := fibs i])"
  by (auto simp: tab_ok_def nth_list_update)

section \<open>Correctness\<close>

lemma Fib_small: "n \<le> 1 \<Longrightarrow> Fib n tab = Inr (1, tab)"
  by (simp add: Fib.simps)

lemma Fib_ok:
  "tab_ok tab \<Longrightarrow> k \<le> 91 \<Longrightarrow> \<exists>tab'. Fib (int k) tab = Inr (fibs k, tab') \<and> tab_ok tab'"
proof (induction k arbitrary: tab rule: less_induct)
  case (less k)
  show ?case
  proof (cases "k \<le> 1")
    case True
    then have "fibs k = 1" by (cases k rule: fibs.cases) auto
    with True less.prems show ?thesis by (simp add: Fib_small)
  next
    case False
    note len = tab_okD(1) [OF less.prems(1)]
    show ?thesis
    proof (cases "tab ! k = 0")
      case True
      obtain t1 where t1: "Fib (int (k - 1)) tab = Inr (fibs (k - 1), t1)" "tab_ok t1"
        using less.IH [of "k - 1" tab] less.prems False by force
      obtain t2 where t2: "Fib (int (k - 2)) t1 = Inr (fibs (k - 2), t2)" "tab_ok t2"
        using less.IH [of "k - 2" t1] less.prems t1 False by force
      have sum: "fibs (k - 1) + fibs (k - 2) = fibs k" using False fibs_step [of k] by simp
      have e: "int k - 1 = int (k - 1)" "int k - 2 = int (k - 2)" using False by auto
      have c: "Fib (int k - 1) tab = Inr (fibs (k - 1), t1)" "Fib (int k - 2) t1 = Inr (fibs (k - 2), t2)"
        using t1(1) t2(1) unfolding e by this+
      have "Fib (int k) tab = Inr (fibs k, t2[k := fibs k])"
        using False True len c sum fibs_fits [OF less.prems(2)] tab_okD(1) [OF t2(2)] less.prems(2)
        by (subst Fib.simps) (simp add: Let_def)
      with tab_ok_update [OF t2(2) less.prems(2)] show ?thesis by blast
    next
      case False2: False
      with tab_okD(2) [OF less.prems(1), of k] less.prems False len show ?thesis
        by (subst Fib.simps) simp
    qed
  qed
qed

lemma Fib_overflows:
  "tab_ok tab \<Longrightarrow> 92 \<le> k \<Longrightarrow> k < 100 \<Longrightarrow> Fib (int k) tab = Inl Overflow"
proof (induction k rule: less_induct)
  case (less k)
  have z: "tab ! k = 0" using tab_okD(2) [OF less.prems(1,3)] less.prems(2) by auto
  note len = tab_okD(1) [OF less.prems(1)]
  show ?case
  proof (cases "k = 92")
    case True
    obtain t1 where t1: "Fib 91 tab = Inr (fibs 91, t1)" "tab_ok t1" using Fib_ok [OF less.prems(1), of 91] by auto
    obtain t2 where t2: "Fib 90 t1 = Inr (fibs 90, t2)" using Fib_ok [OF t1(2), of 90] by auto
    have s: "fibs 91 + fibs 90 > LONG_MAX" using fibs_step [of 92] fibs_91 by (simp add: LONG_MAX_def)
    show ?thesis using True z len t1 t2 s by (subst Fib.simps) (simp add: Let_def)
  next
    case False
    then have "Fib (int k - 1) tab = Inl Overflow"
      using less.IH [of "k - 1"] less.prems by (simp add: of_nat_diff)
    with z len less.prems show ?thesis by (subst Fib.simps) (simp add: Let_def)
  qed
qed

lemma Fib_out_of_bounds: "tab_ok tab \<Longrightarrow> 100 \<le> n \<Longrightarrow> Fib n tab = Inl OutOfBounds"
  using tab_okD(1) [of tab] by (subst Fib.simps) auto

lemma fib_main_ok:
  "tab_ok tab \<Longrightarrow> \<forall>n\<in>set ns. n \<le> 91 \<Longrightarrow> fib_main tab ns = Inr (map (\<lambda>n. fibs (nat n)) ns)"
proof (induction ns arbitrary: tab)
  case (Cons n ns)
  show ?case
  proof (cases "n \<le> 1")
    case True
    have "nat n = 0 \<or> nat n = 1" using True by linarith
    then have "fibs (nat n) = 1" by (elim disjE) simp_all
    then show ?thesis using True Cons.IH [OF Cons.prems(1)] Cons.prems(2) by (simp add: Fib_small)
  next
    case False
    then obtain t where "Fib n tab = Inr (fibs (nat n), t)" "tab_ok t"
      using Fib_ok [OF Cons.prems(1), of "nat n"] Cons.prems(2) by force
    with Cons show ?thesis by simp
  qed
qed simp

lemma fib_table_ok: "tab_ok fib_table"
  by (simp add: tab_ok_def fib_table_def)

section \<open>Properties\<close>

text \<open>The program answers any sequence of numbers up to 91 with the Fibonacci numbers of
  the recurrence (both first ones 1, and 1 for negative numbers), whatever the earlier answers
  left in the table.\<close>

theorem fib_program_correct:
  assumes "\<forall>n\<in>set ns. n \<le> 91"
  shows "fib_main fib_table ns = Inr (map (\<lambda>n. fibs (nat n)) ns)"
  using fib_table_ok assms by (rule fib_main_ok)

theorem fib_program_correct_witness: "fib_main fib_table [6, 3, 6, - 4] = Inr [13, 3, 13, 1]"
  using fib_program_correct [of "[6, 3, 6, - 4]"] by (simp add: eval_nat_numeral)

text \<open>With the table of a running program, \<open>Fib\<close> overflows its \<open>long\<close> exactly for the
  numbers 92 to 99 and reads outside its table exactly from 100 on.\<close>

theorem fib_limits:
  assumes "tab_ok tab"
  shows "(Fib n tab = Inl Overflow \<longleftrightarrow> 92 \<le> n \<and> n \<le> 99) \<and>
         (Fib n tab = Inl OutOfBounds \<longleftrightarrow> 100 \<le> n)"
proof -
  consider "n \<le> 1" | "1 < n" "n \<le> 91" | "92 \<le> n" "n \<le> 99" | "100 \<le> n" by linarith
  then show ?thesis
  proof cases
    case 2
    then have "nat n \<le> 91" by simp
    from Fib_ok [OF assms this] 2 show ?thesis by auto
  next
    case 3
    then show ?thesis using Fib_overflows [OF assms, of "nat n"] by auto
  qed (simp_all add: Fib_small Fib_out_of_bounds [OF assms])
qed

theorem fib_limits_witness: "Fib 95 fib_table = Inl Overflow \<and> Fib 100 fib_table = Inl OutOfBounds"
  using fib_limits [OF fib_table_ok, of 95] fib_limits [OF fib_table_ok, of 100] by simp

end
