(* ===== verification/Filters.thy ===== *)
theory Filters
  imports Prelude
begin

text \<open>
  The text filters \<^verbatim>\<open>src/c_code/1-23-rcomment.c\<close> (removes comments from C programs),
  \<^verbatim>\<open>1-24-checkgrammer.c\<close> (checks brackets), \<^verbatim>\<open>1-19-reverse.c\<close> (reverses lines) and
  \<^verbatim>\<open>1-20-detab.c\<close>.  Standard input is the list of the characters still to be read;
  \<open>getchar\<close> at its end gives \<open>None\<close>, the \<open>EOF\<close> of C, again and again.  Several loops never
  end on some inputs: they are partial functions whose value is then \<open>None\<close>.
\<close>

section \<open>Definitions\<close>

definition getchar :: "string \<Rightarrow> char option \<times> string" where
  "getchar inp = (case inp of [] \<Rightarrow> (None, []) | c # cs \<Rightarrow> (Some c, cs))"

text \<open>\<open>putchar(EOF)\<close> writes the byte 255.\<close>

definition putchar :: "char option \<Rightarrow> string \<Rightarrow> string" where
  "putchar c out = out @ [case c of Some c \<Rightarrow> c | None \<Rightarrow> CHR 0xFF]"

subsection \<open>Removing comments\<close>

partial_function (option) in_comment_loop :: "char option \<Rightarrow> char option \<Rightarrow> string \<Rightarrow> string option" where
  "in_comment_loop c d inp =
     (if c \<noteq> Some (CHR ''*'') \<or> d \<noteq> Some (CHR ''/'')
      then (case getchar inp of (e, inp) \<Rightarrow> in_comment_loop d e inp)
      else Some inp)"

definition in_comment :: "string \<Rightarrow> string option" where
  "in_comment inp =
     (case getchar inp of (c, inp) \<Rightarrow> case getchar inp of (d, inp) \<Rightarrow> in_comment_loop c d inp)"

partial_function (option) echo_quote_loop :: "char \<Rightarrow> string \<Rightarrow> string \<Rightarrow> (string \<times> string) option" where
  "echo_quote_loop c inp out =
     (case getchar inp of (d, inp) \<Rightarrow>
      if d \<noteq> Some c then
        (let out = putchar d out in
         if d = Some (CHR 0x5C)
         then (case getchar inp of (e, inp) \<Rightarrow> echo_quote_loop c inp (putchar e out))
         else echo_quote_loop c inp out)
      else Some (inp, putchar d out))"

definition echo_quote :: "char \<Rightarrow> string \<Rightarrow> string \<Rightarrow> (string \<times> string) option" where
  "echo_quote c inp out = echo_quote_loop c inp (putchar (Some c) out)"

partial_function (option) rcomment :: "char \<Rightarrow> string \<Rightarrow> string \<Rightarrow> (string \<times> string) option" where
  "rcomment c inp out =
     (if c = CHR ''/'' then
        (case getchar inp of (d, inp) \<Rightarrow>
         if d = Some (CHR ''*'') then Option.bind (in_comment inp) (\<lambda>inp. Some (inp, out))
         else if d = Some (CHR ''/'') then rcomment (CHR ''/'') inp (putchar (Some c) out)
         else Some (inp, putchar d (putchar (Some c) out)))
      else if c = CHR 0x27 \<or> c = CHR 0x22 then echo_quote c inp out
      else Some (inp, putchar (Some c) out))"

partial_function (option) rcomment_main :: "string \<Rightarrow> string \<Rightarrow> string option" where
  "rcomment_main inp out =
     (case getchar inp of
        (None, inp) \<Rightarrow> Some out
      | (Some c, inp) \<Rightarrow> Option.bind (rcomment c inp out) (\<lambda>(inp, out). rcomment_main inp out))"

subsection \<open>Checking brackets\<close>

record counters =
  brace :: int
  brack :: int
  paren :: int

definition search :: "char option \<Rightarrow> counters \<Rightarrow> counters" where
  "search c s =
     (if c = Some (CHR ''{'') then s\<lparr>brace := brace s + 1\<rparr>
      else if c = Some (CHR ''}'') then s\<lparr>brace := brace s - 1\<rparr>
      else if c = Some (CHR ''['') then s\<lparr>brack := brack s + 1\<rparr>
      else if c = Some (CHR '']'') then s\<lparr>brack := brack s - 1\<rparr>
      else if c = Some (CHR ''('') then s\<lparr>paren := paren s + 1\<rparr>
      else if c = Some (CHR '')'') then s\<lparr>paren := paren s - 1\<rparr>
      else s)"

partial_function (option) cg_comment_loop :: "char option \<Rightarrow> char option \<Rightarrow> string \<Rightarrow> string option" where
  "cg_comment_loop c d inp =
     (if c \<noteq> Some (CHR ''*'') \<or> d \<noteq> Some (CHR ''/'')
      then (case getchar inp of (e, inp) \<Rightarrow> cg_comment_loop d e inp)
      else Some inp)"

definition cg_in_comment :: "string \<Rightarrow> string option" where
  "cg_in_comment inp =
     (case getchar inp of (c, inp) \<Rightarrow> case getchar inp of (d, inp) \<Rightarrow> cg_comment_loop c d inp)"

partial_function (option) in_quote :: "char \<Rightarrow> string \<Rightarrow> string option" where
  "in_quote c inp =
     (case getchar inp of (d, inp) \<Rightarrow>
      if d \<noteq> Some c then
        (if d = Some (CHR 0x5C) then (case getchar inp of (e, inp) \<Rightarrow> in_quote c inp)
         else in_quote c inp)
      else Some inp)"

text \<open>One round of \<open>main\<close> up to the tests for negative counters, and those tests.\<close>

definition cg_char :: "char \<Rightarrow> string \<Rightarrow> counters \<Rightarrow> (string \<times> counters) option" where
  "cg_char c inp s =
     (if c = CHR ''/'' then
        (case getchar inp of (c, inp) \<Rightarrow>
         if c = Some (CHR ''*'') then Option.bind (cg_in_comment inp) (\<lambda>inp. Some (inp, s))
         else Some (inp, search c s))
      else if c = CHR ''/'' \<or> c = CHR 0x22 then Option.bind (in_quote c inp) (\<lambda>inp. Some (inp, s))
      else Some (inp, search (Some c) s))"

definition cg_negative :: "counters \<Rightarrow> string list \<Rightarrow> counters \<times> string list" where
  "cg_negative s out =
     (if brace s < 0 then (s\<lparr>brace := 0\<rparr>, out @ [''unbalanced braces 1 '' @ [NL]])
      else if brack s < 0 then (s\<lparr>brack := 0\<rparr>, out @ [''unbalanced bracks 1 '' @ [NL]])
      else if paren s < 0 then (s\<lparr>paren := 0\<rparr>, out @ [''unbalanced paren 1 '' @ [NL]])
      else (s, out))"

definition cg_final :: "counters \<Rightarrow> string list \<Rightarrow> string list" where
  "cg_final s out =
     out @ (if brace s > 0 then [''unbalanced braces '' @ [NL]] else [])
         @ (if brack s > 0 then [''unbalanced bracks '' @ [NL]] else [])
         @ (if paren s > 0 then [''unbalanced paren '' @ [NL]] else [])"

partial_function (option) cg_loop :: "string \<Rightarrow> counters \<Rightarrow> string list \<Rightarrow> string list option" where
  "cg_loop inp s out =
     (case getchar inp of
        (None, inp) \<Rightarrow> Some (cg_final s out)
      | (Some c, inp) \<Rightarrow>
          Option.bind (cg_char c inp s) (\<lambda>(inp, s).
          case cg_negative s out of (s, out) \<Rightarrow> cg_loop inp s out))"

definition checkgrammer :: "string \<Rightarrow> string list option" where
  "checkgrammer inp = cg_loop inp \<lparr>brace = 0, brack = 0, paren = 0\<rparr> []"

subsection \<open>Reversing lines\<close>

datatype buffer_error = BadIndex int

text \<open>\<open>reverse\<close> works in the buffer; an index outside it is an error.\<close>

definition buf_get :: "string \<Rightarrow> int \<Rightarrow> buffer_error + char" where
  "buf_get s i = (if 0 \<le> i \<and> nat i < length s then Inr (s ! nat i) else Inl (BadIndex i))"

definition buf_set :: "string \<Rightarrow> int \<Rightarrow> char \<Rightarrow> buffer_error + string" where
  "buf_set s i c = (if 0 \<le> i \<and> nat i < length s then Inr (s[nat i := c]) else Inl (BadIndex i))"

function find_nul :: "string \<Rightarrow> int \<Rightarrow> buffer_error + int" where
  "find_nul s i =
     (if 0 \<le> i \<and> nat i < length s
      then if s ! nat i \<noteq> NUL then find_nul s (i + 1) else Inr i
      else Inl (BadIndex i))"
  by pat_completeness auto
termination by (relation "measure (\<lambda>(s, i). length s - nat i)") auto

declare find_nul.simps [simp del]

function swap_loop :: "string \<Rightarrow> int \<Rightarrow> int \<Rightarrow> buffer_error + string" where
  "swap_loop s j i =
     (if j < i then
        andthen (buf_get s j) (\<lambda>temp.
        andthen (buf_get s i) (\<lambda>c.
        andthen (buf_set s j c) (\<lambda>s.
        andthen (buf_set s i temp) (\<lambda>s.
        swap_loop s (j + 1) (i - 1)))))
      else Inr s)"
  by pat_completeness auto
termination by (relation "measure (\<lambda>(s, j, i). nat (i - j))") auto

declare swap_loop.simps [simp del]

definition reverse :: "string \<Rightarrow> buffer_error + string" where
  "reverse s =
     andthen (find_nul s 0) (\<lambda>i.
     let i = i - 1 in
     andthen (buf_get s i) (\<lambda>c.
     let i = (if c = NL then i - 1 else i) in
     swap_loop s 0 i))"

text \<open>\<open>getline\<close>: the local \<open>j\<close> is not initialised; \<open>j0\<close> stands for the value it happens
  to have.  The result is the number of characters of the line, the buffer and the rest of the
  input.\<close>

fun getline_loop ::
  "string \<Rightarrow> int \<Rightarrow> string \<Rightarrow> int \<Rightarrow> int \<Rightarrow> buffer_error + char option \<times> string \<times> int \<times> int \<times> string" where
  "getline_loop [] lim line i j = Inr (None, line, i, j, [])"
| "getline_loop (c # inp) lim line i j =
     (if c = NL then Inr (Some c, line, i, j, inp)
      else if i < lim - 2
      then andthen (buf_set line j c) (\<lambda>line. getline_loop inp lim line (i + 1) (j + 1))
      else getline_loop inp lim line (i + 1) j)"

definition getline :: "int \<Rightarrow> string \<Rightarrow> string \<Rightarrow> int \<Rightarrow> buffer_error + int \<times> string \<times> string" where
  "getline j0 inp line lim =
     andthen (getline_loop inp lim line 0 j0) (\<lambda>(c, line, i, j, inp).
     andthen (if c = Some NL
              then andthen (buf_set line j NL) (\<lambda>line. Inr (line, i + 1, j + 1))
              else Inr (line, i, j)) (\<lambda>(line, i, j).
     andthen (buf_set line j NUL) (\<lambda>line. Inr (i, line, inp))))"

subsection \<open>Blanks to tabs\<close>

definition TABINC :: int where
  "TABINC = 8"

text \<open>The condition \<open>c = ' '\<close> is an assignment.\<close>

fun detab :: "string \<Rightarrow> int \<Rightarrow> nat \<Rightarrow> nat \<Rightarrow> string \<Rightarrow> string" where
  "detab [] pos nb nt out = out"
| "detab (c # inp) pos nb nt out =
     (let c = CHR '' '' in
      if c \<noteq> NUL then
        (if pos mod TABINC \<noteq> 0 then detab inp (pos + 1) (nb + 1) nt out
         else detab inp (pos + 1) 0 (nt + 1) out)
      else
        (let out = out @ replicate nt (CHR 0x09); nt = 0;
             (nb, out) = (if c = CHR 0x09 then (0, out) else (0, out @ replicate nb (CHR '' '')));
             out = putchar (Some c) out;
             pos = (if c = NL then 0
                    else if c = CHR 0x09 then pos + (TABINC - (pos - 1) mod TABINC) - 1 else pos)
         in detab inp (pos + 1) nb nt out))"

definition detab_main :: "string \<Rightarrow> string" where
  "detab_main inp = detab inp 1 0 0 []"

end
