(* ===== verification/Filters_Props.thy ===== *)
theory Filters_Props
  imports Filters
begin

text \<open>
  What the filters compute.  The text of a program is described as a sequence of pieces
  (comments, quoted parts, single characters); \<open>src\<close> writes the pieces out.  The theorems
  say what \<open>rcomment\<close> keeps of them and which of their brackets \<open>checkgrammer\<close> counts, and
  that an unfinished comment makes the filters run for ever.
\<close>

section \<open>Pieces of a program text\<close>

datatype piece = Comment string | Quote char string | Plain char | Slash char | Slash_next

fun src :: "piece \<Rightarrow> string" where
  "src (Comment b) = ''/*'' @ b @ ''*/''"
| "src (Quote q b) = q # b @ [q]"
| "src (Plain c) = [c]"
| "src (Slash d) = [CHR ''/'', d]"
| "src Slash_next = [CHR ''/'']"

text \<open>No \<open>*/\<close> occurs in the text.\<close>

fun no_close :: "string \<Rightarrow> bool" where
  "no_close (c # d # s) \<longleftrightarrow> \<not> (c = CHR ''*'' \<and> d = CHR ''/'') \<and> no_close (d # s)"
| "no_close s \<longleftrightarrow> True"

text \<open>A quoted text: a backslash takes the next character with it, and the quote does not occur
  unescaped.\<close>

fun quote_body :: "char \<Rightarrow> string \<Rightarrow> bool" where
  "quote_body q [] \<longleftrightarrow> True"
| "quote_body q (c # s) \<longleftrightarrow>
     c \<noteq> q \<and> (if c = CHR 0x5C then (case s of [] \<Rightarrow> False | d # s \<Rightarrow> quote_body q s) else quote_body q s)"

text \<open>The texts \<open>rcomment\<close> reads piece by piece: after a slash comes a star, a character
  other than star, slash and the two quotes, or the slash of the next piece.\<close>

fun slash_first :: "piece list \<Rightarrow> bool" where
  "slash_first (Comment b # ps) = True"
| "slash_first (Slash d # ps) = True"
| "slash_first (Slash_next # ps) = True"
| "slash_first ps = False"

fun rc_text :: "piece list \<Rightarrow> bool" where
  "rc_text [] \<longleftrightarrow> True"
| "rc_text (Comment b # ps) \<longleftrightarrow> no_close (b @ ''*'') \<and> rc_text ps"
| "rc_text (Quote q b # ps) \<longleftrightarrow> (q = CHR 0x27 \<or> q = CHR 0x22) \<and> quote_body q b \<and> rc_text ps"
| "rc_text (Plain c # ps) \<longleftrightarrow> c \<noteq> CHR ''/'' \<and> c \<noteq> CHR 0x27 \<and> c \<noteq> CHR 0x22 \<and> rc_text ps"
| "rc_text (Slash d # ps) \<longleftrightarrow>
     d \<noteq> CHR ''*'' \<and> d \<noteq> CHR ''/'' \<and> d \<noteq> CHR 0x27 \<and> d \<noteq> CHR 0x22 \<and> rc_text ps"
| "rc_text (Slash_next # ps) \<longleftrightarrow> slash_first ps \<and> rc_text ps"

fun kept :: "piece \<Rightarrow> string" where
  "kept (Comment b) = []"
| "kept p = src p"

section \<open>Reading comments and quotes\<close>

lemma getchar_simps [simp]:
  "getchar [] = (None, [])" "getchar (c # cs) = (Some c, cs)"
  by (simp_all add: getchar_def)

lemma putchar_Some [simp]: "putchar (Some c) out = out @ [c]"
  by (simp add: putchar_def)

lemma no_close_Cons: "no_close (c # s) \<Longrightarrow> no_close s"
  by (cases s) auto

lemma in_comment_loop_closed:
  "no_close (c # d # s @ ''*'') \<Longrightarrow> in_comment_loop (Some c) (Some d) (s @ ''*/'' @ rest) = Some rest"
proof (induction s arbitrary: c d)
  case Nil
  then show ?case by (simp add: in_comment_loop.simps)
next
  case (Cons e s)
  then have "\<not> (c = CHR ''*'' \<and> d = CHR ''/'')" by simp
  then have "in_comment_loop (Some c) (Some d) ((e # s) @ ''*/'' @ rest) =
      in_comment_loop (Some d) (Some e) (s @ ''*/'' @ rest)"
    by (subst in_comment_loop.simps) auto
  with Cons.IH [of d e] Cons.prems show ?case by simp
qed

lemma in_comment_closed: "no_close (b @ ''*'') \<Longrightarrow> in_comment (b @ ''*/'' @ rest) = Some rest"
  by (cases b rule: no_close.cases)
    (auto simp: in_comment_def in_comment_loop_closed [simplified] in_comment_loop.simps [of _ _ "_ # _"]
      in_comment_loop.simps [of _ "Some (CHR ''/'')" rest])

definition read_chars :: "char option \<Rightarrow> string" where
  "read_chars c = (case c of None \<Rightarrow> [] | Some c \<Rightarrow> [c])"

lemmas in_comment_loop_induct = in_comment_loop.raw_induct [rotated, consumes 1, case_names step]
lemmas cg_comment_loop_induct = cg_comment_loop.raw_induct [rotated, consumes 1, case_names step]

lemma in_comment_loop_returns:
  "in_comment_loop c d inp = Some r \<Longrightarrow> \<not> no_close (read_chars c @ read_chars d @ inp)"
proof (induction rule: in_comment_loop_induct)
  case (step f c d inp y)
  show ?case
  proof (cases "c = Some (CHR ''*'') \<and> d = Some (CHR ''/'')")
    case True
    then show ?thesis by (simp add: read_chars_def)
  next
    case False
    with step(2) have "f d (fst (getchar inp)) (snd (getchar inp)) = Some y" by (auto split: prod.splits)
    then have "\<not> no_close (read_chars d @ read_chars (fst (getchar inp)) @ snd (getchar inp))" by (rule step(1))
    then have "\<not> no_close (read_chars d @ inp)" by (cases inp) (auto simp: read_chars_def)
    then show ?thesis by (cases c) (auto simp: read_chars_def dest: no_close_Cons)
  qed
qed

lemma in_comment_open: "no_close s \<Longrightarrow> in_comment s = None"
proof (rule ccontr)
  assume n: "no_close s" and "in_comment s \<noteq> None"
  then obtain r where "in_comment_loop (fst (getchar s)) (fst (getchar (snd (getchar s)))) (snd (getchar (snd (getchar s)))) = Some r"
    by (auto simp: in_comment_def split: prod.splits)
  from in_comment_loop_returns [OF this] n show False
    by (cases s rule: no_close.cases) (auto simp: read_chars_def)
qed

lemma echo_quote_loop_body:
  "quote_body q b \<Longrightarrow> q \<noteq> CHR 0x5C \<Longrightarrow>
     echo_quote_loop q (b @ q # rest) out = Some (rest, out @ b @ [q])"
proof (induction q b arbitrary: out rule: quote_body.induct)
  case (1 q)
  then show ?case by (simp add: echo_quote_loop.simps)
next
  case (2 q c s)
  then show ?case by (cases s) (auto simp: echo_quote_loop.simps [of q "c # _"] Let_def)
qed

section \<open>Removing comments\<close>

lemma rcomment_main_Cons:
  "rcomment_main (c # inp) out = Option.bind (rcomment c inp out) (\<lambda>(inp, out). rcomment_main inp out)"
  by (subst rcomment_main.simps) simp

lemma rcomment_main_Nil: "rcomment_main [] out = Some out"
  by (subst rcomment_main.simps) simp

lemma rcomment_main_slashes:
  "rcomment_main (CHR ''/'' # CHR ''/'' # inp) out = rcomment_main (CHR ''/'' # inp) (out @ ''/'')"
  by (simp add: rcomment_main_Cons rcomment.simps [of _ "_ # inp"])

lemma slash_first_src: "slash_first ps \<Longrightarrow> \<exists>s. concat (map src ps) = CHR ''/'' # s"
  by (cases ps rule: slash_first.cases) auto

lemma rcomment_pieces:
  "rc_text ps \<Longrightarrow> rcomment_main (concat (map src ps) @ rest) out = rcomment_main rest (out @ concat (map kept ps))"
proof (induction ps arbitrary: out rule: rc_text.induct)
  case (2 b ps)
  have "in_comment (b @ ''*/'' @ concat (map src ps) @ rest) = Some (concat (map src ps) @ rest)"
    using 2 by (intro in_comment_closed) simp
  with 2 show ?case by (simp add: rcomment_main_Cons rcomment.simps)
next
  case (3 q b ps)
  then have "q \<noteq> CHR 0x5C" "q \<noteq> CHR ''/''" by auto
  with 3 echo_quote_loop_body [of q b "concat (map src ps) @ rest" "out @ [q]"] show ?case
    by (simp add: rcomment_main_Cons rcomment.simps echo_quote_def)
next
  case (6 ps)
  then obtain s where "concat (map src ps) = CHR ''/'' # s" using slash_first_src by auto
  with 6 show ?case by (simp add: rcomment_main_slashes)
qed (simp_all add: rcomment_main_Cons rcomment.simps)

section \<open>Checking brackets\<close>

text \<open>The texts \<open>checkgrammer\<close> reads piece by piece: a slash is not followed by a double
  quote, and two slashes are not followed by a star.  A single quote is a character like any
  other.\<close>

fun cg_text :: "piece list \<Rightarrow> bool" where
  "cg_text [] \<longleftrightarrow> True"
| "cg_text (Comment b # ps) \<longleftrightarrow> no_close (b @ ''*'') \<and> cg_text ps"
| "cg_text (Quote q b # ps) \<longleftrightarrow> q = CHR 0x22 \<and> quote_body q b \<and> cg_text ps"
| "cg_text (Plain c # ps) \<longleftrightarrow> c \<noteq> CHR ''/'' \<and> c \<noteq> CHR 0x22 \<and> cg_text ps"
| "cg_text (Slash d # ps) \<longleftrightarrow>
     d \<noteq> CHR ''*'' \<and> d \<noteq> CHR 0x22 \<and> \<not> (d = CHR ''/'' \<and> take 1 ps = [Plain (CHR ''*'')]) \<and> cg_text ps"
| "cg_text (Slash_next # ps) \<longleftrightarrow> False"

text \<open>The characters whose brackets are counted.\<close>

fun visible :: "piece \<Rightarrow> string" where
  "visible (Plain c) = [c]"
| "visible (Slash d) = [d]"
| "visible p = []"

text \<open>One kind of bracket is balanced when \<open>n\<close> of them are open.\<close>

fun balanced :: "char \<Rightarrow> char \<Rightarrow> int \<Rightarrow> string \<Rightarrow> bool" where
  "balanced l r n [] \<longleftrightarrow> n = 0"
| "balanced l r n (c # s) \<longleftrightarrow>
     (if c = l then balanced l r (n + 1) s
      else if c = r then 0 < n \<and> balanced l r (n - 1) s
      else balanced l r n s)"

text \<open>The brackets match: \<open>st\<close> holds the closing brackets that are still expected, the
  innermost first.\<close>

definition closing :: "char \<Rightarrow> char option" where
  "closing c =
     (if c = CHR ''{'' then Some (CHR ''}'') else if c = CHR ''['' then Some (CHR '']'')
      else if c = CHR ''('' then Some (CHR '')'') else None)"

fun matched :: "string \<Rightarrow> string \<Rightarrow> bool" where
  "matched st [] \<longleftrightarrow> st = []"
| "matched st (c # s) \<longleftrightarrow>
     (case closing c of
        Some r \<Rightarrow> matched (r # st) s
      | None \<Rightarrow>
          if c \<in> {CHR ''}'', CHR '']'', CHR '')''} then st \<noteq> [] \<and> hd st = c \<and> matched (tl st) s
          else matched st s)"

definition counts_ok :: "counters \<Rightarrow> bool" where
  "counts_ok s \<longleftrightarrow> 0 \<le> brace s \<and> 0 \<le> brack s \<and> 0 \<le> paren s"

fun cg_visible :: "string \<Rightarrow> counters \<Rightarrow> string list \<Rightarrow> string list" where
  "cg_visible [] s out = cg_final s out"
| "cg_visible (c # cs) s out = (case cg_negative (search (Some c) s) out of (s, out) \<Rightarrow> cg_visible cs s out)"

lemma cg_comment_eq: "cg_in_comment = in_comment"
proof -
  have "cg_comment_loop c d inp = Some r \<Longrightarrow> in_comment_loop c d inp = Some r" for c d inp r
  proof (induction rule: cg_comment_loop_induct)
    case (step f c d inp y)
    then show ?case by (subst in_comment_loop.simps) (auto split: if_splits prod.splits)
  qed
  moreover have "in_comment_loop c d inp = Some r \<Longrightarrow> cg_comment_loop c d inp = Some r" for c d inp r
  proof (induction rule: in_comment_loop_induct)
    case (step f c d inp y)
    then show ?case by (subst cg_comment_loop.simps) (auto split: if_splits prod.splits)
  qed
  ultimately have "cg_comment_loop c d inp = in_comment_loop c d inp" for c d inp
    by (metis option.exhaust)
  then show ?thesis by (auto simp: fun_eq_iff cg_in_comment_def in_comment_def)
qed

lemma in_quote_body: "quote_body q b \<Longrightarrow> q \<noteq> CHR 0x5C \<Longrightarrow> in_quote q (b @ q # rest) = Some rest"
proof (induction q b rule: quote_body.induct)
  case (1 q)
  then show ?case by (simp add: in_quote.simps)
next
  case (2 q c s)
  then show ?case by (cases s) (auto simp: in_quote.simps [of q "c # _"])
qed

lemma cg_negative_ok: "counts_ok s \<Longrightarrow> cg_negative s out = (s, out)"
  by (simp add: cg_negative_def counts_ok_def)

lemma counts_ok_step: "counts_ok s \<Longrightarrow> counts_ok (fst (cg_negative (search c s) out))"
  by (auto simp: cg_negative_def search_def counts_ok_def)

lemma cg_loop_Cons:
  "cg_loop (c # inp) s out =
     Option.bind (cg_char c inp s) (\<lambda>(inp, s). case cg_negative s out of (s, out) \<Rightarrow> cg_loop inp s out)"
  by (subst cg_loop.simps) simp

lemma cg_loop_pieces:
  "cg_text ps \<Longrightarrow> counts_ok s \<Longrightarrow>
     cg_loop (concat (map src ps)) s out = Some (cg_visible (concat (map visible ps)) s out)"
proof (induction ps arbitrary: s out rule: cg_text.induct)
  case 1
  then show ?case by (simp add: cg_loop.simps)
next
  case (2 b ps)
  then show ?case
    using in_comment_closed [of b "concat (map src ps)"]
    by (simp add: cg_loop_Cons cg_char_def cg_comment_eq cg_negative_ok)
next
  case (3 q b ps)
  then have "in_quote q (b @ q # concat (map src ps)) = Some (concat (map src ps))"
    by (intro in_quote_body) auto
  with 3 show ?case by (auto simp: cg_loop_Cons cg_char_def cg_negative_ok)
next
  case (4 c ps)
  with counts_ok_step [OF 4(3), of "Some c" out] show ?case
    by (auto simp: cg_loop_Cons cg_char_def split: prod.splits)
next
  case (5 d ps)
  with counts_ok_step [OF 5(3), of "Some d" out] show ?case
    by (auto simp: cg_loop_Cons cg_char_def split: prod.splits)
qed simp

text \<open>Text whose brackets match is balanced in each kind.\<close>

lemma matched_balanced:
  "matched st s \<Longrightarrow> r \<in> {CHR ''}'', CHR '']'', CHR '')''} \<Longrightarrow> closing l = Some r \<Longrightarrow>
     balanced l r (int (count_list st r)) s"
proof (induction st s rule: matched.induct)
  case (2 st c s)
  then show ?case by (cases st) (auto simp: closing_def add.commute split: if_splits)
qed simp

lemma cg_visible_grows: "out \<noteq> [] \<Longrightarrow> cg_visible cs s out \<noteq> []"
  by (induction cs arbitrary: s out) (auto simp: cg_final_def cg_negative_def split: prod.splits if_splits)

lemma cg_visible_silent:
  "counts_ok s \<Longrightarrow>
     cg_visible cs s [] = [] \<longleftrightarrow>
       balanced (CHR ''{'') (CHR ''}'') (brace s) cs \<and> balanced (CHR ''['') (CHR '']'') (brack s) cs \<and>
       balanced (CHR ''('') (CHR '')'') (paren s) cs"
proof (induction cs arbitrary: s)
  case Nil
  then show ?case by (auto simp: cg_final_def counts_ok_def)
next
  case (Cons c cs)
  let ?t = "search (Some c) s"
  show ?case
  proof (cases "counts_ok ?t")
    case True
    then have "cg_visible (c # cs) s [] = cg_visible cs ?t []" by (simp add: cg_negative_ok)
    with Cons.IH [OF True] True Cons.prems show ?thesis by (auto simp: search_def counts_ok_def)
  next
    case False
    then have "cg_visible (c # cs) s [] \<noteq> []"
      by (auto simp: cg_negative_def counts_ok_def cg_visible_grows)
    moreover have "\<not> (balanced (CHR ''{'') (CHR ''}'') (brace s) (c # cs) \<and>
        balanced (CHR ''['') (CHR '']'') (brack s) (c # cs) \<and> balanced (CHR ''('') (CHR '')'') (paren s) (c # cs))"
      using False Cons.prems by (auto simp: search_def counts_ok_def split: if_splits)
    ultimately show ?thesis by blast
  qed
qed

section \<open>Reversing lines\<close>

lemma buf_get_here: "i = int (length a) \<Longrightarrow> buf_get (a @ c # b) i = Inr c"
  by (simp add: buf_get_def)

lemma buf_set_here: "i = int (length a) \<Longrightarrow> buf_set (a @ c # b) i d = Inr (a @ d # b)"
  by (simp add: buf_set_def)

lemma find_nul_ok: "NUL \<notin> set s \<Longrightarrow> find_nul (a @ s @ NUL # b) (int (length a)) = Inr (int (length a + length s))"
proof (induction s arbitrary: a)
  case Nil
  then show ?case by (subst find_nul.simps) (simp add: nat_add_distrib)
next
  case (Cons c s)
  have "find_nul (a @ (c # s) @ NUL # b) (int (length a)) = find_nul ((a @ [c]) @ s @ NUL # b) (int (length (a @ [c])))"
    using Cons.prems by (subst find_nul.simps) (auto simp: nth_append add.commute)
  with Cons.IH [of "a @ [c]"] Cons.prems show ?case by simp
qed

lemma swap_loop_ok:
  "swap_loop (a @ m @ b) (int (length a)) (int (length a + length m) - 1) = Inr (a @ rev m @ b)"
proof (induction "length m" arbitrary: a m b rule: less_induct)
  case less
  consider "m = []" | x where "m = [x]" | x n y where "m = x # n @ [y]"
    by (metis list.exhaust rev_exhaust)
  then show ?case
  proof cases
    case 3
    let ?i = "1 + (int (length a) + int (length n))"
    have "buf_get (a @ x # n @ y # b) (int (length a)) = Inr x" "buf_get (a @ x # n @ y # b) ?i = Inr y"
      "buf_set (a @ x # n @ y # b) (int (length a)) y = Inr (a @ y # n @ y # b)"
      "buf_set (a @ y # n @ y # b) ?i x = Inr (a @ y # n @ x # b)"
      using buf_get_here [of _ a x "n @ y # b"] buf_get_here [of ?i "a @ x # n" y b]
        buf_set_here [of _ a x "n @ y # b" y] buf_set_here [of ?i "a @ y # n" y b x] by simp_all
    then have "swap_loop (a @ m @ b) (int (length a)) (int (length a + length m) - 1) =
        swap_loop ((a @ [y]) @ n @ (x # b)) (int (length (a @ [y]))) (int (length (a @ [y]) + length n) - 1)"
      using 3 by (subst swap_loop.simps) (simp add: algebra_simps)
    with less [of n "a @ [y]" "x # b"] 3 show ?thesis by simp
  qed (subst swap_loop.simps, simp)+
qed

text \<open>The line without its final newline, reversed, and the newline back at the end.\<close>

definition reversed :: "string \<Rightarrow> string" where
  "reversed s = (if last s = NL then rev (butlast s) @ [NL] else rev s)"

lemma reverse_ok:
  assumes "NUL \<notin> set s" "s \<noteq> []"
  shows "reverse (s @ NUL # b) = Inr (reversed s @ NUL # b)"
proof -
  obtain t c where s: "s = t @ [c]" using assms(2) by (cases s rule: rev_cases) auto
  have f: "find_nul (t @ c # NUL # b) 0 = Inr (1 + int (length t))"
    using find_nul_ok [OF assms(1), of "[]" b] s by (simp add: add.commute)
  have g: "buf_get (t @ c # NUL # b) (int (length t)) = Inr c" by (simp add: buf_get_def)
  show ?thesis
    using swap_loop_ok [of "[]" t "c # NUL # b"] swap_loop_ok [of "[]" "t @ [c]" "NUL # b"] f g
    by (cases "c = NL") (simp_all add: s reverse_def Let_def reversed_def)
qed

lemma getline_loop_ok:
  assumes "NL \<notin> set l" "length a = min i m" "length a + length b = m + 2" "rest = [] \<or> hd rest = NL"
  shows "getline_loop (l @ rest) (int m + 2) (a @ b) (int i) (int (length a)) =
           Inr (if rest = [] then None else Some NL, a @ take (m - i) l @ drop (min (m - i) (length l)) b,
             int (i + length l), int (length a + min (m - i) (length l)), tl rest)"
  using assms
proof (induction l arbitrary: a b i)
  case Nil
  then show ?case by (cases rest) auto
next
  case (Cons c l)
  show ?case
  proof (cases "i < m")
    case True
    then obtain x b' where b: "b = x # b'" using Cons.prems by (cases b) auto
    have n: "m - i = Suc (m - Suc i)" using True by simp
    have "getline_loop ((c # l) @ rest) (int m + 2) (a @ b) (int i) (int (length a)) =
        getline_loop (l @ rest) (int m + 2) ((a @ [c]) @ b') (int (Suc i)) (int (length (a @ [c])))"
      using True Cons.prems(1) b by (auto simp: buf_set_here add.commute)
    also have "\<dots> = Inr (if rest = [] then None else Some NL,
        (a @ [c]) @ take (m - Suc i) l @ drop (min (m - Suc i) (length l)) b',
        int (Suc i + length l), int (length (a @ [c]) + min (m - Suc i) (length l)), tl rest)"
      using Cons.prems True b by (intro Cons.IH) auto
    finally show ?thesis using n b by simp
  next
    case False
    have "getline_loop ((c # l) @ rest) (int m + 2) (a @ b) (int i) (int (length a)) =
        getline_loop (l @ rest) (int m + 2) (a @ b) (int (Suc i)) (int (length a))"
      using False Cons.prems(1) by (auto simp: add.commute)
    with Cons.IH [of a "Suc i" b] Cons.prems False show ?thesis by simp
  qed
qed

lemma getline_ok:
  assumes "NL \<notin> set l" "length line = m + 2" "rest = [] \<or> hd rest = NL"
  shows "\<exists>b. getline 0 (l @ rest) line (int m + 2) =
           Inr (int (length l + (if rest = [] then 0 else 1)),
             take m l @ (if rest = [] then [] else [NL]) @ NUL # b, tl rest) \<and>
           length (take m l @ (if rest = [] then [] else [NL]) @ NUL # b) = m + 2"
proof -
  let ?k = "min m (length l)"
  have L: "getline_loop (l @ rest) (int m + 2) line 0 0 =
      Inr (if rest = [] then None else Some NL, take m l @ drop ?k line, int (length l), int ?k, tl rest)"
    using getline_loop_ok [of l "[]" 0 m line rest] assms by simp
  have "2 \<le> length (drop ?k line)" using assms(2) by simp
  then obtain x y b where d: "drop ?k line = x # y # b"
    by (cases "drop ?k line"; cases "tl (drop ?k line)") (auto simp del: drop_eq_Nil)
  have len: "length b + ?k = m" using arg_cong [OF d, of length] assms(2) by simp
  have k: "int ?k = int (length (take m l))" by (simp add: min.commute)
  show ?thesis
  proof (cases "rest = []")
    case True
    then have "getline 0 (l @ rest) line (int m + 2) = Inr (int (length l), take m l @ NUL # y # b, tl rest)"
      using L by (simp add: getline_def d k buf_set_here del: length_take)
    with True len show ?thesis by (intro exI [of _ "y # b"]) simp
  next
    case False
    have "buf_set (take m l @ NL # y # b) (int (length (take m l)) + 1) NUL = Inr (take m l @ NL # NUL # b)"
      using buf_set_here [of _ "take m l @ [NL]" y b NUL] by (simp add: add.commute)
    then have "getline 0 (l @ rest) line (int m + 2) = Inr (int (length l) + 1, take m l @ NL # NUL # b, tl rest)"
      using False by (simp add: getline_def L d k buf_set_here del: length_take)
    with False len show ?thesis by (intro exI [of _ b]) simp
  qed
qed

section \<open>Properties\<close>

text \<open>C28: on a text whose comments \<open>/* */\<close> and quoted parts are all closed, that does not end in a
  slash and has no slash outside a comment right before a quote, the comment remover ends and writes the text
  without its comments and otherwise unchanged: text in quotes, escaped quotes included, is kept
  even where it looks like a comment, and a comment ends at its first closing mark.  (An open
  comment makes it run for ever, and a quote right after a slash is not seen:
  \<open>rcomment_hangs_on_open_comment\<close> and \<open>rcomment_quote_after_slash\<close> below.)\<close>

theorem rcomment_strips_comments:
  assumes "rc_text ps"
  shows "rcomment_main (concat (map src ps)) [] = Some (concat (map kept ps))"
  using rcomment_pieces [OF assms, of "[]" "[]"] by (simp add: rcomment_main_Nil)

theorem rcomment_strips_comments_witness:
  "rcomment_main ''a/*b*/'' [] = Some ''a'' \<and>
   rcomment_main ([CHR 0x22] @ ''/*x*/'' @ [CHR 0x22, CHR ''/'', CHR ''1'']) [] =
     Some ([CHR 0x22] @ ''/*x*/'' @ [CHR 0x22, CHR ''/'', CHR ''1''])"
  using rcomment_strips_comments [of "[Plain (CHR ''a''), Comment ''b'']"]
    rcomment_strips_comments [of "[Quote (CHR 0x22) ''/*x*/'', Slash (CHR ''1'')]"] by simp

text \<open>A comment that is never closed makes the remover run for ever, whatever stands in
  front of it.\<close>

theorem rcomment_hangs_on_open_comment:
  assumes "rc_text ps" "no_close b"
  shows "rcomment_main (concat (map src ps) @ ''/*'' @ b) [] = None"
  using rcomment_pieces [OF assms(1), of "''/*'' @ b" "[]"] in_comment_open [OF assms(2)]
  by (simp add: rcomment_main_Cons rcomment.simps)

theorem rcomment_hangs_on_open_comment_witness: "rcomment_main ''a/*b*'' [] = None"
  using rcomment_hangs_on_open_comment [of "[Plain (CHR ''a'')]" "''b*''"] by simp

text \<open>A quote right after a slash is written and forgotten: what follows it in the string and
  looks like a comment is deleted, as in \<open>1/"/*x*/\"\<close>.\<close>

theorem rcomment_quote_after_slash:
  assumes "q = CHR 0x27 \<or> q = CHR 0x22" "no_close (b @ ''*'')"
  shows "rcomment_main (CHR ''/'' # q # src (Comment b) @ rest) out = rcomment_main rest (out @ [CHR ''/'', q])"
proof -
  have "rcomment_main (CHR ''/'' # q # s) out = rcomment_main s (out @ [CHR ''/'', q])" for s
    using assms(1) by (auto simp: rcomment_main_Cons rcomment.simps)
  with rcomment_pieces [of "[Comment b]" rest "out @ [CHR ''/'', q]"] assms(2) show ?thesis by simp
qed

theorem rcomment_quote_after_slash_witness:
  "rcomment_main (''/'' @ [CHR 0x22] @ ''/*x*/'' @ [CHR 0x5C, CHR 0x22, CHR 0x22]) [] =
     Some (''/'' @ [CHR 0x22, CHR 0x5C, CHR 0x22, CHR 0x22])"
  using rcomment_quote_after_slash [of "CHR 0x22" "''x''" "[CHR 0x5C, CHR 0x22, CHR 0x22]" "[]"]
    rcomment_pieces [of "[Plain (CHR 0x5C), Quote (CHR 0x22) []]" "[]" "[CHR ''/'', CHR 0x22]"]
  by (simp add: rcomment_main_Nil)

text \<open>C37: on a text whose comments \<open>/* */\<close> and double quotes are all closed, that does not end in a
  slash, has no slash outside a comment right before a double quote and no star behind two slashes,
  the bracket checker ends, and it prints nothing exactly when each of the three kinds of brackets
  is balanced by itself outside these comments and double quotes (single quotes protect nothing).
  So text whose brackets match is always passed; how the kinds nest in each other is not looked at, although
  the program's comment says it checks matching, and \<open>([)]\<close> is passed as well.\<close>

theorem checkgrammer_silent_iff:
  assumes "cg_text ps"
  shows "checkgrammer (concat (map src ps)) \<noteq> None \<and>
         (checkgrammer (concat (map src ps)) = Some [] \<longleftrightarrow>
           balanced (CHR ''{'') (CHR ''}'') 0 (concat (map visible ps)) \<and>
           balanced (CHR ''['') (CHR '']'') 0 (concat (map visible ps)) \<and>
           balanced (CHR ''('') (CHR '')'') 0 (concat (map visible ps))) \<and>
         (matched [] (concat (map visible ps)) \<longrightarrow> checkgrammer (concat (map src ps)) = Some [])"
proof -
  let ?s = "\<lparr>brace = 0, brack = 0, paren = 0\<rparr>" and ?v = "concat (map visible ps)"
  have "counts_ok ?s" by (simp add: counts_ok_def)
  moreover from this have "checkgrammer (concat (map src ps)) = Some (cg_visible ?v ?s [])"
    using cg_loop_pieces [OF assms, of ?s "[]"] by (simp add: checkgrammer_def)
  ultimately show ?thesis
    using cg_visible_silent [of ?s ?v] matched_balanced [of "[]" ?v] by (simp add: closing_def)
qed

theorem checkgrammer_silent_iff_witness:
  "checkgrammer ''{[a/2]}'' = Some [] \<and> checkgrammer ''([)]/*(*/'' = Some [] \<and>
   checkgrammer '')('' \<notin> {None, Some []}"
  using checkgrammer_silent_iff
      [of "[Plain (CHR ''{''), Plain (CHR ''[''), Plain (CHR ''a''), Slash (CHR ''2''), Plain (CHR '']''), Plain (CHR ''}'')]"]
    checkgrammer_silent_iff
      [of "[Plain (CHR ''(''), Plain (CHR ''[''), Plain (CHR '')''), Plain (CHR '']''), Comment ''('']"]
    checkgrammer_silent_iff [of "[Plain (CHR '')''), Plain (CHR ''('')]"] by (simp add: closing_def)

text \<open>A double quote right after a slash is skipped as well, and the string behind it is searched
  for brackets: \<open>1/"(\""\<close> is reported.\<close>

theorem checkgrammer_quote_after_slash:
  "cg_loop (CHR ''/'' # CHR 0x22 # inp) s out = (case cg_negative s out of (s, out) \<Rightarrow> cg_loop inp s out)"
  "checkgrammer (''1/'' @ [CHR 0x22, CHR ''('', CHR 0x5C, CHR 0x22, CHR 0x22]) = Some [''unbalanced paren '' @ [NL]]"
proof -
  show *: "cg_loop (CHR ''/'' # CHR 0x22 # inp) s out = (case cg_negative s out of (s, out) \<Rightarrow> cg_loop inp s out)"
    for inp s out
    by (simp add: cg_loop_Cons cg_char_def search_def)
  show "checkgrammer (''1/'' @ [CHR 0x22, CHR ''('', CHR 0x5C, CHR 0x22, CHR 0x22]) = Some [''unbalanced paren '' @ [NL]]"
    by (simp add: checkgrammer_def cg_loop_Cons [of "CHR ''1''"] * cg_loop_Cons [of "CHR ''(''"]
        cg_loop_Cons [of "CHR 0x5C"] cg_loop_Cons [of "CHR 0x22"] cg_char_def search_def cg_negative_def
        in_quote.simps cg_loop.simps [of "[]"] cg_final_def)
qed

text \<open>\<open>reverse\<close> reverses the characters of a non-empty line in its buffer, keeps its
  newline at the end and touches nothing behind the terminating NUL; on the empty string it
  reads the character before the buffer.\<close>

theorem reverse_correct:
  assumes "NUL \<notin> set s"
  shows "reverse (s @ NUL # b) = (if s = [] then Inl (BadIndex (- 1)) else Inr (reversed s @ NUL # b))"
  using reverse_ok [OF assms, of b]
  by (auto simp: reverse_def find_nul.simps buf_get_def)

theorem reverse_correct_witness:
  "reverse (''abc'' @ [NL, NUL]) = Inr (''cba'' @ [NL, NUL]) \<and> reverse [NUL] = Inl (BadIndex (- 1))"
  using reverse_correct [of "''abc'' @ [NL]" "[]"] reverse_correct [of "[]" "[]"] by (simp add: reversed_def)

text \<open>When the uninitialised index happens to be 0, \<open>getline\<close> reads one line, returns its
  full length with the newline, and stores its first \<open>lim - 2\<close> characters, the newline and a
  NUL without leaving the buffer, however long the line is.\<close>

theorem getline_stays_in_buffer:
  assumes "NL \<notin> set l" "length line = m + 2" "rest = [] \<or> hd rest = NL"
  shows "\<exists>b. getline 0 (l @ rest) line (int m + 2) =
           Inr (int (length l + (if rest = [] then 0 else 1)),
             take m l @ (if rest = [] then [] else [NL]) @ NUL # b, tl rest) \<and>
           length (take m l @ (if rest = [] then [] else [NL]) @ NUL # b) = m + 2"
  using assms by (rule getline_ok)

theorem getline_stays_in_buffer_witness:
  "\<exists>b. getline 0 (''abcdef'' @ [NL] @ ''gh'') ''.....'' 5 = Inr (7, ''abc'' @ [NL, NUL] @ b, ''gh'')"
  using getline_stays_in_buffer [of "''abcdef''" "''.....''" 3 "[NL] @ ''gh''"] by (simp add: eval_nat_numeral)

text \<open>The program that should turn blanks into tabs writes nothing, whatever it reads,
  because its test for a blank is an assignment.\<close>

theorem detab_writes_nothing: "detab_main inp = []"
proof -
  have "detab inp pos nb nt out = out" for pos nb nt out
    by (induction inp arbitrary: pos nb nt) (simp_all add: Let_def)
  then show ?thesis by (simp add: detab_main_def)
qed

end
