(* ===== verification/Cdecl.thy ===== *)
theory Cdecl
  imports Prelude
begin

text \<open>
  The two programs that read a C declaration and say it in English:
  \<^verbatim>\<open>src/c_code/expert_c/cdecl2.c\<close>, a state machine of six states, and
  \<^verbatim>\<open>src/c_code/expert_c/char3_analytype.c\<close>, its recursive predecessor.  Both keep the tokens in
  front of the declared name on a stack of 100 tokens of 64 characters.

  The stack is the list of its tokens, the one at \<open>stack[top]\<close> first, so \<open>top\<close> is its length
  less one.  Writing beyond a token or beyond the stack and reading \<open>stack[-1]\<close> are errors.  The
  characters are read into a \<open>char\<close>, so the end of the input looks like the character 255.  The
  loops that need not end have a fuel.
\<close>

section \<open>Definitions\<close>

definition MAXTOKENS :: nat where "MAXTOKENS = 100"
definition MAXTOKENLEN :: nat where "MAXTOKENLEN = 64"

text \<open>The \<open>type\<close> of a token is a \<open>char\<close>: a tag of the enumeration or a punctuation character.\<close>

definition IDENTIFIER :: char where "IDENTIFIER = CHR 0x00"
definition QUALIFIER :: char where "QUALIFIER = CHR 0x01"
definition TYPE_tag :: char where "TYPE_tag = CHR 0x02"

record tok =
  tok_type :: char
  tok_string :: string

datatype cd_error = TokenOverrun | StackOverrun | StackUnderrun | OutOfFuel

record cd =
  cd_inp :: string
  cd_this :: tok
  cd_stack :: "tok list"
  cd_out :: string

definition classify_string :: "string \<Rightarrow> char \<times> string" where
  "classify_string s =
     (if s = ''const'' then (QUALIFIER, '' read-only'')
      else if s = ''static'' then (QUALIFIER, '' private '')
      else if s = ''volatile'' then (QUALIFIER, s)
      else if s = ''void'' then (TYPE_tag, s)
      else if s = ''char'' then (TYPE_tag, s)
      else if s = ''signed'' then (TYPE_tag, s)
      else if s = ''unsigned'' then (TYPE_tag, s)
      else if s = ''short'' then (TYPE_tag, s)
      else if s = ''int'' then (TYPE_tag, s)
      else if s = ''long'' then (TYPE_tag, s)
      else if s = ''float'' then (TYPE_tag, s)
      else if s = ''double'' then (TYPE_tag, s)
      else if s = ''struct'' then (TYPE_tag, s)
      else if s = ''union'' then (TYPE_tag, s)
      else if s = ''enum'' then (TYPE_tag, s)
      else (IDENTIFIER, s))"

text \<open>The loop over the letters and digits of a word; \<open>w\<close> is what the token holds so far, and
  the next character, whatever it is, goes to index \<open>length w\<close>.  \<open>ungetc\<close> of the character 255
  does nothing.\<close>

fun read_word :: "string \<Rightarrow> string \<Rightarrow> cd_error + string \<times> string" where
  "read_word [] w = (if MAXTOKENLEN \<le> length w then Inl TokenOverrun else Inr (w, []))"
| "read_word (c # inp) w =
     (if MAXTOKENLEN \<le> length w then Inl TokenOverrun
      else if isalnum c then read_word inp (w @ [c])
      else Inr (w, if c = CHR 0xFF then inp else c # inp))"

definition first_char :: "string \<Rightarrow> char \<times> string" where
  "first_char inp =
     (case dropWhile (\<lambda>c. c = CHR '' '') inp of [] \<Rightarrow> (CHR 0xFF, []) | c # inp \<Rightarrow> (c, inp))"

definition punct :: "char \<Rightarrow> tok" where
  "punct c = \<lparr>tok_type = c, tok_string = cstr [c]\<rparr>"

definition gettoken :: "cd \<Rightarrow> cd_error + cd" where
  "gettoken s =
     (case first_char (cd_inp s) of (c, inp) \<Rightarrow>
      if isalnum c then
        andthen (read_word inp [c]) (\<lambda>(w, inp).
        case classify_string w of (ty, w) \<Rightarrow>
        Inr (s\<lparr>cd_inp := inp, cd_this := \<lparr>tok_type = ty, tok_string = w\<rparr>\<rparr>))
      else Inr (s\<lparr>cd_inp := inp, cd_this := punct c\<rparr>))"

definition push :: "cd \<Rightarrow> cd_error + cd" where
  "push s =
     (if MAXTOKENS \<le> length (cd_stack s) then Inl StackOverrun
      else Inr (s\<lparr>cd_stack := cd_this s # cd_stack s\<rparr>))"

definition top_tok :: "cd \<Rightarrow> cd_error + tok" where
  "top_tok s = (case cd_stack s of [] \<Rightarrow> Inl StackUnderrun | t # ts \<Rightarrow> Inr t)"

definition pop :: "cd \<Rightarrow> cd" where
  "pop s = s\<lparr>cd_stack := tl (cd_stack s)\<rparr>"

definition print :: "string \<Rightarrow> cd \<Rightarrow> cd" where
  "print w s = s\<lparr>cd_out := cd_out s @ w\<rparr>"

text \<open>The first character of the token, which is NUL for the empty string.\<close>

definition first_of_string :: "tok \<Rightarrow> char" where
  "first_of_string t = (case tok_string t of [] \<Rightarrow> NUL | c # _ \<Rightarrow> c)"

subsection \<open>The state machine of cdecl2\<close>

datatype cdstate = Initial | Get_array | Get_params | Get_lparen | Get_ptr_part | Get_type

text \<open>The loop of \<open>initial\<close> pushes one token per round, so it ends within the stack's size.\<close>

lemma push_length: "push s = Inr t \<Longrightarrow> length (cd_stack t) = Suc (length (cd_stack s)) \<and> length (cd_stack s) < MAXTOKENS"
  by (auto simp: push_def split: if_splits)

lemma gettoken_stack: "gettoken s = Inr t \<Longrightarrow> cd_stack t = cd_stack s \<and> cd_out t = cd_out s"
  by (auto simp: gettoken_def andthen_Inr_iff case_prod_beta split: if_splits)

function initial_loop :: "cd \<Rightarrow> cd_error + cd" where
  "initial_loop s =
     (if tok_type (cd_this s) \<noteq> IDENTIFIER
      then andthen (push s) (\<lambda>s. andthen (gettoken s) initial_loop)
      else Inr s)"
  by pat_completeness auto
termination
  by (relation "measure (\<lambda>s. MAXTOKENS - length (cd_stack s))")
    (auto dest!: push_length gettoken_stack)

declare initial_loop.simps [simp del]

definition initial :: "cd \<Rightarrow> cd_error + cdstate option \<times> cd" where
  "initial s =
     andthen (gettoken s) (\<lambda>s.
     andthen (initial_loop s) (\<lambda>s.
     let s = print (tok_string (cd_this s) @ '' is '') s in
     andthen (gettoken s) (\<lambda>s. Inr (Some Get_array, s))))"

fun get_array_loop :: "nat \<Rightarrow> cdstate \<Rightarrow> cd \<Rightarrow> cd_error + cdstate option \<times> cd" where
  "get_array_loop 0 nextstate s = Inl OutOfFuel"
| "get_array_loop (Suc fuel) nextstate s =
     (if tok_type (cd_this s) = CHR ''['' then
        let s = print ''array '' s in
        andthen (gettoken s) (\<lambda>s.
        andthen (if isdigit (first_of_string (cd_this s))
                 then gettoken (print (''0..'' @ dec_int (atoi (tok_string (cd_this s)) - 1) @ '' '') s)
                 else Inr s) (\<lambda>s.
        andthen (gettoken s) (\<lambda>s.
        get_array_loop fuel Get_lparen (print ''of '' s))))
      else Inr (Some nextstate, s))"

definition get_array :: "nat \<Rightarrow> cd \<Rightarrow> cd_error + cdstate option \<times> cd" where
  "get_array fuel s = get_array_loop fuel Get_params s"

fun skip_params :: "nat \<Rightarrow> cd \<Rightarrow> cd_error + cd" where
  "skip_params 0 s = Inl OutOfFuel"
| "skip_params (Suc fuel) s =
     (if tok_type (cd_this s) \<noteq> CHR '')'' then andthen (gettoken s) (skip_params fuel) else Inr s)"

definition get_params :: "nat \<Rightarrow> cd \<Rightarrow> cd_error + cdstate option \<times> cd" where
  "get_params fuel s =
     (if tok_type (cd_this s) = CHR ''('' then
        andthen (skip_params fuel s) (\<lambda>s.
        andthen (gettoken s) (\<lambda>s.
        Inr (Some Get_lparen, print ''function returning  '' s)))
      else Inr (Some Get_lparen, s))"

definition get_lparen :: "cd \<Rightarrow> cd_error + cdstate option \<times> cd" where
  "get_lparen s =
     (if cd_stack s \<noteq> [] then
        andthen (top_tok s) (\<lambda>t.
        if tok_type t = CHR ''(''
        then andthen (gettoken (pop s)) (\<lambda>s. Inr (Some Get_array, s))
        else Inr (Some Get_ptr_part, s))
      else Inr (Some Get_ptr_part, s))"

definition get_ptr_part :: "cd \<Rightarrow> cd_error + cdstate option \<times> cd" where
  "get_ptr_part s =
     andthen (top_tok s) (\<lambda>t.
     if tok_type t = CHR ''*'' then Inr (Some Get_lparen, pop (print ''pointer to '' s))
     else if tok_type t = QUALIFIER
     then Inr (Some Get_lparen, pop (print (tok_string t @ '' '') s))
     else Inr (Some Get_type, s))"

fun print_stack :: "tok list \<Rightarrow> string" where
  "print_stack [] = []"
| "print_stack (t # ts) = tok_string t @ '' '' @ print_stack ts"

definition get_type :: "cd \<Rightarrow> cd_error + cdstate option \<times> cd" where
  "get_type s = Inr (None, (print (print_stack (cd_stack s) @ [NL]) s)\<lparr>cd_stack := []\<rparr>)"

definition run_state :: "nat \<Rightarrow> cdstate \<Rightarrow> cd \<Rightarrow> cd_error + cdstate option \<times> cd" where
  "run_state fuel st s =
     (case st of
        Initial \<Rightarrow> initial s
      | Get_array \<Rightarrow> get_array fuel s
      | Get_params \<Rightarrow> get_params fuel s
      | Get_lparen \<Rightarrow> get_lparen s
      | Get_ptr_part \<Rightarrow> get_ptr_part s
      | Get_type \<Rightarrow> get_type s)"

fun cdecl_loop :: "nat \<Rightarrow> nat \<Rightarrow> cdstate option \<Rightarrow> cd \<Rightarrow> cd_error + cd" where
  "cdecl_loop 0 fuel nextstate s = Inl OutOfFuel"
| "cdecl_loop (Suc n) fuel nextstate s =
     (case nextstate of
        None \<Rightarrow> Inr s
      | Some st \<Rightarrow> andthen (run_state fuel st s) (\<lambda>(nextstate, s). cdecl_loop n fuel nextstate s))"

definition cd_start :: "string \<Rightarrow> cd" where
  "cd_start inp = \<lparr>cd_inp = inp, cd_this = punct NUL, cd_stack = [], cd_out = []\<rparr>"

definition cdecl :: "nat \<Rightarrow> string \<Rightarrow> cd_error + string" where
  "cdecl fuel inp = andthen (cdecl_loop fuel fuel (Some Initial) (cd_start inp)) (\<lambda>s. Inr (cd_out s))"

subsection \<open>The recursive version\<close>

definition at_classify_string :: "string \<Rightarrow> char \<times> string" where
  "at_classify_string s =
     (if s = ''const'' then (QUALIFIER, '' read-only'')
      else if s = ''volatile'' then (QUALIFIER, s)
      else if s = ''void'' then (TYPE_tag, s)
      else if s = ''char'' then (TYPE_tag, s)
      else if s = ''signed'' then (TYPE_tag, s)
      else if s = ''unsigned'' then (TYPE_tag, s)
      else if s = ''short'' then (TYPE_tag, s)
      else if s = ''int'' then (TYPE_tag, s)
      else if s = ''long'' then (TYPE_tag, s)
      else if s = ''float'' then (TYPE_tag, s)
      else if s = ''double'' then (TYPE_tag, s)
      else if s = ''struct'' then (TYPE_tag, s)
      else if s = ''union'' then (TYPE_tag, s)
      else if s = ''enum'' then (TYPE_tag, s)
      else (IDENTIFIER, s))"

definition at_gettoken :: "cd \<Rightarrow> cd_error + cd" where
  "at_gettoken s =
     (case first_char (cd_inp s) of (c, inp) \<Rightarrow>
      if isalnum c then
        andthen (read_word inp [c]) (\<lambda>(w, inp).
        case at_classify_string w of (ty, w) \<Rightarrow>
        Inr (s\<lparr>cd_inp := inp, cd_this := \<lparr>tok_type = ty, tok_string = w\<rparr>\<rparr>))
      else if c = CHR ''*'' then
        Inr (s\<lparr>cd_inp := inp, cd_this := \<lparr>tok_type = CHR ''*'', tok_string = ''pointer to''\<rparr>\<rparr>)
      else Inr (s\<lparr>cd_inp := inp, cd_this := punct c\<rparr>))"

lemma at_gettoken_stack: "at_gettoken s = Inr t \<Longrightarrow> cd_stack t = cd_stack s \<and> cd_out t = cd_out s"
  by (auto simp: at_gettoken_def andthen_Inr_iff case_prod_beta split: if_splits)

function at_first_loop :: "cd \<Rightarrow> cd_error + cd" where
  "at_first_loop s =
     (if tok_type (cd_this s) \<noteq> IDENTIFIER
      then andthen (push s) (\<lambda>s. andthen (at_gettoken s) at_first_loop)
      else Inr s)"
  by pat_completeness auto
termination
  by (relation "measure (\<lambda>s. MAXTOKENS - length (cd_stack s))")
    (auto dest!: push_length at_gettoken_stack)

declare at_first_loop.simps [simp del]

definition read_to_first_identifer :: "cd \<Rightarrow> cd_error + cd" where
  "read_to_first_identifer s =
     andthen (at_gettoken s) (\<lambda>s.
     andthen (at_first_loop s) (\<lambda>s.
     at_gettoken (print (tok_string (cd_this s) @ '' is '') s)))"

fun deal_with_arrays :: "nat \<Rightarrow> cd \<Rightarrow> cd_error + cd" where
  "deal_with_arrays 0 s = Inl OutOfFuel"
| "deal_with_arrays (Suc fuel) s =
     (if tok_type (cd_this s) = CHR ''['' then
        let s = print ''array'' s in
        andthen (at_gettoken s) (\<lambda>s.
        andthen (if isdigit (first_of_string (cd_this s))
                 then at_gettoken (print (''0..'' @ dec_int (atoi (tok_string (cd_this s)) - 1)) s)
                 else Inr s) (\<lambda>s.
        andthen (at_gettoken s) (\<lambda>s.
        deal_with_arrays fuel (print ''of'' s))))
      else Inr s)"

fun at_skip_params :: "nat \<Rightarrow> cd \<Rightarrow> cd_error + cd" where
  "at_skip_params 0 s = Inl OutOfFuel"
| "at_skip_params (Suc fuel) s =
     (if tok_type (cd_this s) \<noteq> CHR '')'' then andthen (at_gettoken s) (at_skip_params fuel) else Inr s)"

definition deal_with_function_args :: "nat \<Rightarrow> cd \<Rightarrow> cd_error + cd" where
  "deal_with_function_args fuel s =
     andthen (at_skip_params fuel s) (\<lambda>s.
     andthen (at_gettoken s) (\<lambda>s. Inr (print ''function returning '' s)))"

fun deal_with_pointers :: "nat \<Rightarrow> cd \<Rightarrow> cd_error + cd" where
  "deal_with_pointers 0 s = Inl OutOfFuel"
| "deal_with_pointers (Suc fuel) s =
     andthen (top_tok s) (\<lambda>t.
     if tok_type t = CHR ''*'' then deal_with_pointers fuel (pop (print (tok_string t) s)) else Inr s)"

fun deal_with_declarator :: "nat \<Rightarrow> cd \<Rightarrow> cd_error + cd"
  and declarator_loop :: "nat \<Rightarrow> cd \<Rightarrow> cd_error + cd" where
  "deal_with_declarator 0 s = Inl OutOfFuel"
| "deal_with_declarator (Suc fuel) s =
     andthen (if tok_type (cd_this s) = CHR ''['' then deal_with_arrays fuel s
              else if tok_type (cd_this s) = CHR ''('' then deal_with_function_args fuel s
              else Inr s) (\<lambda>s.
     andthen (deal_with_pointers fuel s) (declarator_loop fuel))"
| "declarator_loop 0 s = Inl OutOfFuel"
| "declarator_loop (Suc fuel) s =
     (case cd_stack s of
        [] \<Rightarrow> Inr s
      | t # _ \<Rightarrow>
          if tok_type t = CHR ''(''
          then andthen (at_gettoken (pop s)) (\<lambda>s.
               andthen (deal_with_declarator fuel s) (declarator_loop fuel))
          else declarator_loop fuel (pop (print (tok_string t) s)))"

definition analytype :: "nat \<Rightarrow> string \<Rightarrow> cd_error + string" where
  "analytype fuel inp =
     andthen (read_to_first_identifer (cd_start inp)) (\<lambda>s.
     andthen (deal_with_declarator fuel s) (\<lambda>s. Inr (cd_out (print [NL] s))))"

end
