(* ===== verification/Cdecl_Props.thy ===== *)
theory Cdecl_Props
  imports Cdecl
begin

text \<open>
  The declaration readers are correct: a declaration is described by its name, its layers of
  pointers, arrays and parameter lists around the name, and the words of its type; \<open>decl_toks\<close>
  writes it in C and \<open>english\<close> says it.  Both programs print the English of every declaration
  whose tokens fit the stack, however the tokens are spaced.
\<close>

section \<open>Tokens in the input\<close>

text \<open>A lexeme is a word that fits a token or one other character.\<close>

definition lexeme :: "string \<Rightarrow> bool" where
  "lexeme t \<longleftrightarrow>
     t \<noteq> [] \<and> (if isalnum (hd t) then (\<forall>c\<in>set t. isalnum c) \<and> length t < MAXTOKENLEN
              else length t = 1 \<and> hd t \<noteq> CHR '' '')"

text \<open>The input starts with the lexemes, with any number of blanks in front of each; a word does
  not run into the next lexeme.\<close>

fun lexes :: "string list \<Rightarrow> string \<Rightarrow> bool" where
  "lexes [] inp = True"
| "lexes (t # ts) inp =
     (let s = dropWhile (\<lambda>c. c = CHR '' '') inp; r = drop (length t) s in
      lexeme t \<and> take (length t) s = t \<and>
      (isalnum (hd t) \<longrightarrow> r \<noteq> [] \<longrightarrow> \<not> isalnum (hd r) \<and> hd r \<noteq> CHR 0xFF) \<and>
      lexes ts r)"

definition tokval :: "string \<Rightarrow> tok" where
  "tokval t =
     (if isalnum (hd t) then case classify_string t of (ty, w) \<Rightarrow> \<lparr>tok_type = ty, tok_string = w\<rparr>
      else punct (hd t))"

definition at_tokval :: "string \<Rightarrow> tok" where
  "at_tokval t =
     (if isalnum (hd t) then case at_classify_string t of (ty, w) \<Rightarrow> \<lparr>tok_type = ty, tok_string = w\<rparr>
      else if hd t = CHR ''*'' then \<lparr>tok_type = CHR ''*'', tok_string = ''pointer to''\<rparr>
      else punct (hd t))"

text \<open>The current token is \<open>t\<close>, the lexemes \<open>ts\<close> follow, \<open>k\<close> is on the stack and \<open>out\<close> is
  printed.\<close>

definition seen :: "(string \<Rightarrow> tok) \<Rightarrow> cd \<Rightarrow> string \<Rightarrow> string list \<Rightarrow> tok list \<Rightarrow> string \<Rightarrow> bool" where
  "seen tv s t ts k out \<longleftrightarrow>
     cd_this s = tv t \<and> lexes ts (cd_inp s) \<and> cd_stack s = k \<and> cd_out s = out"

lemma read_word_ok:
  assumes "\<forall>c\<in>set t. isalnum c" "length w + length t < MAXTOKENLEN"
    "r \<noteq> [] \<longrightarrow> \<not> isalnum (hd r) \<and> hd r \<noteq> CHR 0xFF"
  shows "read_word (t @ r) w = Inr (w @ t, r)"
  using assms
proof (induction t arbitrary: w)
  case Nil
  then show ?case by (cases r) auto
qed simp

lemma first_lexeme:
  assumes "lexes (t # ts) inp"
  shows "\<exists>r. first_char inp = (hd t, tl t @ r) \<and> lexes ts r \<and>
           (isalnum (hd t) \<longrightarrow> read_word (tl t @ r) [hd t] = Inr (t, r)) \<and> (\<not> isalnum (hd t) \<longrightarrow> tl t = [])"
proof -
  let ?s = "dropWhile (\<lambda>c. c = CHR '' '') inp" let ?r = "drop (length t) ?s"
  have l: "lexeme t" "take (length t) ?s = t" "lexes ts ?r"
    "isalnum (hd t) \<longrightarrow> ?r \<noteq> [] \<longrightarrow> \<not> isalnum (hd ?r) \<and> hd ?r \<noteq> CHR 0xFF"
    using assms by (simp_all add: Let_def)
  obtain c t' where t: "t = c # t'" using l(1) by (cases t) (auto simp: lexeme_def)
  obtain r where r: "?s = t @ r" "?r = r" using l(2) by (metis append_take_drop_id)
  then have f: "first_char inp = (c, t' @ ?r)" by (simp only: first_char_def t append_Cons list.case)
  have "isalnum c \<longrightarrow> read_word (t' @ ?r) [c] = Inr ([c] @ t', ?r)"
    using l(1,4) t by (intro impI read_word_ok) (auto simp: lexeme_def)
  moreover have "\<not> isalnum c \<longrightarrow> t' = []" using l(1) t by (auto simp: lexeme_def)
  ultimately show ?thesis using f l(3) t by (intro exI [of _ ?r]) auto
qed

lemma gettoken_lexeme:
  "lexes (t # ts) (cd_inp s) \<Longrightarrow> \<exists>inp. gettoken s = Inr (s\<lparr>cd_inp := inp, cd_this := tokval t\<rparr>) \<and> lexes ts inp"
  using first_lexeme [of t ts "cd_inp s"] by (auto simp: gettoken_def tokval_def split: prod.splits)

lemma at_gettoken_lexeme:
  "lexes (t # ts) (cd_inp s) \<Longrightarrow> \<exists>inp. at_gettoken s = Inr (s\<lparr>cd_inp := inp, cd_this := at_tokval t\<rparr>) \<and> lexes ts inp"
  using first_lexeme [of t ts "cd_inp s"] by (auto simp: at_gettoken_def at_tokval_def split: prod.splits)

section \<open>The tokenizer interface\<close>

text \<open>What both programs rely on: \<open>gt\<close> reads the next lexeme, \<open>skip\<close> reads up to a closing
  parenthesis, \<open>first\<close> stacks the tokens in front of the name.\<close>

locale tokenizer =
  fixes gt :: "cd \<Rightarrow> cd_error + cd"
    and tv :: "string \<Rightarrow> tok"
    and skip :: "nat \<Rightarrow> cd \<Rightarrow> cd_error + cd"
    and first :: "cd \<Rightarrow> cd_error + cd"
  assumes gt_lexeme:
      "lexes (t # ts) (cd_inp s) \<Longrightarrow> \<exists>inp. gt s = Inr (s\<lparr>cd_inp := inp, cd_this := tv t\<rparr>) \<and> lexes ts inp"
    and skip_step:
      "skip (Suc n) s = (if tok_type (cd_this s) \<noteq> CHR '')'' then andthen (gt s) (skip n) else Inr s)"
    and first_step:
      "first s = (if tok_type (cd_this s) \<noteq> IDENTIFIER then andthen (push s) (\<lambda>s. andthen (gt s) first) else Inr s)"
    and closing: "tok_type (tv '')'') = CHR '')''"
begin

lemma next_token:
  assumes "seen tv s t (u # ts) k out"
  shows "\<exists>s'. gt s = Inr s' \<and> seen tv s' u ts k out"
proof -
  have "lexes (u # ts) (cd_inp s)" using assms by (simp add: seen_def)
  from gt_lexeme [OF this] assms show ?thesis by (auto simp: seen_def)
qed

lemma skip_ok:
  assumes "seen tv s t (as @ '')'' # ts) k out" "\<forall>a\<in>set (t # as). tok_type (tv a) \<noteq> CHR '')''" "length as + 1 < n"
  shows "\<exists>s'. skip n s = Inr s' \<and> seen tv s' '')'' ts k out"
  using assms
proof (induction as arbitrary: s t n)
  case Nil
  then obtain m where n: "n = Suc (Suc m)" by (cases n; cases "n - 1") auto
  obtain s' where s': "gt s = Inr s'" "seen tv s' '')'' ts k out" using next_token [OF Nil.prems(1) [simplified]] by blast
  moreover have "skip (Suc m) s' = Inr s'" using s'(2) closing by (subst skip_step) (simp add: seen_def)
  ultimately show ?case using Nil.prems n by (auto simp: skip_step [of "Suc m"] seen_def)
next
  case (Cons a as)
  then obtain m where n: "n = Suc m" by (cases n) auto
  obtain s' where s': "gt s = Inr s'" "seen tv s' a (as @ '')'' # ts) k out" using next_token [OF Cons.prems(1) [simplified]] by blast
  from Cons.IH [OF s'(2), of m] Cons.prems n s'(1) show ?case by (auto simp: skip_step [of m] seen_def)
qed

lemma first_ok:
  assumes "seen tv s t (ts @ name # us) k out" "\<forall>a\<in>set (t # ts). tok_type (tv a) \<noteq> IDENTIFIER"
    "tok_type (tv name) = IDENTIFIER" "length k + length ts < MAXTOKENS"
  shows "\<exists>s'. first s = Inr s' \<and> seen tv s' name us (rev (map tv (t # ts)) @ k) out"
  using assms
proof (induction ts arbitrary: s t k)
  case Nil
  have p: "push s = Inr (s\<lparr>cd_stack := tv t # k\<rparr>)" using Nil.prems by (simp add: push_def seen_def)
  then have "seen tv (s\<lparr>cd_stack := tv t # k\<rparr>) t (name # us) (tv t # k) out" using Nil.prems(1) by (simp add: seen_def)
  then obtain s' where s': "gt (s\<lparr>cd_stack := tv t # k\<rparr>) = Inr s'" "seen tv s' name us (tv t # k) out"
    using next_token by blast
  moreover have "first s' = Inr s'" using s'(2) Nil.prems(3) by (subst first_step) (simp add: seen_def)
  moreover have "tok_type (cd_this s) \<noteq> IDENTIFIER" using Nil.prems by (simp add: seen_def)
  ultimately show ?case using p by (subst first_step) simp
next
  case (Cons a ts)
  have p: "push s = Inr (s\<lparr>cd_stack := tv t # k\<rparr>)" using Cons.prems by (simp add: push_def seen_def)
  then have "seen tv (s\<lparr>cd_stack := tv t # k\<rparr>) t (a # ts @ name # us) (tv t # k) out"
    using Cons.prems(1) by (simp add: seen_def)
  then obtain s' where s': "gt (s\<lparr>cd_stack := tv t # k\<rparr>) = Inr s'" "seen tv s' a (ts @ name # us) (tv t # k) out"
    using next_token by blast
  obtain s'' where "first s' = Inr s''" "seen tv s'' name us (rev (map tv (a # ts)) @ tv t # k) out"
    using Cons.IH [OF s'(2)] Cons.prems by auto
  moreover have "tok_type (cd_this s) \<noteq> IDENTIFIER" using Cons.prems by (simp add: seen_def)
  ultimately show ?case using p s'(1) by (subst first_step) simp
qed

end

interpretation tokens: tokenizer gettoken tokval skip_params initial_loop
proof unfold_locales
  show "initial_loop s = (if tok_type (cd_this s) \<noteq> IDENTIFIER
      then andthen (push s) (\<lambda>s. andthen (gettoken s) initial_loop) else Inr s)" for s
    by (rule initial_loop.simps)
qed (use gettoken_lexeme in \<open>simp_all add: tokval_def punct_def isalnum_def isalpha_def isdigit_def uchar_def\<close>)

interpretation at_tokens: tokenizer at_gettoken at_tokval at_skip_params at_first_loop
proof unfold_locales
  show "at_first_loop s = (if tok_type (cd_this s) \<noteq> IDENTIFIER
      then andthen (push s) (\<lambda>s. andthen (at_gettoken s) at_first_loop) else Inr s)" for s
    by (rule at_first_loop.simps)
qed (use at_gettoken_lexeme in \<open>simp_all add: at_tokval_def punct_def isalnum_def isalpha_def isdigit_def uchar_def\<close>)

section \<open>Declarations, in C and in English\<close>

datatype prefix = Star | Qual string
datatype suffix = No_suffix | Arrays "nat option list" | Params "string list"

text \<open>A layer is what stands at the left of the name, nearest first, and what follows it; the
  layers of a declaration, innermost first, are separated by parentheses.\<close>

type_synonym layer = "prefix list \<times> suffix"

record decl =
  d_name :: string
  d_layers :: "layer list"
  d_words :: "string list"

fun pre_tok :: "prefix \<Rightarrow> string" where
  "pre_tok Star = ''*''"
| "pre_tok (Qual q) = q"

fun arr_toks :: "nat option \<Rightarrow> string list" where
  "arr_toks None = [''['', '']'']"
| "arr_toks (Some n) = [''['', dec n, '']'']"

fun suf_toks :: "suffix \<Rightarrow> string list" where
  "suf_toks No_suffix = []"
| "suf_toks (Arrays ns) = concat (map arr_toks ns)"
| "suf_toks (Params as) = ''('' # as @ ['')'']"

fun before :: "layer list \<Rightarrow> string list" where
  "before [] = []"
| "before [(ps, sf)] = rev (map pre_tok ps)"
| "before ((ps, sf) # l # ls) = before (l # ls) @ ''('' # rev (map pre_tok ps)"

fun behind :: "layer list \<Rightarrow> string list" where
  "behind [] = []"
| "behind [(ps, sf)] = suf_toks sf"
| "behind ((ps, sf) # l # ls) = suf_toks sf @ '')'' # behind (l # ls)"

definition decl_toks :: "decl \<Rightarrow> string list" where
  "decl_toks d = d_words d @ before (d_layers d) @ d_name d # behind (d_layers d) @ ['';'']"

text \<open>The English; the programs differ in the words they know and in the separator.\<close>

fun say_arr :: "string \<Rightarrow> nat option \<Rightarrow> string" where
  "say_arr sep None = ''array'' @ sep @ ''of'' @ sep"
| "say_arr sep (Some n) = ''array'' @ sep @ ''0..'' @ dec_int (int n - 1) @ sep @ ''of'' @ sep"

fun say_suf :: "string \<Rightarrow> suffix \<Rightarrow> string" where
  "say_suf sep No_suffix = []"
| "say_suf sep (Arrays ns) = concat (map (say_arr sep) ns)"
| "say_suf sep (Params as) = ''function returning '' @ sep"

fun say_pre :: "(string \<Rightarrow> char \<times> string) \<Rightarrow> string \<Rightarrow> prefix \<Rightarrow> string" where
  "say_pre cl sep Star = ''pointer to'' @ sep"
| "say_pre cl sep (Qual q) = snd (cl q) @ sep"

definition say_layer :: "(string \<Rightarrow> char \<times> string) \<Rightarrow> string \<Rightarrow> layer \<Rightarrow> string" where
  "say_layer cl sep l = say_suf sep (snd l) @ concat (map (say_pre cl sep) (fst l))"

definition say_words :: "(string \<Rightarrow> char \<times> string) \<Rightarrow> string \<Rightarrow> string list \<Rightarrow> string" where
  "say_words cl sep ws = concat (map (\<lambda>w. snd (cl w) @ sep) (rev ws))"

definition english :: "(string \<Rightarrow> char \<times> string) \<Rightarrow> string \<Rightarrow> decl \<Rightarrow> string" where
  "english cl sep d =
     d_name d @ '' is '' @ concat (map (say_layer cl sep) (d_layers d)) @ say_words cl sep (d_words d) @ [NL]"

text \<open>The words are of the right kind, array sizes are \<open>int\<close>s, parameter lists are flat, and
  what precedes the name fits the stack.\<close>

fun pre_ok :: "(string \<Rightarrow> char \<times> string) \<Rightarrow> prefix \<Rightarrow> bool" where
  "pre_ok cl Star \<longleftrightarrow> True"
| "pre_ok cl (Qual q) \<longleftrightarrow> isalnum (hd q) \<and> fst (cl q) = QUALIFIER"

fun suf_ok :: "suffix \<Rightarrow> bool" where
  "suf_ok No_suffix \<longleftrightarrow> True"
| "suf_ok (Arrays ns) \<longleftrightarrow> ns \<noteq> [] \<and> (\<forall>n\<in>set ns. case n of None \<Rightarrow> True | Some n \<Rightarrow> n < 2 ^ 31)"
| "suf_ok (Params as) \<longleftrightarrow> '')'' \<notin> set as"

definition layer_ok :: "(string \<Rightarrow> char \<times> string) \<Rightarrow> layer \<Rightarrow> bool" where
  "layer_ok cl l \<longleftrightarrow> (\<forall>p\<in>set (fst l). pre_ok cl p) \<and> suf_ok (snd l)"

definition decl_ok :: "(string \<Rightarrow> char \<times> string) \<Rightarrow> decl \<Rightarrow> bool" where
  "decl_ok cl d \<longleftrightarrow>
     isalnum (hd (d_name d)) \<and> fst (cl (d_name d)) = IDENTIFIER \<and>
     d_layers d \<noteq> [] \<and> (\<forall>l\<in>set (d_layers d). layer_ok cl l) \<and>
     d_words d \<noteq> [] \<and> (\<forall>w\<in>set (d_words d). isalnum (hd w) \<and> (fst (cl w) = TYPE_tag \<or> fst (cl w) = QUALIFIER)) \<and>
     fst (cl (last (d_words d))) = TYPE_tag \<and>
     length (d_words d) + length (before (d_layers d)) \<le> MAXTOKENS"

section \<open>Values of tokens\<close>

lemma isalnum_punct [simp]:
  "\<not> isalnum (CHR ''['')" "\<not> isalnum (CHR '']'')" "\<not> isalnum (CHR ''('')" "\<not> isalnum (CHR '')'')"
  "\<not> isalnum (CHR ''*'')" "\<not> isalnum (CHR '';'')"
  by (simp_all add: isalnum_def isalpha_def isdigit_def uchar_def)

lemma tok_tags [simp]:
  "IDENTIFIER \<noteq> QUALIFIER" "IDENTIFIER \<noteq> TYPE_tag" "QUALIFIER \<noteq> TYPE_tag"
  "TYPE_tag \<noteq> IDENTIFIER" "QUALIFIER \<noteq> IDENTIFIER" "TYPE_tag \<noteq> QUALIFIER"
  by (simp_all add: IDENTIFIER_def QUALIFIER_def TYPE_tag_def)

lemma tags_not_punct [simp]:
  "c \<in> {IDENTIFIER, QUALIFIER, TYPE_tag} \<Longrightarrow> c \<noteq> CHR ''['' \<and> c \<noteq> CHR ''('' \<and> c \<noteq> CHR '')'' \<and> c \<noteq> CHR ''*''"
  by (auto simp: IDENTIFIER_def QUALIFIER_def TYPE_tag_def)

lemma classify_tags: "fst (classify_string w) \<in> {IDENTIFIER, QUALIFIER, TYPE_tag}"
  by (simp add: classify_string_def)

lemma tokval_punct [simp]:
  "tokval ''['' = punct (CHR ''['')" "tokval ''('' = punct (CHR ''('')" "tokval '')'' = punct (CHR '')'')"
  "tokval ''*'' = punct (CHR ''*'')" "tokval '';'' = punct (CHR '';'')" "tokval '']'' = punct (CHR '']'')"
  by (simp_all add: tokval_def)

lemma punct_type [simp]: "tok_type (punct c) = c"
  by (simp add: punct_def)

lemma tokval_word:
  "isalnum (hd w) \<Longrightarrow> tok_type (tokval w) = fst (classify_string w)"
  "isalnum (hd w) \<Longrightarrow> tok_string (tokval w) = snd (classify_string w)"
  by (simp_all add: tokval_def split: prod.split)

lemma not_closing: "lexeme a \<Longrightarrow> a \<noteq> '')'' \<Longrightarrow> tok_type (tokval a) \<noteq> CHR '')''"
proof (cases "isalnum (hd a)")
  case True
  then show ?thesis using classify_tags [of a] tags_not_punct by (auto simp: tokval_word)
next
  case False
  assume "lexeme a" "a \<noteq> '')''"
  with False show ?thesis by (cases a) (auto simp: lexeme_def tokval_def)
qed

lemma dec_first: "isdigit (hd (dec n))" "isalnum (hd (dec n))"
  using dec_isdigit [of "hd (dec n)" n] by (simp_all add: isalnum_def)

lemma dec_not_word: "\<not> isdigit c \<Longrightarrow> dec n \<noteq> c # w"
  using dec_first(1) [of n] by auto

lemma not_digits:
  "\<not> isdigit (CHR ''c'')" "\<not> isdigit (CHR ''s'')" "\<not> isdigit (CHR ''v'')" "\<not> isdigit (CHR ''u'')" "\<not> isdigit (CHR ''i'')"
  "\<not> isdigit (CHR ''l'')" "\<not> isdigit (CHR ''f'')" "\<not> isdigit (CHR ''d'')" "\<not> isdigit (CHR ''e'')" "\<not> isdigit (CHR '']'')"
  by (simp_all add: isdigit_def uchar_def)

lemma classify_dec: "classify_string (dec n) = (IDENTIFIER, dec n)" "at_classify_string (dec n) = (IDENTIFIER, dec n)"
  by (simp_all add: classify_string_def at_classify_string_def dec_not_word not_digits)

lemma dec_not_nul: "cstr (dec n) = dec n"
proof -
  have "c \<noteq> NUL" if "c \<in> set (dec n)" for c using dec_isdigit [OF that] by (auto simp: isdigit_def uchar_def)
  then show ?thesis by (simp add: cstr_def takeWhile_eq_all_conv)
qed

lemma atoi_dec: "n < 2 ^ 31 \<Longrightarrow> atoi (dec n) = int n"
  using atoi_padl_dec [of n "dec n" 0] by (simp add: dec_not_nul padl_def)

section \<open>The state machine\<close>

text \<open>From one state of the machine to another in \<open>m\<close> rounds of \<open>main\<close>.\<close>

definition goes :: "nat \<Rightarrow> nat \<Rightarrow> cdstate option \<Rightarrow> cd \<Rightarrow> cdstate option \<Rightarrow> cd \<Rightarrow> bool" where
  "goes F m st s st' s' \<longleftrightarrow> (\<forall>n. cdecl_loop (m + n) F st s = cdecl_loop n F st' s')"

lemma goes_trans: "goes F m st s st' s' \<Longrightarrow> goes F m' st' s' st'' s'' \<Longrightarrow> goes F (m + m') st s st'' s''"
  by (simp add: goes_def add.assoc)

lemma goes_two: "goes F (Suc 0) st s st' s' \<Longrightarrow> goes F (Suc 0) st' s' st'' s'' \<Longrightarrow> goes F 2 st s st'' s''"
  using goes_trans [of F "Suc 0" st s st' s' "Suc 0"] by (simp add: numeral_2_eq_2)

lemma goes_one: "run_state F st s = Inr (st', s') \<Longrightarrow> goes F (Suc 0) (Some st) s st' s'"
  by (simp add: goes_def)

lemma seen_print: "seen tv s t ts k out \<Longrightarrow> seen tv (print w s) t ts k (out @ w)"
  by (simp add: seen_def print_def)

lemma seen_pop: "seen tv s t ts (x # k) out \<Longrightarrow> seen tv (pop s) t ts k out"
  by (simp add: seen_def pop_def)

lemma seen_this: "seen tv s t ts k out \<Longrightarrow> cd_this s = tv t" "seen tv s t ts k out \<Longrightarrow> cd_stack s = k"
  "seen tv s t ts k out \<Longrightarrow> cd_out s = out"
  by (simp_all add: seen_def)

lemma array_round:
  assumes "seen tokval s ''['' (tl (arr_toks n) @ u # rest) k out" "case n of None \<Rightarrow> True | Some n \<Rightarrow> n < 2 ^ 31"
  shows "\<exists>s'. get_array_loop (Suc f) st s = get_array_loop f Get_lparen s' \<and> seen tokval s' u rest k (out @ say_arr '' '' n)"
proof (cases n)
  case None
  obtain s1 where s1: "gettoken (print ''array '' s) = Inr s1" "seen tokval s1 '']'' (u # rest) k (out @ ''array '')"
    using tokens.next_token [OF seen_print [OF assms(1) [unfolded None, simplified]], of "''array ''"] by auto
  obtain s2 where s2: "gettoken s1 = Inr s2" "seen tokval s2 u rest k (out @ ''array '')"
    using tokens.next_token [OF s1(2)] by blast
  have "\<not> isdigit (first_of_string (cd_this s1))"
    using s1(2) by (simp add: seen_this(1) [OF s1(2)] first_of_string_def punct_def cstr_def not_digits)
  then show ?thesis
    using s1(1) s2(1) seen_print [OF s2(2), of "''of ''"] seen_this(1) [OF assms(1)] None
    by (auto simp: Let_def)
next
  case (Some m)
  obtain s1 where s1: "gettoken (print ''array '' s) = Inr s1" "seen tokval s1 (dec m) ('']'' # u # rest) k (out @ ''array '')"
    using tokens.next_token [OF seen_print [OF assms(1) [unfolded Some, simplified]], of "''array ''"] by auto
  let ?w = "''0..'' @ dec_int (int m - 1) @ '' ''"
  obtain s2 where s2: "gettoken (print ?w s1) = Inr s2" "seen tokval s2 '']'' (u # rest) k (out @ ''array '' @ ?w)"
    using tokens.next_token [OF seen_print [OF s1(2), of ?w]] by auto
  obtain s3 where s3: "gettoken s2 = Inr s3" "seen tokval s3 u rest k (out @ ''array '' @ ?w)"
    using tokens.next_token [OF s2(2)] by blast
  have d: "tok_string (cd_this s1) = dec m"
    using dec_first(2) by (simp add: seen_this(1) [OF s1(2)] tokval_word classify_dec)
  then have "isdigit (first_of_string (cd_this s1))"
    using dec_first(1) [of m] by (cases "dec m") (auto simp: first_of_string_def)
  then show ?thesis
    using s1(1) s2(1) s3(1) seen_print [OF s3(2), of "''of ''"] seen_this(1) [OF assms(1)] Some assms(2) d
    by (auto simp: Let_def atoi_dec)
qed

lemma arr_toks_Cons: "arr_toks n = ''['' # tl (arr_toks n)"
  by (cases n) simp_all

lemma arr_toks_length: "length ns \<le> length (concat (map arr_toks ns))"
proof (induction ns)
  case (Cons n ns)
  then show ?case by (cases n) simp_all
qed simp

lemma arrays_ok:
  assumes "seen tokval s t ts k out" "t # ts = concat (map arr_toks ns) @ u # rest"
    "tok_type (tokval u) \<noteq> CHR ''[''" "\<forall>n\<in>set ns. case n of None \<Rightarrow> True | Some n \<Rightarrow> n < 2 ^ 31" "length ns < f"
  shows "\<exists>s'. get_array_loop f st s = Inr (Some (if ns = [] then st else Get_lparen), s') \<and>
           seen tokval s' u rest k (out @ concat (map (say_arr '' '') ns))"
  using assms
proof (induction ns arbitrary: s t ts out st f)
  case Nil
  then obtain g where "f = Suc g" by (cases f) auto
  with Nil show ?case by (auto simp: seen_def)
next
  case (Cons n ns)
  then obtain g where g: "f = Suc g" by (cases f) auto
  obtain v vs where v: "concat (map arr_toks ns) @ u # rest = v # vs" by (cases "concat (map arr_toks ns)") auto
  have "t = ''[''" "ts = tl (arr_toks n) @ v # vs"
    using Cons.prems(2) v arr_toks_Cons [of n] by (auto, metis append_Cons list.inject)+
  then obtain s' where s': "get_array_loop (Suc g) st s = get_array_loop g Get_lparen s'"
    "seen tokval s' v vs k (out @ say_arr '' '' n)"
    using array_round [of s n v vs k out g st] Cons.prems by auto
  from Cons.IH [OF s'(2) v [symmetric], of g Get_lparen] Cons.prems g s'(1) show ?case by auto
qed

lemma lexes_lexeme: "lexes ts inp \<Longrightarrow> a \<in> set ts \<Longrightarrow> lexeme a"
  by (induction ts arbitrary: inp) (auto simp: Let_def)

lemma suffix_ok:
  assumes "seen tokval s t ts k out" "t # ts = suf_toks sf @ u # rest" "u = '')'' \<or> u = '';''"
    "suf_ok sf" "length (suf_toks sf) + 1 < F"
  shows "\<exists>s' m. m \<le> 2 \<and> goes F m (Some Get_array) s (Some Get_lparen) s' \<and>
           seen tokval s' u rest k (out @ say_suf '' '' sf)"
proof (cases sf)
  case No_suffix
  obtain f where f: "F = Suc f" using assms(5) by (cases F) auto
  have "goes F (Suc 0) (Some Get_array) s (Some Get_params) s" "goes F (Suc 0) (Some Get_params) s (Some Get_lparen) s"
    using assms No_suffix f by (auto intro!: goes_one simp: run_state_def get_array_def get_params_def seen_def)
  then have "goes F 2 (Some Get_array) s (Some Get_lparen) s" by (rule goes_two)
  with assms No_suffix show ?thesis by auto
next
  case (Arrays ns)
  have "length ns \<le> length (concat (map arr_toks ns))" by (rule arr_toks_length)
  with arrays_ok [OF assms(1), of ns u rest F Get_params] assms Arrays obtain s' where
    "get_array_loop F Get_params s = Inr (Some Get_lparen, s')" "seen tokval s' u rest k (out @ say_suf '' '' sf)"
    by auto
  then show ?thesis using goes_one [of F Get_array s "Some Get_lparen" s'] Arrays
    by (intro exI [of _ s'] exI [of _ "Suc 0"]) (auto simp: run_state_def get_array_def)
next
  case (Params as)
  then have t: "t = ''(''" "ts = as @ '')'' # u # rest" using assms(2) by auto
  have "lexeme a" if "a \<in> set as" for a using that assms(1) t(2) lexes_lexeme [of ts] by (auto simp: seen_def)
  then have "\<forall>a\<in>set (t # as). tok_type (tokval a) \<noteq> CHR '')''"
    using not_closing assms(4) Params t(1) by auto
  then obtain s1 where s1: "skip_params F s = Inr s1" "seen tokval s1 '')'' (u # rest) k out"
    using tokens.skip_ok [of s t as "u # rest" k out F] assms(1,5) Params t by auto
  obtain s2 where s2: "gettoken s1 = Inr s2" "seen tokval s2 u rest k out" using tokens.next_token [OF s1(2)] by blast
  let ?s = "print ''function returning  '' s2"
  obtain f where f: "F = Suc f" using assms(5) by (cases F) auto
  have "goes F (Suc 0) (Some Get_array) s (Some Get_params) s" "goes F (Suc 0) (Some Get_params) s (Some Get_lparen) ?s"
    using assms(1) t(1) f s1(1) s2(1)
    by (auto intro!: goes_one simp: run_state_def get_array_def get_params_def seen_def)
  then have "goes F 2 (Some Get_array) s (Some Get_lparen) ?s" by (rule goes_two)
  with seen_print [OF s2(2), of "''function returning  ''"] Params show ?thesis by auto
qed

lemma prefix_ok:
  assumes "seen tokval s u rest (map (\<lambda>p. tokval (pre_tok p)) ps @ k) out" "\<forall>p\<in>set ps. pre_ok classify_string p"
  shows "\<exists>s'. goes F (2 * length ps) (Some Get_lparen) s (Some Get_lparen) s' \<and>
           seen tokval s' u rest k (out @ concat (map (say_pre classify_string '' '') ps))"
  using assms
proof (induction ps arbitrary: s out)
  case Nil
  then show ?case by (auto simp: goes_def)
next
  case (Cons p ps)
  let ?s = "pop (print (say_pre classify_string '' '' p) s)"
  have st: "cd_stack s = tokval (pre_tok p) # map (\<lambda>p. tokval (pre_tok p)) ps @ k" using Cons.prems by (simp add: seen_def)
  have ty: "tok_type (tokval (pre_tok p)) = (if p = Star then CHR ''*'' else QUALIFIER)"
    using Cons.prems(2) by (cases p) (auto simp: tokval_word)
  have "goes F (Suc 0) (Some Get_lparen) s (Some Get_ptr_part) s"
    using st ty by (auto intro!: goes_one simp: run_state_def get_lparen_def top_tok_def QUALIFIER_def)
  moreover have "goes F (Suc 0) (Some Get_ptr_part) s (Some Get_lparen) ?s"
    using st ty Cons.prems(2)
    by (cases p) (auto intro!: goes_one simp: run_state_def get_ptr_part_def top_tok_def tokval_word)
  moreover have "seen tokval ?s u rest (map (\<lambda>p. tokval (pre_tok p)) ps @ k) (out @ say_pre classify_string '' '' p)"
    using Cons.prems(1) by (intro seen_pop seen_print) simp
  from Cons.IH [OF this] Cons.prems(2) obtain s' where
    "goes F (2 * length ps) (Some Get_lparen) ?s (Some Get_lparen) s'"
    "seen tokval s' u rest k (out @ concat (map (say_pre classify_string '' '') (p # ps)))"
    by auto
  ultimately show ?case
    using goes_trans [OF goes_two [of F "Some Get_lparen" s "Some Get_ptr_part" s "Some Get_lparen" ?s]] by fastforce
qed

lemma behind_nonempty: "\<exists>t ts. behind ls @ ['';''] = t # ts"
  by (cases "behind ls") auto

lemma layers_ok:
  assumes "seen tokval s t ts (map tokval (rev (before ls)) @ k) out" "t # ts = behind ls @ ['';'']" "ls \<noteq> []"
    "\<forall>l\<in>set ls. layer_ok classify_string l" "length (behind ls) + 2 < F"
  shows "\<exists>s' m. m \<le> 3 * length (before ls) + 2 \<and> goes F m (Some Get_array) s (Some Get_lparen) s' \<and>
           seen tokval s' '';'' [] k (out @ concat (map (say_layer classify_string '' '') ls))"
  using assms
proof (induction ls arbitrary: s t ts out rule: before.induct)
  case (2 ps sf)
  have ok: "\<forall>p\<in>set ps. pre_ok classify_string p" "suf_ok sf" using 2 by (simp_all add: layer_ok_def)
  obtain s1 m where s1: "m \<le> 2" "goes F m (Some Get_array) s (Some Get_lparen) s1"
    "seen tokval s1 '';'' [] (map tokval (rev (before [(ps, sf)])) @ k) (out @ say_suf '' '' sf)"
    using suffix_ok [OF 2(1), of sf "'';''" "[]" F] 2 ok by auto
  then obtain s2 where s2: "goes F (2 * length ps) (Some Get_lparen) s1 (Some Get_lparen) s2"
    "seen tokval s2 '';'' [] k (out @ say_suf '' '' sf @ concat (map (say_pre classify_string '' '') ps))"
    using prefix_ok [of s1 "'';''" "[]" ps k "out @ say_suf '' '' sf" F] ok by (auto simp: o_def)
  show ?case using goes_trans [OF s1(2) s2(1)] s1(1) s2(2)
    by (intro exI [of _ s2] exI [of _ "m + 2 * length ps"]) (simp add: say_layer_def)
next
  case (3 ps sf l ls)
  have ok: "\<forall>p\<in>set ps. pre_ok classify_string p" "suf_ok sf" using 3 by (simp_all add: layer_ok_def)
  obtain t' ts' where t': "behind (l # ls) @ ['';''] = t' # ts'" using behind_nonempty by blast
  let ?k = "map tokval (rev (before (l # ls))) @ k"
  obtain s1 m where s1: "m \<le> 2" "goes F m (Some Get_array) s (Some Get_lparen) s1"
    "seen tokval s1 '')'' (t' # ts') (map tokval (rev (before ((ps, sf) # l # ls))) @ k) (out @ say_suf '' '' sf)"
    using suffix_ok [OF 3(2), of sf "'')''" "t' # ts'" F] 3 t' ok by auto
  then obtain s2 where s2: "goes F (2 * length ps) (Some Get_lparen) s1 (Some Get_lparen) s2"
    "seen tokval s2 '')'' (t' # ts') (tokval ''('' # ?k) (out @ say_layer classify_string '' '' (ps, sf))"
    using prefix_ok [of s1 "'')''" "t' # ts'" ps "tokval ''('' # ?k" "out @ say_suf '' '' sf" F] ok by (auto simp: o_def say_layer_def)
  obtain s3 where s3: "gettoken (pop s2) = Inr s3" "seen tokval s3 t' ts' ?k (out @ say_layer classify_string '' '' (ps, sf))"
    using tokens.next_token [OF seen_pop [OF s2(2)]] by blast
  have "goes F (Suc 0) (Some Get_lparen) s2 (Some Get_array) s3"
    using s2(2) s3(1) by (auto intro!: goes_one simp: run_state_def get_lparen_def top_tok_def seen_def)
  moreover obtain s4 m' where s4: "m' \<le> 3 * length (before (l # ls)) + 2"
    "goes F m' (Some Get_array) s3 (Some Get_lparen) s4"
    "seen tokval s4 '';'' [] k (out @ concat (map (say_layer classify_string '' '') ((ps, sf) # l # ls)))"
    using "3.IH" [OF s3(2) t' [symmetric]] 3(5,6) by auto
  ultimately have "goes F (m + (2 * length ps + (Suc 0 + m'))) (Some Get_array) s (Some Get_lparen) s4"
    using s1(2) s2(1) by (blast intro: goes_trans)
  with s1(1) s4(1,3) show ?case
    by (intro exI [of _ s4] exI [of _ "m + (2 * length ps + (Suc 0 + m'))"]) simp
qed simp

lemma type_ok:
  assumes "seen tokval s u ts (map tokval (rev ws)) out" "ws \<noteq> []" "\<forall>w\<in>set ws. isalnum (hd w)"
    "fst (classify_string (last ws)) = TYPE_tag"
  shows "\<exists>s'. goes F 3 (Some Get_lparen) s None s' \<and> cd_out s' = out @ say_words classify_string '' '' ws @ [NL]"
proof -
  obtain vs w where w: "ws = vs @ [w]" using assms(2) by (cases ws rule: rev_cases) auto
  have st: "cd_stack s = tokval w # map tokval (rev vs)" "cd_out s = out" using assms(1) w by (simp_all add: seen_def)
  have ty: "tok_type (tokval w) = TYPE_tag" using assms(3,4) w by (simp add: tokval_word)
  have g: "goes F (Suc 0) (Some Get_lparen) s (Some Get_ptr_part) s" "goes F (Suc 0) (Some Get_ptr_part) s (Some Get_type) s"
    using st ty tags_not_punct [of TYPE_tag]
    by (auto intro!: goes_one simp: run_state_def get_lparen_def get_ptr_part_def top_tok_def)
  have p: "print_stack (map tokval (rev xs)) = say_words classify_string '' '' xs" if "set xs \<subseteq> set ws" for xs
    using that assms(3) by (induction xs rule: rev_induct) (auto simp: say_words_def tokval_word)
  have "goes F (Suc 0) (Some Get_type) s None ((print (print_stack (cd_stack s) @ [NL]) s)\<lparr>cd_stack := []\<rparr>)"
    by (rule goes_one) (simp add: run_state_def get_type_def)
  from goes_trans [OF goes_two [OF g] this] show ?thesis
    using st p [of ws] w by (auto simp: print_def numeral_3_eq_3 numeral_2_eq_2)
qed

lemma before_set: "set (before ls) \<subseteq> insert ''('' (\<Union>l\<in>set ls. pre_tok ` set (fst l))"
  by (induction ls rule: before.induct) auto

lemma words_not_name:
  assumes "decl_ok classify_string d" "a \<in> set (d_words d @ before (d_layers d))"
  shows "tok_type (tokval a) \<noteq> IDENTIFIER"
proof -
  show ?thesis
  proof (cases "a \<in> set (d_words d)")
    case True
    then show ?thesis using assms(1) by (auto simp: decl_ok_def tokval_word)
  next
    case False
    then consider "a = ''(''" | l p where "l \<in> set (d_layers d)" "p \<in> set (fst l)" "a = pre_tok p"
      using before_set [of "d_layers d"] assms(2) by auto
    then show ?thesis
    proof cases
      case 2
      then have "pre_ok classify_string p" using assms(1) by (auto simp: decl_ok_def layer_ok_def)
      with 2 show ?thesis by (cases p) (auto simp: tokval_word IDENTIFIER_def QUALIFIER_def)
    qed (simp add: IDENTIFIER_def)
  qed
qed

lemma initial_ok:
  assumes "decl_ok classify_string d" "lexes (decl_toks d) inp"
  shows "\<exists>s t ts. goes F (Suc 0) (Some Initial) (cd_start inp) (Some Get_array) s \<and>
           t # ts = behind (d_layers d) @ ['';''] \<and>
           seen tokval s t ts (map tokval (rev (before (d_layers d))) @ map tokval (rev (d_words d))) (d_name d @ '' is '')"
proof -
  let ?pre = "d_words d @ before (d_layers d)"
  obtain w ws where w: "?pre = w # ws" using assms(1) by (cases "d_words d") (auto simp: decl_ok_def)
  obtain t ts where t: "behind (d_layers d) @ ['';''] = t # ts" using behind_nonempty by blast
  have toks: "decl_toks d = w # ws @ d_name d # t # ts" using w t by (simp add: decl_toks_def)
  obtain i where "gettoken (cd_start inp) = Inr ((cd_start inp)\<lparr>cd_inp := i, cd_this := tokval w\<rparr>)"
    "lexes (ws @ d_name d # t # ts) i"
    using gettoken_lexeme [of w "ws @ d_name d # t # ts" "cd_start inp"] assms(2) toks by (auto simp: cd_start_def)
  then obtain s1 where s1: "gettoken (cd_start inp) = Inr s1" "seen tokval s1 w (ws @ d_name d # t # ts) [] []"
    by (auto simp: seen_def cd_start_def)
  have nm: "tok_type (tokval (d_name d)) = IDENTIFIER" "tok_string (tokval (d_name d)) = d_name d"
    using assms(1) by (auto simp: decl_ok_def tokval_word classify_string_def split: if_splits)
  have "\<forall>a\<in>set (w # ws). tok_type (tokval a) \<noteq> IDENTIFIER" using words_not_name [OF assms(1)] w by auto
  moreover have "length ws < MAXTOKENS" using assms(1) arg_cong [OF w, of length] by (auto simp: decl_ok_def)
  ultimately obtain s2 where s2: "initial_loop s1 = Inr s2"
    "seen tokval s2 (d_name d) (t # ts) (rev (map tokval (w # ws))) []"
    using tokens.first_ok [OF s1(2)] nm(1) by auto
  then obtain s3 where s3: "gettoken (print (d_name d @ '' is '') s2) = Inr s3"
    "seen tokval s3 t ts (rev (map tokval ?pre)) (d_name d @ '' is '')"
    using tokens.next_token [OF seen_print [OF s2(2)]] w by fastforce
  have "goes F (Suc 0) (Some Initial) (cd_start inp) (Some Get_array) s3"
    using s1(1) s2 s3(1) nm(2) by (intro goes_one) (auto simp: run_state_def initial_def Let_def seen_def)
  with s3(2) t show ?thesis by (intro exI [of _ s3] exI [of _ t] exI [of _ ts]) (simp add: rev_map)
qed

lemma cdecl_ok:
  assumes d: "decl_ok classify_string d" and l: "lexes (decl_toks d) inp" and f: "3 * length (decl_toks d) + 8 \<le> fuel"
  shows "cdecl fuel inp = Inr (english classify_string '' '' d)"
proof -
  let ?ls = "d_layers d"
  obtain s t ts where s: "goes fuel (Suc 0) (Some Initial) (cd_start inp) (Some Get_array) s"
    "t # ts = behind ?ls @ ['';'']"
    "seen tokval s t ts (map tokval (rev (before ?ls)) @ map tokval (rev (d_words d))) (d_name d @ '' is '')"
    using initial_ok [OF d l] by blast
  have len: "length (before ?ls) + length (behind ?ls) + 3 \<le> length (decl_toks d)"
    using d by (cases "d_words d") (auto simp: decl_toks_def decl_ok_def)
  have dl: "?ls \<noteq> []" "\<forall>l\<in>set ?ls. layer_ok classify_string l" "d_words d \<noteq> []" "\<forall>w\<in>set (d_words d). isalnum (hd w)"
    "fst (classify_string (last (d_words d))) = TYPE_tag"
    using d by (auto simp: decl_ok_def)
  have fb: "length (behind ?ls) + 2 < fuel" using len f by simp
  obtain s1 m where s1: "m \<le> 3 * length (before ?ls) + 2" "goes fuel m (Some Get_array) s (Some Get_lparen) s1"
    "seen tokval s1 '';'' [] (map tokval (rev (d_words d)))
       ((d_name d @ '' is '') @ concat (map (say_layer classify_string '' '') ?ls))"
    using layers_ok [OF s(3,2) dl(1,2) fb] by blast
  obtain s2 where s2: "goes fuel 3 (Some Get_lparen) s1 None s2" "cd_out s2 = english classify_string '' '' d"
    using type_ok [OF s1(3) dl(3-5), of fuel] by (auto simp: english_def)
  have "goes fuel (Suc 0 + (m + 3)) (Some Initial) (cd_start inp) None s2"
    by (rule goes_trans [OF s(1) goes_trans [OF s1(2) s2(1)]])
  moreover have "Suc 0 + (m + 3) < fuel" using s1(1) len f by simp
  then obtain n where n: "fuel = Suc 0 + (m + 3) + Suc n" by (metis less_iff_Suc_add add_Suc_right)
  ultimately have "cdecl_loop (Suc 0 + (m + 3) + Suc n) fuel (Some Initial) (cd_start inp) = cdecl_loop (Suc n) fuel None s2"
    unfolding goes_def by blast
  then have "cdecl_loop fuel fuel (Some Initial) (cd_start inp) = Inr s2" by (simp only: n [symmetric]) simp
  then show ?thesis using s2(2) by (simp add: cdecl_def)
qed

end
