(* ===== verification/Cdecl_Rec.thy ===== *)
theory Cdecl_Rec
  imports Cdecl_Props
begin

text \<open>
  The recursive reader of \<^verbatim>\<open>char3_analytype.c\<close> runs its words together
  (\<open>array0..2ofpointer tofunction\<close>) and does not know \<open>static\<close>: it takes a layer's suffix, then the pointers, and prints the rest of the stack, calling itself
  at each parenthesis.  The properties of both readers are at the end.
\<close>

section \<open>Values of tokens\<close>

lemma at_tokval_punct [simp]:
  "at_tokval ''['' = punct (CHR ''['')" "at_tokval ''('' = punct (CHR ''('')" "at_tokval '')'' = punct (CHR '')'')"
  "at_tokval '';'' = punct (CHR '';'')" "at_tokval '']'' = punct (CHR '']'')"
  "at_tokval ''*'' = \<lparr>tok_type = CHR ''*'', tok_string = ''pointer to''\<rparr>"
  by (simp_all add: at_tokval_def)

lemma at_classify_tags: "fst (at_classify_string w) \<in> {IDENTIFIER, QUALIFIER, TYPE_tag}"
  by (simp add: at_classify_string_def)

lemma at_tokval_word:
  "isalnum (hd w) \<Longrightarrow> tok_type (at_tokval w) = fst (at_classify_string w)"
  "isalnum (hd w) \<Longrightarrow> tok_string (at_tokval w) = snd (at_classify_string w)"
  by (simp_all add: at_tokval_def split: prod.split)

lemma at_not_closing: "lexeme a \<Longrightarrow> a \<noteq> '')'' \<Longrightarrow> tok_type (at_tokval a) \<noteq> CHR '')''"
proof (cases "isalnum (hd a)")
  case True
  then show ?thesis using at_classify_tags [of a] tags_not_punct by (auto simp: at_tokval_word)
next
  case False
  assume "lexeme a" "a \<noteq> '')''"
  with False show ?thesis by (cases a) (auto simp: lexeme_def at_tokval_def)
qed

lemma at_pre_tok:
  assumes "pre_ok at_classify_string p"
  shows "tok_type (at_tokval (pre_tok p)) = (if p = Star then CHR ''*'' else QUALIFIER)"
    and "tok_string (at_tokval (pre_tok p)) = say_pre at_classify_string [] p"
  using assms by (cases p; simp add: at_tokval_word)+

section \<open>Suffixes\<close>

lemma at_array_round:
  assumes "seen at_tokval s ''['' (tl (arr_toks n) @ u # rest) k out" "case n of None \<Rightarrow> True | Some n \<Rightarrow> n < 2 ^ 31"
  shows "\<exists>s'. deal_with_arrays (Suc f) s = deal_with_arrays f s' \<and> seen at_tokval s' u rest k (out @ say_arr [] n)"
proof (cases n)
  case None
  obtain s1 where s1: "at_gettoken (print ''array'' s) = Inr s1" "seen at_tokval s1 '']'' (u # rest) k (out @ ''array'')"
    using at_tokens.next_token [OF seen_print [OF assms(1) [unfolded None, simplified]], of "''array''"] by auto
  obtain s2 where s2: "at_gettoken s1 = Inr s2" "seen at_tokval s2 u rest k (out @ ''array'')"
    using at_tokens.next_token [OF s1(2)] by blast
  have "\<not> isdigit (first_of_string (cd_this s1))"
    by (simp add: seen_this(1) [OF s1(2)] first_of_string_def punct_def cstr_def not_digits)
  then show ?thesis
    using s1(1) s2(1) seen_print [OF s2(2), of "''of''"] seen_this(1) [OF assms(1)] None
    by (auto simp: Let_def)
next
  case (Some m)
  obtain s1 where s1: "at_gettoken (print ''array'' s) = Inr s1" "seen at_tokval s1 (dec m) ('']'' # u # rest) k (out @ ''array'')"
    using at_tokens.next_token [OF seen_print [OF assms(1) [unfolded Some, simplified]], of "''array''"] by auto
  let ?w = "''0..'' @ dec_int (int m - 1)"
  obtain s2 where s2: "at_gettoken (print ?w s1) = Inr s2" "seen at_tokval s2 '']'' (u # rest) k (out @ ''array'' @ ?w)"
    using at_tokens.next_token [OF seen_print [OF s1(2), of ?w]] by auto
  obtain s3 where s3: "at_gettoken s2 = Inr s3" "seen at_tokval s3 u rest k (out @ ''array'' @ ?w)"
    using at_tokens.next_token [OF s2(2)] by blast
  have d: "tok_string (cd_this s1) = dec m"
    using dec_first(2) by (simp add: seen_this(1) [OF s1(2)] at_tokval_word classify_dec)
  then have "isdigit (first_of_string (cd_this s1))"
    using dec_first(1) [of m] by (cases "dec m") (auto simp: first_of_string_def)
  then show ?thesis
    using s1(1) s2(1) s3(1) seen_print [OF s3(2), of "''of''"] seen_this(1) [OF assms(1)] Some assms(2) d
    by (auto simp: Let_def atoi_dec)
qed

lemma at_arrays_ok:
  assumes "seen at_tokval s t ts k out" "t # ts = concat (map arr_toks ns) @ u # rest"
    "tok_type (at_tokval u) \<noteq> CHR ''[''" "\<forall>n\<in>set ns. case n of None \<Rightarrow> True | Some n \<Rightarrow> n < 2 ^ 31" "length ns < f"
  shows "\<exists>s'. deal_with_arrays f s = Inr s' \<and> seen at_tokval s' u rest k (out @ concat (map (say_arr []) ns))"
  using assms
proof (induction ns arbitrary: s t ts out f)
  case Nil
  then obtain g where "f = Suc g" by (cases f) auto
  with Nil show ?case by (auto simp: seen_def)
next
  case (Cons n ns)
  then obtain g where g: "f = Suc g" by (cases f) auto
  obtain v vs where v: "concat (map arr_toks ns) @ u # rest = v # vs" by (cases "concat (map arr_toks ns)") auto
  have "t = ''[''" "ts = tl (arr_toks n) @ v # vs"
    using Cons.prems(2) v arr_toks_Cons [of n] by (auto, metis append_Cons list.inject)+
  then obtain s' where s': "deal_with_arrays (Suc g) s = deal_with_arrays g s'"
    "seen at_tokval s' v vs k (out @ say_arr [] n)"
    using at_array_round [of s n v vs k out g] Cons.prems by auto
  from Cons.IH [OF s'(2) v [symmetric], of g] Cons.prems g s'(1) show ?case by auto
qed

definition deal_with_suffix :: "nat \<Rightarrow> cd \<Rightarrow> cd_error + cd" where
  "deal_with_suffix fuel s =
     (if tok_type (cd_this s) = CHR ''['' then deal_with_arrays fuel s
      else if tok_type (cd_this s) = CHR ''('' then deal_with_function_args fuel s
      else Inr s)"

lemma at_suffix_ok:
  assumes "seen at_tokval s t ts k out" "t # ts = suf_toks sf @ u # rest" "u = '')'' \<or> u = '';''"
    "suf_ok sf" "length (suf_toks sf) + 1 < F"
  shows "\<exists>s'. deal_with_suffix F s = Inr s' \<and> seen at_tokval s' u rest k (out @ say_suf [] sf)"
proof (cases sf)
  case No_suffix
  then show ?thesis using assms by (auto simp: deal_with_suffix_def seen_def)
next
  case (Arrays ns)
  have "length ns \<le> length (concat (map arr_toks ns))" by (rule arr_toks_length)
  with at_arrays_ok [OF assms(1), of ns u rest F] assms Arrays obtain s' where
    s': "deal_with_arrays F s = Inr s'" "seen at_tokval s' u rest k (out @ say_suf [] sf)" by auto
  have "t = ''[''" using assms(2,4) Arrays arr_toks_Cons [of "hd ns"] by (cases ns) (auto, metis append_Cons list.inject)
  with s' seen_this(1) [OF assms(1)] show ?thesis by (simp add: deal_with_suffix_def)
next
  case (Params as)
  then have t: "t = ''(''" "ts = as @ '')'' # u # rest" using assms(2) by auto
  have "lexeme a" if "a \<in> set as" for a using that assms(1) t(2) lexes_lexeme [of ts] by (auto simp: seen_def)
  then have "\<forall>a\<in>set (t # as). tok_type (at_tokval a) \<noteq> CHR '')''"
    using at_not_closing assms(4) Params t(1) by auto
  then obtain s1 where s1: "at_skip_params F s = Inr s1" "seen at_tokval s1 '')'' (u # rest) k out"
    using at_tokens.skip_ok [of s t as "u # rest" k out F] assms(1,5) Params t by auto
  obtain s2 where s2: "at_gettoken s1 = Inr s2" "seen at_tokval s2 u rest k out" using at_tokens.next_token [OF s1(2)] by blast
  with s1(1) seen_print [OF s2(2), of "''function returning ''"] seen_this(1) [OF assms(1)] t(1) Params show ?thesis
    by (auto simp: deal_with_suffix_def deal_with_function_args_def)
qed

section \<open>Pointers and the stack\<close>

lemma pointers_ok:
  assumes "seen at_tokval s u rest (map (\<lambda>p. at_tokval (pre_tok p)) ps @ h # k) out"
    "\<forall>p\<in>set ps. pre_ok at_classify_string p" "tok_type h \<noteq> CHR ''*''" "length ps < f"
  shows "\<exists>s' qs rs. deal_with_pointers f s = Inr s' \<and> ps = qs @ rs \<and>
           seen at_tokval s' u rest (map (\<lambda>p. at_tokval (pre_tok p)) rs @ h # k)
             (out @ concat (map (say_pre at_classify_string []) qs))"
  using assms
proof (induction ps arbitrary: s out f)
  case Nil
  then obtain g where "f = Suc g" by (cases f) auto
  with Nil have "deal_with_pointers f s = Inr s" by (auto simp: top_tok_def seen_def)
  with Nil show ?case by (intro exI [of _ s] exI [of _ "[]"]) auto
next
  case (Cons p ps)
  then obtain g where g: "f = Suc g" by (cases f) auto
  have top: "top_tok s = Inr (at_tokval (pre_tok p))" using Cons.prems(1) by (simp add: top_tok_def seen_def)
  show ?case
  proof (cases "p = Star")
    case True
    have "seen at_tokval (pop (print (say_pre at_classify_string [] p) s)) u rest
        (map (\<lambda>p. at_tokval (pre_tok p)) ps @ h # k) (out @ say_pre at_classify_string [] p)"
      using Cons.prems(1) by (intro seen_pop seen_print) simp
    from Cons.IH [OF this, of g] Cons.prems g obtain s' qs rs where
      "deal_with_pointers g (pop (print (say_pre at_classify_string [] p) s)) = Inr s'" "ps = qs @ rs"
      "seen at_tokval s' u rest (map (\<lambda>p. at_tokval (pre_tok p)) rs @ h # k)
         ((out @ say_pre at_classify_string [] p) @ concat (map (say_pre at_classify_string []) qs))" by auto
    with True g top show ?thesis by (intro exI [of _ s'] exI [of _ "p # qs"] exI [of _ rs]) simp
  next
    case False
    then have "tok_type (at_tokval (pre_tok p)) \<noteq> CHR ''*''" using at_pre_tok(1) [of p] Cons.prems(2) by (simp add: QUALIFIER_def)
    then have "deal_with_pointers f s = Inr s" using g top by simp
    with Cons.prems(1) show ?thesis by (intro exI [of _ s] exI [of _ "[]"] exI [of _ "p # ps"]) simp
  qed
qed

text \<open>Tokens on the stack that are no parentheses are printed.\<close>

lemma loop_prints:
  assumes "seen at_tokval s u rest (xs @ k) out" "\<forall>x\<in>set xs. tok_type x \<noteq> CHR ''(''"
  shows "\<exists>s'. declarator_loop (length xs + f) s = declarator_loop f s' \<and>
           seen at_tokval s' u rest k (out @ concat (map tok_string xs))"
  using assms
proof (induction xs arbitrary: s out)
  case Nil
  then show ?case by auto
next
  case (Cons x xs)
  have "seen at_tokval (pop (print (tok_string x) s)) u rest (xs @ k) (out @ tok_string x)"
    using Cons.prems(1) by (intro seen_pop seen_print) simp
  from Cons.IH [OF this] Cons.prems obtain s' where
    "declarator_loop (length xs + f) (pop (print (tok_string x) s)) = declarator_loop f s'"
    "seen at_tokval s' u rest k ((out @ tok_string x) @ concat (map tok_string xs))" by auto
  with Cons.prems show ?case by (auto simp: seen_def)
qed

lemma prefixes_print:
  assumes "\<forall>p\<in>set rs. pre_ok at_classify_string p"
  shows "\<forall>x\<in>set (map (\<lambda>p. at_tokval (pre_tok p)) rs). tok_type x \<noteq> CHR ''(''"
    and "concat (map tok_string (map (\<lambda>p. at_tokval (pre_tok p)) rs)) = concat (map (say_pre at_classify_string []) rs)"
proof -
  show "\<forall>x\<in>set (map (\<lambda>p. at_tokval (pre_tok p)) rs). tok_type x \<noteq> CHR ''(''"
    using assms at_pre_tok(1) by (auto simp: QUALIFIER_def)
  show "concat (map tok_string (map (\<lambda>p. at_tokval (pre_tok p)) rs)) = concat (map (say_pre at_classify_string []) rs)"
    using assms by (induction rs) (auto simp: at_pre_tok(2))
qed

text \<open>One layer: its suffix, its pointers, and what else stands before the next token \<open>h\<close> of
  the stack.\<close>

lemma at_layer_ok:
  assumes "seen at_tokval s t ts (map (\<lambda>p. at_tokval (pre_tok p)) ps @ h # k) out" "t # ts = suf_toks sf @ u # rest"
    "u = '')'' \<or> u = '';''" "layer_ok at_classify_string (ps, sf)" "tok_type h \<noteq> CHR ''*''"
    "length (suf_toks sf) + 1 < F" "length ps < F"
  shows "\<exists>s' n. F \<le> n + length ps \<and> deal_with_declarator (Suc F) s = declarator_loop n s' \<and>
           seen at_tokval s' u rest (h # k) (out @ say_layer at_classify_string [] (ps, sf))"
proof -
  have ok: "\<forall>p\<in>set ps. pre_ok at_classify_string p" "suf_ok sf" using assms(4) by (simp_all add: layer_ok_def)
  obtain s1 where s1: "deal_with_suffix F s = Inr s1"
    "seen at_tokval s1 u rest (map (\<lambda>p. at_tokval (pre_tok p)) ps @ h # k) (out @ say_suf [] sf)"
    using at_suffix_ok [OF assms(1,2,3) ok(2) assms(6)] by blast
  obtain s2 qs rs where s2: "deal_with_pointers F s1 = Inr s2" "ps = qs @ rs"
    "seen at_tokval s2 u rest (map (\<lambda>p. at_tokval (pre_tok p)) rs @ h # k)
       ((out @ say_suf [] sf) @ concat (map (say_pre at_classify_string []) qs))"
    using pointers_ok [OF s1(2) ok(1) assms(5,7)] by blast
  have rs: "\<forall>p\<in>set rs. pre_ok at_classify_string p" using ok(1) s2(2) by simp
  obtain s3 where s3: "declarator_loop (length rs + (F - length rs)) s2 = declarator_loop (F - length rs) s3"
    "seen at_tokval s3 u rest (h # k) (out @ say_layer at_classify_string [] (ps, sf))"
    using loop_prints [OF s2(3) prefixes_print(1) [OF rs], of "F - length rs"] prefixes_print(2) [OF rs] s2(2)
    by (auto simp: say_layer_def)
  have "deal_with_declarator (Suc F) s = declarator_loop (F - length rs) s3"
    using s1(1) s2(1,2) s3(1) assms(7) by (simp flip: deal_with_suffix_def)
  with s3(2) s2(2) show ?thesis by (intro exI [of _ s3] exI [of _ "F - length rs"]) auto
qed

lemma words_print:
  assumes "\<forall>w\<in>set ws. isalnum (hd w)"
  shows "\<forall>x\<in>set (map at_tokval (rev ws)). tok_type x \<noteq> CHR ''('' \<and> tok_type x \<noteq> CHR ''*''"
    and "concat (map tok_string (map at_tokval (rev ws))) = say_words at_classify_string [] ws"
proof -
  have "fst (at_classify_string w) \<noteq> CHR ''('' \<and> fst (at_classify_string w) \<noteq> CHR ''*''" for w
    using at_classify_tags [of w] tags_not_punct by blast
  then show "\<forall>x\<in>set (map at_tokval (rev ws)). tok_type x \<noteq> CHR ''('' \<and> tok_type x \<noteq> CHR ''*''"
    using assms by (auto simp: at_tokval_word)
  show "concat (map tok_string (map at_tokval (rev ws))) = say_words at_classify_string [] ws"
    using assms by (induction ws rule: rev_induct) (auto simp: say_words_def at_tokval_word)
qed

lemma at_layers_ok:
  assumes "seen at_tokval s t ts (map at_tokval (rev (before ls)) @ map at_tokval (rev ws)) out" "t # ts = behind ls @ ['';'']"
    "ls \<noteq> []" "\<forall>l\<in>set ls. layer_ok at_classify_string l" "ws \<noteq> []" "\<forall>w\<in>set ws. isalnum (hd w)"
    "2 * length (before ls) + length (behind ls) + length ws + 4 \<le> F"
  shows "\<exists>s'. deal_with_declarator F s = Inr s' \<and> cd_stack s' = [] \<and>
           cd_out s' = out @ concat (map (say_layer at_classify_string []) ls) @ say_words at_classify_string [] ws"
  using assms
proof (induction ls arbitrary: s t ts out F rule: before.induct)
  case (2 ps sf)
  obtain g where F: "F = Suc g" using "2.prems"(7) by (cases F) auto
  obtain w vs where w: "rev ws = w # vs" using "2.prems"(5) by (cases "rev ws") auto
  have len: "length ws = Suc (length vs)" using arg_cong [OF w, of length] by simp
  have h: "tok_type (at_tokval w) \<noteq> CHR ''*''" using words_print(1) [OF "2.prems"(6)] w by simp
  obtain s1 n where s1: "g \<le> n + length ps" "deal_with_declarator F s = declarator_loop n s1"
    "seen at_tokval s1 '';'' [] (map at_tokval (rev ws)) (out @ say_layer at_classify_string [] (ps, sf))"
    using at_layer_ok [of s t ts ps "at_tokval w" "map at_tokval vs" out sf "'';''" "[]" g] 2 F w h by (auto simp: o_def)
  have n: "length (map at_tokval (rev ws)) + Suc (n - Suc (length ws)) = n" using "2.prems"(7) F s1(1) by simp
  obtain s2 where s2: "declarator_loop n s1 = declarator_loop (Suc (n - Suc (length ws))) s2"
    "seen at_tokval s2 '';'' [] [] ((out @ say_layer at_classify_string [] (ps, sf)) @ say_words at_classify_string [] ws)"
    using loop_prints [of s1 "'';''" "[]" "map at_tokval (rev ws)" "[]" _ "Suc (n - Suc (length ws))"]
      s1(3) words_print [OF "2.prems"(6)] unfolding n by fastforce
  then have "declarator_loop n s1 = Inr s2" by (simp add: seen_def)
  with s1(2) s2(2) show ?case by (simp add: seen_def)
next
  case (3 ps sf l ls)
  obtain g where F: "F = Suc g" using "3.prems"(7) by (cases F) auto
  let ?k = "map at_tokval (rev (before (l # ls))) @ map at_tokval (rev ws)"
  obtain t' ts' where t': "behind (l # ls) @ ['';''] = t' # ts'" using behind_nonempty by blast
  obtain s1 n where s1: "g \<le> n + length ps" "deal_with_declarator F s = declarator_loop n s1"
    "seen at_tokval s1 '')'' (t' # ts') (at_tokval ''('' # ?k) (out @ say_layer at_classify_string [] (ps, sf))"
    using at_layer_ok [of s t ts ps "at_tokval ''(''" ?k out sf "'')''" "t' # ts'" g] 3(2-) F t' by (auto simp: o_def)
  obtain m where m: "n = Suc m" using "3.prems"(7) F s1(1) by (cases n) auto
  obtain s2 where s2: "at_gettoken (pop s1) = Inr s2"
    "seen at_tokval s2 t' ts' ?k (out @ say_layer at_classify_string [] (ps, sf))"
    using at_tokens.next_token [OF seen_pop [OF s1(3)]] by blast
  have mb: "2 * length (before (l # ls)) + length (behind (l # ls)) + length ws + 4 \<le> m"
    using "3.prems"(7) F s1(1) m by simp
  from "3.IH" [OF s2(2) t' [symmetric] _ _ "3.prems"(5,6) mb] "3.prems"(4) obtain s3 where
    s3: "deal_with_declarator m s2 = Inr s3" "cd_stack s3 = []"
    "cd_out s3 = (out @ say_layer at_classify_string [] (ps, sf)) @
       concat (map (say_layer at_classify_string []) (l # ls)) @ say_words at_classify_string [] ws" by auto
  have "declarator_loop m s3 = Inr s3" using mb s3(2) by (cases m) auto
  with s1 s2(1) s3 m show ?case by (simp add: seen_def)
qed simp

lemma at_words_not_name:
  assumes "decl_ok at_classify_string d" "a \<in> set (d_words d @ before (d_layers d))"
  shows "tok_type (at_tokval a) \<noteq> IDENTIFIER"
proof (cases "a \<in> set (d_words d)")
  case True
  then show ?thesis using assms(1) by (auto simp: decl_ok_def at_tokval_word)
next
  case False
  then consider "a = ''(''" | l p where "l \<in> set (d_layers d)" "p \<in> set (fst l)" "a = pre_tok p"
    using before_set [of "d_layers d"] assms(2) by auto
  then show ?thesis
  proof cases
    case 2
    then have "pre_ok at_classify_string p" using assms(1) by (auto simp: decl_ok_def layer_ok_def)
    with 2 show ?thesis by (simp add: at_pre_tok(1) IDENTIFIER_def QUALIFIER_def)
  qed (simp add: IDENTIFIER_def)
qed

lemma read_to_first_ok:
  assumes "decl_ok at_classify_string d" "lexes (decl_toks d) inp"
  shows "\<exists>s t ts. read_to_first_identifer (cd_start inp) = Inr s \<and> t # ts = behind (d_layers d) @ ['';''] \<and>
           seen at_tokval s t ts (map at_tokval (rev (before (d_layers d))) @ map at_tokval (rev (d_words d)))
             (d_name d @ '' is '')"
proof -
  let ?pre = "d_words d @ before (d_layers d)"
  obtain w ws where w: "?pre = w # ws" using assms(1) by (cases "d_words d") (auto simp: decl_ok_def)
  obtain t ts where t: "behind (d_layers d) @ ['';''] = t # ts" using behind_nonempty by blast
  have toks: "decl_toks d = w # ws @ d_name d # t # ts" using w t by (simp add: decl_toks_def)
  have "\<exists>i. at_gettoken (cd_start inp) = Inr ((cd_start inp)\<lparr>cd_inp := i, cd_this := at_tokval w\<rparr>) \<and>
      lexes (ws @ d_name d # t # ts) i"
    by (rule at_gettoken_lexeme) (use assms(2) toks in \<open>simp add: cd_start_def\<close>)
  then obtain s1 where s1: "at_gettoken (cd_start inp) = Inr s1" "seen at_tokval s1 w (ws @ d_name d # t # ts) [] []"
    by (auto simp: seen_def cd_start_def)
  have nm: "tok_type (at_tokval (d_name d)) = IDENTIFIER" "tok_string (at_tokval (d_name d)) = d_name d"
    using assms(1) by (auto simp: decl_ok_def at_tokval_word at_classify_string_def split: if_splits)
  have "\<forall>a\<in>set (w # ws). tok_type (at_tokval a) \<noteq> IDENTIFIER" using at_words_not_name [OF assms(1)] w by auto
  moreover have "length ws < MAXTOKENS" using assms(1) arg_cong [OF w, of length] by (auto simp: decl_ok_def)
  ultimately obtain s2 where s2: "at_first_loop s1 = Inr s2"
    "seen at_tokval s2 (d_name d) (t # ts) (rev (map at_tokval (w # ws))) []"
    using at_tokens.first_ok [OF s1(2)] nm(1) by auto
  then obtain s3 where s3: "at_gettoken (print (d_name d @ '' is '') s2) = Inr s3"
    "seen at_tokval s3 t ts (rev (map at_tokval ?pre)) (d_name d @ '' is '')"
    using at_tokens.next_token [OF seen_print [OF s2(2)]] w by fastforce
  have "read_to_first_identifer (cd_start inp) = Inr s3"
    using s1(1) s2 s3(1) nm(2) by (auto simp: read_to_first_identifer_def seen_def)
  with s3(2) t show ?thesis by (intro exI [of _ s3] exI [of _ t] exI [of _ ts]) (simp add: rev_map)
qed

section \<open>Unfinished parameter lists and long words\<close>

lemma first_char_set: "first_char inp = (c, r) \<Longrightarrow> insert c (set r) \<subseteq> insert (CHR 0xFF) (set inp)"
proof -
  assume "first_char inp = (c, r)"
  moreover have "set (dropWhile (\<lambda>c. c = CHR '' '') inp) \<subseteq> set inp" by (auto dest: set_dropWhileD)
  ultimately show ?thesis by (auto simp: first_char_def split: list.splits)
qed

lemma read_word_set: "read_word inp w = Inr (v, r) \<Longrightarrow> set r \<subseteq> set inp"
  by (induction inp arbitrary: w) (fastforce split: if_splits)+

lemma gettoken_no_closing:
  assumes "gettoken s = Inr s'" "CHR '')'' \<notin> set (cd_inp s)"
  shows "tok_type (cd_this s') \<noteq> CHR '')'' \<and> CHR '')'' \<notin> set (cd_inp s')"
proof -
  obtain c r where f: "first_char (cd_inp s) = (c, r)" by (cases "first_char (cd_inp s)")
  then have c: "c \<noteq> CHR '')''" "CHR '')'' \<notin> set r" using first_char_set [OF f] assms(2) by auto
  show ?thesis
  proof (cases "isalnum c")
    case True
    with assms(1) f obtain w i where w: "read_word r [c] = Inr (w, i)"
      "s' = s\<lparr>cd_inp := i, cd_this := \<lparr>tok_type = fst (classify_string w), tok_string = snd (classify_string w)\<rparr>\<rparr>"
      by (auto simp: gettoken_def andthen_Inr_iff case_prod_beta)
    then show ?thesis using read_word_set [OF w(1)] c(2) classify_tags [of w] tags_not_punct by auto
  qed (use assms(1) f c in \<open>auto simp: gettoken_def\<close>)
qed

lemma skip_params_hangs:
  "tok_type (cd_this s) \<noteq> CHR '')'' \<Longrightarrow> CHR '')'' \<notin> set (cd_inp s) \<Longrightarrow> skip_params fuel s \<noteq> Inr s'"
proof (induction fuel arbitrary: s)
  case (Suc fuel)
  then show ?case using gettoken_no_closing [of s] by (cases "gettoken s") auto
qed simp

lemma read_word_long:
  assumes "\<forall>c\<in>set t. isalnum c" "MAXTOKENLEN \<le> length w + length t"
  shows "read_word (t @ r) w = Inl TokenOverrun"
  using assms
proof (induction t arbitrary: w)
  case Nil
  then show ?case by (cases r) auto
qed simp

section \<open>The two readers compared\<close>

definition unspaced :: "string \<Rightarrow> string" where
  "unspaced s = [c \<leftarrow> s. c \<noteq> CHR '' '']"

lemma unspaced_simps [simp]:
  "unspaced [] = []" "unspaced (c # s) = (if c = CHR '' '' then unspaced s else c # unspaced s)"
  "unspaced (a @ b) = unspaced a @ unspaced b"
  by (simp_all add: unspaced_def)

lemma unspaced_concat [simp]: "unspaced (concat xs) = concat (map unspaced xs)"
  by (induction xs) simp_all

text \<open>The classifiers differ in \<open>static\<close> alone, and no word of a declaration the recursive
  reader knows is \<open>static\<close>.\<close>

lemma at_classify_eq: "w \<noteq> ''static'' \<Longrightarrow> at_classify_string w = classify_string w"
  by (simp add: classify_string_def at_classify_string_def)

lemma at_not_static: "fst (at_classify_string w) \<noteq> IDENTIFIER \<Longrightarrow> at_classify_string w = classify_string w"
  by (rule at_classify_eq) (auto simp: at_classify_string_def)

lemma at_pre_ok: "pre_ok at_classify_string p \<Longrightarrow> pre_ok classify_string p"
  by (cases p) (auto simp flip: at_not_static)

lemma at_decl_ok: "decl_ok at_classify_string d \<Longrightarrow> d_name d \<noteq> ''static'' \<Longrightarrow> decl_ok classify_string d"
  by (auto simp: decl_ok_def layer_ok_def at_pre_ok simp flip: at_classify_eq [of "d_name d"] at_not_static)

lemma unspaced_say_pre:
  "pre_ok at_classify_string p \<Longrightarrow> unspaced (say_pre classify_string '' '' p) = unspaced (say_pre at_classify_string [] p)"
  by (cases p) (auto simp flip: at_not_static)

lemma unspaced_say_suf: "unspaced (say_suf '' '' sf) = unspaced (say_suf [] sf)"
proof (cases sf)
  case (Arrays ns)
  have "unspaced (say_arr '' '' n) = unspaced (say_arr [] n)" for n by (cases n) simp_all
  with Arrays show ?thesis by (simp add: comp_def)
qed simp_all

lemma unspaced_say_layer:
  "layer_ok at_classify_string l \<Longrightarrow> unspaced (say_layer classify_string '' '' l) = unspaced (say_layer at_classify_string [] l)"
  unfolding say_layer_def layer_ok_def
  by (simp add: unspaced_say_suf) (intro arg_cong [where f = concat] map_cong; simp add: unspaced_say_pre)

lemma unspaced_english:
  assumes "decl_ok at_classify_string d"
  shows "unspaced (english classify_string '' '' d) = unspaced (english at_classify_string [] d)"
proof -
  have "map (\<lambda>l. unspaced (say_layer classify_string '' '' l)) (d_layers d) =
      map (\<lambda>l. unspaced (say_layer at_classify_string [] l)) (d_layers d)"
    using assms by (simp add: decl_ok_def unspaced_say_layer)
  moreover have *: "at_classify_string w = classify_string w" if "w \<in> set (d_words d)" for w
    using that assms by (intro at_not_static) (auto simp: decl_ok_def)
  have "map (\<lambda>w. unspaced (snd (at_classify_string w))) (rev (d_words d)) = map (\<lambda>w. unspaced (snd (classify_string w))) (rev (d_words d))"
    by (intro map_cong) (simp_all add: *)
  ultimately show ?thesis by (simp del: map_eq_conv add: english_def say_words_def comp_def)
qed

section \<open>Properties\<close>

text \<open>C16: the state machine of cdecl2 is correct: for every declaration, built from a name,
  any nesting of pointers, qualifiers, arrays and parameter lists around it, and the words of its
  type, however the tokens of its C text are spaced, the program ends, within a number of rounds
  linear in the number of tokens, and has printed the declaration in English: from the name
  outwards, suffixes before prefixes at each level.\<close>

theorem cdecl_says_declaration:
  assumes "decl_ok classify_string d" "lexes (decl_toks d) inp" "3 * length (decl_toks d) + 8 \<le> fuel"
  shows "cdecl fuel inp = Inr (english classify_string '' '' d)"
  using assms by (rule cdecl_ok)

definition sample :: decl where
  "sample = \<lparr>d_name = ''fp'', d_layers = [([Star], Arrays [Some 3]), ([Star], Params [''int''])], d_words = [''char'']\<rparr>"

lemma sample_toks: "decl_toks sample = [''char'', ''*'', ''('', ''*'', ''fp'', ''['', ''3'', '']'', '')'', ''('', ''int'', '')'', '';'']"
  by (simp add: sample_def decl_toks_def dec.simps digit_char_def char_of_def bit_0)

lemma lexes_step:
  assumes "dropWhile (\<lambda>c. c = CHR '' '') inp = t @ r" "lexeme t"
    "isalnum (hd t) \<longrightarrow> r \<noteq> [] \<longrightarrow> \<not> isalnum (hd r) \<and> hd r \<noteq> CHR 0xFF" "lexes ts r"
  shows "lexes (t # ts) inp"
  using assms by (simp add: Let_def)

lemma sample_text: "lexes (decl_toks sample) ''char *(*fp[3])(int);''"
  unfolding sample_toks
  by (rule lexes_step, simp, simp add: lexeme_def MAXTOKENLEN_def isalnum_def isalpha_def isdigit_def uchar_def,
      simp add: isalnum_def isalpha_def isdigit_def uchar_def)+ simp

lemma sample_ok: "decl_ok classify_string sample" "decl_ok at_classify_string sample"
  by (simp_all add: sample_def decl_ok_def layer_ok_def classify_string_def at_classify_string_def MAXTOKENS_def
      isalnum_def isalpha_def isdigit_def uchar_def)

lemmas sample_english = english_def sample_def say_layer_def say_words_def classify_string_def
  at_classify_string_def dec_int_def dec.simps digit_char_def char_of_def bit_0

theorem cdecl_says_declaration_witness:
  "cdecl 100 ''char *(*fp[3])(int);'' =
     Inr (''fp is array 0..2 of pointer to function returning  pointer to char '' @ [NL])"
  using cdecl_says_declaration [OF sample_ok(1) sample_text, of 100] by (simp add: sample_toks) (simp add: sample_english)

text \<open>C34: the recursive reader ends on every declaration of the words it knows (\<open>const\<close>,
  \<open>volatile\<close> and the type names; its list lacks \<open>static\<close>), within a number of calls linear in
  the number of tokens, and prints the declaration's parts in the order of C16 but run together
  without blanks between them, as in \<open>array0..2ofpointer tofunction\<close>.  Blanks apart, its output
  is that of cdecl2, unless the declared name is \<open>static\<close>.\<close>

theorem analytype_says_declaration:
  assumes "decl_ok at_classify_string d" "lexes (decl_toks d) inp" "2 * length (decl_toks d) + 4 \<le> fuel"
  shows "analytype fuel inp = Inr (english at_classify_string [] d) \<and>
    (d_name d \<noteq> ''static'' \<and> 3 * length (decl_toks d) + 8 \<le> fuel' \<longrightarrow>
      (\<exists>out. cdecl fuel' inp = Inr out \<and> unspaced out = unspaced (english at_classify_string [] d)))"
proof -
  have d: "d_layers d \<noteq> []" "\<forall>l\<in>set (d_layers d). layer_ok at_classify_string l" "d_words d \<noteq> []"
    "\<forall>w\<in>set (d_words d). isalnum (hd w)"
    using assms(1) by (auto simp: decl_ok_def)
  obtain s t ts where s: "read_to_first_identifer (cd_start inp) = Inr s" "t # ts = behind (d_layers d) @ ['';'']"
    "seen at_tokval s t ts (map at_tokval (rev (before (d_layers d))) @ map at_tokval (rev (d_words d))) (d_name d @ '' is '')"
    using read_to_first_ok [OF assms(1,2)] by blast
  have "2 * length (before (d_layers d)) + length (behind (d_layers d)) + length (d_words d) + 4 \<le> fuel"
    using assms(3) by (simp add: decl_toks_def)
  from at_layers_ok [OF s(3,2) d this] s(1) show ?thesis
    using cdecl_ok [OF at_decl_ok [OF assms(1)] assms(2)] unspaced_english [OF assms(1)]
    by (auto simp: analytype_def english_def print_def)
qed

theorem analytype_says_declaration_witness:
  "analytype 100 ''char *(*fp[3])(int);'' = Inr (''fp is array0..2ofpointer tofunction returning pointer tochar'' @ [NL])"
  using analytype_says_declaration [OF sample_ok(2) sample_text, of 100] by (simp add: sample_toks) (simp add: sample_english)

text \<open>A \<open>static\<close> declaration is not known: \<open>static\<close> is taken for the declared name.\<close>

theorem analytype_static_is_a_name:
  "map_sum id (\<lambda>s. (cd_out s, cd_this s)) (read_to_first_identifer (cd_start ''static int x;'')) =
     Inr (''static is '', \<lparr>tok_type = TYPE_tag, tok_string = ''int''\<rparr>)"
  by (simp add: read_to_first_identifer_def at_first_loop.simps at_gettoken_def cd_start_def first_char_def
      isalnum_def isalpha_def isdigit_def uchar_def at_classify_string_def MAXTOKENLEN_def print_def)

text \<open>A parameter list without closing parenthesis makes the machine read for ever: in the
  state for parameters, with no closing parenthesis left in the input, no amount of fuel lets it
  return.\<close>

theorem open_params_never_return:
  assumes "tok_type (cd_this s) = CHR ''(''" "CHR '')'' \<notin> set (cd_inp s)"
  shows "get_params fuel s \<noteq> Inr r"
  using assms skip_params_hangs [of s fuel] by (auto simp: get_params_def andthen_Inr_iff)

theorem open_params_never_return_witness:
  "\<forall>fuel r. get_params fuel ((cd_start ''int x'')\<lparr>cd_this := punct (CHR ''('')\<rparr>) \<noteq> Inr r"
  by (intro allI open_params_never_return) (simp_all add: cd_start_def)

text \<open>\<open>gettoken\<close> stays inside the 64 characters of a token exactly for words of at most 63
  letters and digits; a longer one is written past the token's end.\<close>

theorem gettoken_overrun_iff:
  assumes "w \<noteq> []" "\<forall>c\<in>set w. isalnum c" "r \<noteq> [] \<longrightarrow> \<not> isalnum (hd r) \<and> hd r \<noteq> CHR 0xFF"
    "cd_inp s = replicate n (CHR '' '') @ w @ r"
  shows "gettoken s = Inl TokenOverrun \<longleftrightarrow> MAXTOKENLEN \<le> length w"
proof -
  obtain c v where w: "w = c # v" using assms(1) by (cases w) auto
  have sp: "c \<noteq> CHR '' ''" using assms(2) w by (auto simp: isalnum_def isalpha_def isdigit_def uchar_def)
  then have f: "first_char (cd_inp s) = (c, v @ r)" using assms(4) w by (simp add: first_char_def dropWhile_append3)
  show ?thesis
  proof (cases "MAXTOKENLEN \<le> length w")
    case True
    then show ?thesis using read_word_long [of v "[c]" r] f assms(2) w by (simp add: gettoken_def)
  next
    case False
    then have "read_word (v @ r) [c] = Inr (w, r)" using read_word_ok [of v "[c]" r] assms(2,3) w by simp
    with f assms(2) w False show ?thesis by (simp add: gettoken_def split: prod.split)
  qed
qed

theorem gettoken_overrun_iff_witness: "gettoken (cd_start (replicate 64 (CHR ''x''))) = Inl TokenOverrun"
  using gettoken_overrun_iff [of "replicate 64 (CHR ''x'')" "[]" "cd_start (replicate 64 (CHR ''x''))" 0]
  by (simp add: cd_start_def MAXTOKENLEN_def isalnum_def isalpha_def uchar_def)

end
