(* ===== verification/Rio.thy ===== *)
theory Rio
  imports Prelude
begin

text \<open>
  Reading and writing descriptors in the presence of short counts, interrupts and errors: the
  functions \<open>readn\<close> and \<open>writen\<close> of \<^verbatim>\<open>src/c_code/apue/rdwr_n.c\<close> and the robust I/O package of
  \<^verbatim>\<open>src/c_code/csapp/code/src/csapp.c\<close>, unbuffered (\<open>rio_readn\<close>, \<open>rio_writen\<close>) and buffered
  (\<open>rio_read\<close>, \<open>rio_readnb\<close>, \<open>rio_readlineb\<close>).

  A descriptor open for reading is the bytes still to come and the way the next calls of \<open>read\<close>
  will behave: a short count, an interrupt, an error; after these every call transfers all it
  can.  A descriptor open for writing is the bytes written and the behaviour of the next calls of
  \<open>write\<close>.
\<close>

section \<open>Definitions\<close>

subsection \<open>The system calls\<close>

datatype event = Short nat | Intr | Fail

datatype 'a ret = Ok 'a | EINTR | EIO

record rfd =
  pend :: string
  revents :: "event list"

record wfd =
  sent :: string
  wevents :: "event list"

text \<open>\<open>read\<close> of \<open>n > 0\<close> bytes gives at least one byte unless the end is reached.\<close>

definition sys_read :: "rfd \<Rightarrow> nat \<Rightarrow> string ret \<times> rfd" where
  "sys_read d n =
     (case revents d of
        [] \<Rightarrow> (Ok (take n (pend d)), d\<lparr>pend := drop n (pend d)\<rparr>)
      | Short k # es \<Rightarrow>
          let m = min n (Suc k) in (Ok (take m (pend d)), d\<lparr>pend := drop m (pend d), revents := es\<rparr>)
      | Intr # es \<Rightarrow> (EINTR, d\<lparr>revents := es\<rparr>)
      | Fail # es \<Rightarrow> (EIO, d\<lparr>revents := es\<rparr>))"

definition sys_write :: "wfd \<Rightarrow> string \<Rightarrow> nat ret \<times> wfd" where
  "sys_write d s =
     (case wevents d of
        [] \<Rightarrow> (Ok (length s), d\<lparr>sent := sent d @ s\<rparr>)
      | Short k # es \<Rightarrow> (Ok (min k (length s)), d\<lparr>sent := sent d @ take k s, wevents := es\<rparr>)
      | Intr # es \<Rightarrow> (EINTR, d\<lparr>wevents := es\<rparr>)
      | Fail # es \<Rightarrow> (EIO, d\<lparr>wevents := es\<rparr>))"

lemma sys_read_bound: "sys_read d n = (Ok bs, d') \<Longrightarrow> length bs \<le> n"
  by (auto simp: sys_read_def Let_def split: list.splits event.splits)

subsection \<open>rdwr_n.c\<close>

text \<open>The result is the return value and the bytes stored.\<close>

function readn_loop :: "nat \<Rightarrow> nat \<Rightarrow> string \<Rightarrow> rfd \<Rightarrow> int \<times> string \<times> rfd" where
  "readn_loop n nleft buf d =
     (if nleft > 0 then
        (case sys_read d nleft of
           (Ok bs, d) \<Rightarrow>
             if length bs = 0 then (int n - int nleft, buf, d)
             else readn_loop n (nleft - length bs) (buf @ bs) d
         | (_, d) \<Rightarrow> if nleft = n then (- 1, buf, d) else (int n - int nleft, buf, d))
      else (int n - int nleft, buf, d))"
  by pat_completeness auto
termination by (relation "measure (\<lambda>(n, nleft, buf, d). nleft)") auto

definition readn :: "rfd \<Rightarrow> nat \<Rightarrow> int \<times> string \<times> rfd" where
  "readn d n = readn_loop n n [] d"

function writen_loop :: "nat \<Rightarrow> string \<Rightarrow> wfd \<Rightarrow> int \<times> wfd" where
  "writen_loop n s d =
     (if length s > 0 then
        (case sys_write d s of
           (Ok k, d) \<Rightarrow>
             if k = 0 then (int n - int (length s), d) else writen_loop n (drop k s) d
         | (_, d) \<Rightarrow> if length s = n then (- 1, d) else (int n - int (length s), d))
      else (int n - int (length s), d))"
  by pat_completeness auto
termination by (relation "measure (\<lambda>(n, s, d). length s)") auto

definition writen :: "wfd \<Rightarrow> string \<Rightarrow> int \<times> wfd" where
  "writen d s = writen_loop (length s) s d"

subsection \<open>csapp.c, unbuffered\<close>

lemma sys_read_events:
  "sys_read d n = (EINTR, d') \<Longrightarrow> length (revents d') < length (revents d)"
  "sys_read d n = (r, d') \<Longrightarrow> length (revents d') \<le> length (revents d)"
  by (auto simp: sys_read_def Let_def split: list.splits event.splits)

lemma sys_write_events:
  "sys_write d s = (EINTR, d') \<Longrightarrow> length (wevents d') < length (wevents d)"
  "sys_write d s = (r, d') \<Longrightarrow> length (wevents d') \<le> length (wevents d)"
  by (auto simp: sys_write_def split: list.splits event.splits)

function rio_readn_loop :: "nat \<Rightarrow> nat \<Rightarrow> string \<Rightarrow> rfd \<Rightarrow> int \<times> string \<times> rfd" where
  "rio_readn_loop n nleft buf d =
     (if nleft > 0 then
        (case sys_read d nleft of
           (Ok bs, d) \<Rightarrow>
             if length bs = 0 then (int n - int nleft, buf, d)
             else rio_readn_loop n (nleft - length bs) (buf @ bs) d
         | (EINTR, d) \<Rightarrow> rio_readn_loop n nleft buf d
         | (EIO, d) \<Rightarrow> (- 1, buf, d))
      else (int n - int nleft, buf, d))"
  by pat_completeness auto
termination
  by (relation "measures [\<lambda>(n, nleft, buf, d). nleft, \<lambda>(n, nleft, buf, d). length (revents d)]")
    (auto dest: sys_read_events(1) [OF sym])

definition rio_readn :: "rfd \<Rightarrow> nat \<Rightarrow> int \<times> string \<times> rfd" where
  "rio_readn d n = rio_readn_loop n n [] d"

text \<open>\<open>errno\<close> keeps its value when \<open>write\<close> returns 0; \<open>intr\<close> says whether it is \<open>EINTR\<close>.  In
  the model a call that transfers nothing is an event, so a loop over such calls ends.\<close>

lemma sys_write_zero: "sys_write d s = (Ok k, d') \<Longrightarrow> k = 0 \<Longrightarrow> s \<noteq> [] \<Longrightarrow> length (wevents d') < length (wevents d)"
  by (auto simp: sys_write_def split: list.splits event.splits)

lemma sys_write_bound: "sys_write d s = (Ok k, d') \<Longrightarrow> k \<le> length s"
  by (auto simp: sys_write_def split: list.splits event.splits)

function rio_writen_loop :: "nat \<Rightarrow> bool \<Rightarrow> string \<Rightarrow> wfd \<Rightarrow> int \<times> wfd" where
  "rio_writen_loop n intr s d =
     (if length s > 0 then
        (case sys_write d s of
           (Ok k, d) \<Rightarrow>
             if k = 0 then if intr then rio_writen_loop n intr s d else (- 1, d)
             else rio_writen_loop n intr (drop k s) d
         | (EINTR, d) \<Rightarrow> rio_writen_loop n True s d
         | (EIO, d) \<Rightarrow> (- 1, d))
      else (int n, d))"
  by pat_completeness auto
termination
  by (relation "measures [\<lambda>(n, intr, s, d). length s, \<lambda>(n, intr, s, d). length (wevents d)]")
    (auto dest: sys_write_events(1) [OF sym] sys_write_zero [OF sym])

definition rio_writen :: "bool \<Rightarrow> wfd \<Rightarrow> string \<Rightarrow> int \<times> wfd" where
  "rio_writen intr d s = rio_writen_loop (length s) intr s d"

subsection \<open>csapp.c, buffered\<close>

definition RIO_BUFSIZE :: nat where
  "RIO_BUFSIZE = 8192"

record rio_t =
  rio_fd :: rfd
  rio_cnt :: int
  rio_bufptr :: nat
  rio_buf :: string

text \<open>The refill loop: \<open>Inr rp\<close> when there is something in the buffer, \<open>Inl\<close> the value to
  return otherwise.\<close>

function rio_refill :: "rio_t \<Rightarrow> (int \<times> rio_t) + rio_t" where
  "rio_refill rp =
     (if rio_cnt rp \<le> 0 then
        (case sys_read (rio_fd rp) RIO_BUFSIZE of
           (EINTR, d) \<Rightarrow> rio_refill (rp\<lparr>rio_fd := d, rio_cnt := - 1\<rparr>)
         | (EIO, d) \<Rightarrow> Inl (- 1, rp\<lparr>rio_fd := d, rio_cnt := - 1\<rparr>)
         | (Ok bs, d) \<Rightarrow>
             let rp = rp\<lparr>rio_fd := d, rio_cnt := int (length bs), rio_buf := bs @ drop (length bs) (rio_buf rp)\<rparr> in
             if length bs = 0 then Inl (0, rp) else Inr (rp\<lparr>rio_bufptr := 0\<rparr>))
      else Inr rp)"
  by pat_completeness auto
termination
  by (relation "measure (\<lambda>rp. length (revents (rio_fd rp)))") (auto dest: sys_read_events(1) [OF sym])

declare readn_loop.simps [simp del] writen_loop.simps [simp del] rio_readn_loop.simps [simp del]
  rio_writen_loop.simps [simp del] rio_refill.simps [simp del]

definition rio_read :: "rio_t \<Rightarrow> nat \<Rightarrow> int \<times> string \<times> rio_t" where
  "rio_read rp n =
     (case rio_refill rp of
        Inl (r, rp) \<Rightarrow> (r, [], rp)
      | Inr rp \<Rightarrow>
          let cnt = (if rio_cnt rp < int n then nat (rio_cnt rp) else n) in
          (int cnt, take cnt (drop (rio_bufptr rp) (rio_buf rp)),
           rp\<lparr>rio_bufptr := rio_bufptr rp + cnt, rio_cnt := rio_cnt rp - int cnt\<rparr>))"

definition rio_readinitb :: "rio_t \<Rightarrow> rfd \<Rightarrow> rio_t" where
  "rio_readinitb rp fd = rp\<lparr>rio_fd := fd, rio_cnt := 0, rio_bufptr := 0\<rparr>"

text \<open>\<open>rio_read\<close> returns -1 only for errors other than \<open>EINTR\<close>.\<close>

function rio_readnb_loop :: "nat \<Rightarrow> nat \<Rightarrow> string \<Rightarrow> rio_t \<Rightarrow> int \<times> string \<times> rio_t" where
  "rio_readnb_loop n nleft buf rp =
     (if nleft > 0 then
        (case rio_read rp nleft of (nread, bs, rp) \<Rightarrow>
         if nread < 0 then (- 1, buf, rp)
         else if nread = 0 then (int n - int nleft, buf, rp)
         else rio_readnb_loop n (nleft - nat nread) (buf @ bs) rp)
      else (int n - int nleft, buf, rp))"
  by pat_completeness auto
termination by (relation "measure (\<lambda>(n, nleft, buf, rp). nleft)") auto

definition rio_readnb :: "rio_t \<Rightarrow> nat \<Rightarrow> int \<times> string \<times> rio_t" where
  "rio_readnb rp n = rio_readnb_loop n n [] rp"

text \<open>\<open>rio_readlineb\<close>: the return value, the string stored (without its NUL; nothing is stored
  at all when the value is 0) and the state.\<close>

function rio_readlineb_loop :: "nat \<Rightarrow> nat \<Rightarrow> string \<Rightarrow> rio_t \<Rightarrow> int \<times> string option \<times> rio_t" where
  "rio_readlineb_loop n maxlen buf rp =
     (if n < maxlen then
        (case rio_read rp 1 of (rc, bs, rp) \<Rightarrow>
         if rc = 1 then
           (let buf = buf @ bs in
            if bs = [NL] then (int n, Some buf, rp) else rio_readlineb_loop (n + 1) maxlen buf rp)
         else if rc = 0 then if n = 1 then (0, None, rp) else (int n, Some buf, rp)
         else (- 1, None, rp))
      else (int n, Some buf, rp))"
  by pat_completeness auto
termination by (relation "measure (\<lambda>(n, maxlen, buf, rp). maxlen - n)") auto

declare rio_readnb_loop.simps [simp del] rio_readlineb_loop.simps [simp del]

definition rio_readlineb :: "rio_t \<Rightarrow> nat \<Rightarrow> int \<times> string option \<times> rio_t" where
  "rio_readlineb rp maxlen = rio_readlineb_loop 1 maxlen [] rp"

end
