(* ===== verification/Tiny.thy ===== *)
theory Tiny
  imports Rio Cstdio
begin

text \<open>
  The web server of \<^verbatim>\<open>src/c_code/csapp/tiny.c\<close>: what \<open>doit\<close> does with one connection.  The
  request comes through the buffered reader of theory \<open>Rio\<close>, the response goes through
  \<open>rio_writen\<close>.  The file system and the CGI programs are parameters: what \<open>stat\<close> and \<open>open\<close> say
  of a file name, and what a program writes when it is run with a query string.

  The lines \<open>sprintf(body, "%s...", body)\<close> append to their buffer, which is what the C library
  the program was written for does, although the standard leaves overlapping arguments undefined.
  Writing past a buffer, using a variable that was never set, and the end of the process in an
  error-handling wrapper are errors.
\<close>

section \<open>Definitions\<close>

datatype tiny_error = Overrun | Uninit | Hangs | Exits string

definition MAXLINE :: nat where "MAXLINE = 8192"
definition MAXBUF :: nat where "MAXBUF = 8192"

text \<open>What the program finds outside: the mode of a file, the bytes of a file it can open, the
  output of a CGI program.\<close>

record tiny_env =
  e_stat :: "string \<Rightarrow> nat option"
  e_open :: "string \<Rightarrow> string option"
  e_cgi :: "string \<Rightarrow> string \<Rightarrow> string"

record conn =
  c_rio :: rio_t
  c_out :: wfd
  c_intr :: bool
  c_log :: string

abbreviation CR :: char where "CR \<equiv> CHR 0x0D"
abbreviation CRLF :: string where "CRLF \<equiv> [CR, NL]"

definition to_buf :: "nat \<Rightarrow> string \<Rightarrow> tiny_error + string" where
  "to_buf n s = (if length s < n then Inr s else Inl Overrun)"

definition log_out :: "string \<Rightarrow> conn \<Rightarrow> conn" where
  "log_out s c = c\<lparr>c_log := c_log c @ s\<rparr>"

definition Rio_writen :: "string \<Rightarrow> conn \<Rightarrow> tiny_error + conn" where
  "Rio_writen s c =
     (case rio_writen (c_intr c) (c_out c) s of (r, d) \<Rightarrow>
      if r \<noteq> int (length s) then Inl (Exits ''Rio_writen error'') else Inr (c\<lparr>c_out := d\<rparr>))"

text \<open>\<open>Rio_readlineb(rp, buf, MAXLINE)\<close>: \<open>buf\<close> is what the buffer holds before and after, the
  characters before the NUL; at the end of the input it is left alone.\<close>

definition Rio_readlineb :: "string option \<Rightarrow> conn \<Rightarrow> tiny_error + string option \<times> conn" where
  "Rio_readlineb buf c =
     (case rio_readlineb (c_rio c) MAXLINE of (rc, l, rp) \<Rightarrow>
      if rc < 0 then Inl (Exits ''Rio_readlineb error'')
      else Inr (case l of None \<Rightarrow> buf | Some l \<Rightarrow> Some (cstr l), c\<lparr>c_rio := rp\<rparr>))"

definition use_buf :: "string option \<Rightarrow> tiny_error + string" where
  "use_buf buf = (case buf of None \<Rightarrow> Inl Uninit | Some s \<Rightarrow> Inr s)"

definition clienterror :: "string \<Rightarrow> string \<Rightarrow> string \<Rightarrow> string \<Rightarrow> conn \<Rightarrow> tiny_error + conn" where
  "clienterror cause errnum shortmsg longmsg c =
     andthen (to_buf MAXBUF ''<html><title>Tiny Error</title>'') (\<lambda>body.
     andthen (to_buf MAXBUF (body @ ''<body bgcolor=ffffff>'' @ CRLF)) (\<lambda>body.
     andthen (to_buf MAXBUF (body @ errnum @ '': '' @ shortmsg @ CRLF)) (\<lambda>body.
     andthen (to_buf MAXBUF (body @ ''<p>'' @ longmsg @ '': '' @ cause @ CRLF)) (\<lambda>body.
     andthen (to_buf MAXBUF (body @ ''<hr><em>The Tiny Web server</em>'' @ CRLF)) (\<lambda>body.
     andthen (to_buf MAXLINE (''HTTP/1.0 '' @ errnum @ '' '' @ shortmsg @ CRLF)) (\<lambda>buf.
     andthen (Rio_writen buf c) (\<lambda>c.
     andthen (to_buf MAXLINE (''Content-type: text/html'' @ CRLF)) (\<lambda>buf.
     andthen (Rio_writen buf c) (\<lambda>c.
     andthen (to_buf MAXLINE (''Content-length: '' @ dec_int (int (length body)) @ CRLF @ CRLF)) (\<lambda>buf.
     andthen (Rio_writen buf c) (\<lambda>c.
     Rio_writen body c)))))))))))"

fun requesthdrs_loop :: "nat \<Rightarrow> string \<Rightarrow> conn \<Rightarrow> tiny_error + conn" where
  "requesthdrs_loop 0 buf c = Inl Hangs"
| "requesthdrs_loop (Suc fuel) buf c =
     (if buf \<noteq> CRLF then
        andthen (Rio_readlineb (Some buf) c) (\<lambda>(buf, c).
        andthen (use_buf buf) (\<lambda>buf.
        requesthdrs_loop fuel buf (log_out (buf @ [NL]) c)))
      else Inr c)"

definition read_requesthdrs :: "nat \<Rightarrow> conn \<Rightarrow> tiny_error + conn" where
  "read_requesthdrs fuel c =
     andthen (Rio_readlineb None c) (\<lambda>(buf, c).
     andthen (use_buf buf) (\<lambda>buf. requesthdrs_loop fuel buf c))"

text \<open>The result: whether the content is static, the file name, the CGI arguments.\<close>

definition parse_uri :: "string \<Rightarrow> tiny_error + bool \<times> string \<times> string" where
  "parse_uri uri =
     (if strstr uri ''cgi-bin'' = None then
        andthen (to_buf MAXLINE (''.'' @ uri)) (\<lambda>filename.
        if uri = [] then Inl Uninit
        else if uri ! (length uri - 1) = CHR ''/''
        then andthen (to_buf MAXLINE (filename @ ''home.html'')) (\<lambda>filename. Inr (True, filename, []))
        else Inr (True, filename, []))
      else
        (case strchr uri (CHR ''?'') of
           Some ptr \<Rightarrow>
             andthen (to_buf MAXLINE (drop (ptr + 1) uri)) (\<lambda>cgiargs.
             andthen (to_buf MAXLINE (''.'' @ take ptr uri)) (\<lambda>filename. Inr (False, filename, cgiargs)))
         | None \<Rightarrow>
             andthen (to_buf MAXLINE (''.'' @ uri)) (\<lambda>filename. Inr (False, filename, []))))"

definition get_filetype :: "string \<Rightarrow> string" where
  "get_filetype filename =
     (if strstr filename ''.html'' \<noteq> None then ''text/html''
      else if strstr filename ''.gif'' \<noteq> None then ''image/gif''
      else if strstr filename ''.jpg'' \<noteq> None then ''image/jpeg''
      else ''text/plain'')"

text \<open>A private mapping of \<open>len\<close> bytes of a file: the file's last page is filled up with NULs, and
  there is nothing to read behind it, so \<open>write\<close> fails there.\<close>

definition PAGE :: nat where "PAGE = 4096"

definition mapped :: "string \<Rightarrow> nat \<Rightarrow> string option" where
  "mapped content len =
     (let avail = (length content + PAGE - 1) div PAGE * PAGE in
      if len \<le> avail then Some (take len (content @ replicate (avail - length content) NUL)) else None)"

definition serve_static :: "tiny_env \<Rightarrow> string \<Rightarrow> nat \<Rightarrow> conn \<Rightarrow> tiny_error + conn" where
  "serve_static e filename filesize c =
     (let filetype = get_filetype filename in
     andthen (to_buf MAXBUF (''HTTP/1.0 200 OK'' @ CRLF)) (\<lambda>buf.
     andthen (to_buf MAXBUF (buf @ ''Server: Tiny Web Server'' @ CRLF)) (\<lambda>buf.
     andthen (to_buf MAXBUF (buf @ ''Content-length: '' @ dec_int (int filesize) @ CRLF)) (\<lambda>buf.
     andthen (to_buf MAXBUF (buf @ ''Content-type: '' @ filetype @ CRLF @ CRLF)) (\<lambda>buf.
     andthen (Rio_writen buf c) (\<lambda>c.
     case e_open e filename of
       None \<Rightarrow> Inl (Exits ''Open error'')
     | Some content \<Rightarrow>
         if filesize = 0 then Inl (Exits ''mmap error'')
         else (case mapped content filesize of
                 None \<Rightarrow> Inl (Exits ''Rio_writen error'')
               | Some bytes \<Rightarrow> Rio_writen bytes c)))))))"

text \<open>The child process writes to the connection; the server waits for it.\<close>

definition serve_dynamic :: "tiny_env \<Rightarrow> string \<Rightarrow> string \<Rightarrow> conn \<Rightarrow> tiny_error + conn" where
  "serve_dynamic e filename cgiargs c =
     andthen (to_buf MAXLINE (''HTTP/1.0 200 OK '' @ CRLF)) (\<lambda>buf.
     andthen (Rio_writen buf c) (\<lambda>c.
     andthen (to_buf MAXLINE (''server:tiny web server'' @ CRLF)) (\<lambda>buf.
     andthen (Rio_writen buf c) (\<lambda>c.
     Inr (c\<lparr>c_out := (c_out c)\<lparr>sent := sent (c_out c) @ e_cgi e filename cgiargs\<rparr>\<rparr>)))))"

definition tolower :: "char \<Rightarrow> char" where
  "tolower c = (if 65 \<le> uchar c \<and> uchar c \<le> 90 then char_of (nat (uchar c) + 32) else c)"

definition strcasecmp_eq :: "string \<Rightarrow> string \<Rightarrow> bool" where
  "strcasecmp_eq s t \<longleftrightarrow> map tolower s = map tolower t"

text \<open>\<open>S_ISREG\<close>, \<open>S_IRUSR\<close> and \<open>S_IXUSR\<close>: the file type is in the bits from 12 on, regular
  files have type 8; the owner's permissions are bits 8 and 6.\<close>

definition S_ISREG :: "nat \<Rightarrow> bool" where "S_ISREG m \<longleftrightarrow> m div 2 ^ 12 mod 16 = 8"
definition S_IRUSR :: "nat \<Rightarrow> bool" where "S_IRUSR m \<longleftrightarrow> m div 2 ^ 8 mod 2 = 1"
definition S_IXUSR :: "nat \<Rightarrow> bool" where "S_IXUSR m \<longleftrightarrow> m div 2 ^ 6 mod 2 = 1"

definition doit :: "nat \<Rightarrow> tiny_env \<Rightarrow> rfd \<Rightarrow> conn \<Rightarrow> tiny_error + conn" where
  "doit fuel e fd c =
     (let c = c\<lparr>c_rio := rio_readinitb (c_rio c) fd\<rparr> in
     andthen (Rio_readlineb None c) (\<lambda>(buf, c).
     let c = log_out (''request headers:'' @ [NL]) c in
     andthen (use_buf buf) (\<lambda>buf.
     let c = log_out buf c;
         (method, rest) = scan_word buf;
         (uri, rest) = (if method = None then (None, rest) else scan_word rest) in
     andthen (use_buf method) (\<lambda>method.
     if \<not> strcasecmp_eq method ''GET''
     then clienterror method ''501'' ''not implemented'' ''tiny does not implemented this method'' c
     else
     andthen (read_requesthdrs fuel c) (\<lambda>c.
     andthen (use_buf uri) (\<lambda>uri.
     andthen (parse_uri uri) (\<lambda>(is_static, filename, cgiargs).
     case e_stat e filename of
       None \<Rightarrow> clienterror filename ''404'' ''not found'' (''tiny can'' @ [CHR 0x27] @ ''t find this file'') c
     | Some mode \<Rightarrow>
         if is_static then
           if \<not> S_ISREG mode \<or> \<not> S_IRUSR mode
           then clienterror filename ''403'' ''forbidden'' (''tiny can'' @ [CHR 0x27] @ ''t read'') c
           else serve_static e filename mode c
         else
           if \<not> S_ISREG mode \<or> \<not> S_IXUSR mode
           then clienterror filename ''403'' ''forbidden'' (''tiny can'' @ [CHR 0x27] @ ''t read'') c
           else serve_dynamic e filename cgiargs c)))))))"

end
