(* ===== verification/Rio_Props.thy ===== *)
theory Rio_Props
  imports Rio
begin

text \<open>
  The robust readers and writers neither lose nor invent bytes, and the buffered reader is a
  byte stream: any mixture of \<open>rio_readnb\<close> and \<open>rio_readlineb\<close> returns what the same calls on
  the sequence of unread bytes return, whatever short counts and interrupts \<open>read\<close> meets.
\<close>

section \<open>Unbuffered readers and writers\<close>

lemma sys_read_pend: "sys_read d n = (Ok bs, d') \<Longrightarrow> pend d = bs @ pend d'"
  by (auto simp: sys_read_def Let_def split: list.splits event.splits)

lemma sys_read_fail: "sys_read d n = (EINTR, d') \<or> sys_read d n = (EIO, d') \<Longrightarrow> pend d' = pend d"
  by (auto simp: sys_read_def Let_def split: list.splits event.splits)

lemma sys_read_Ok:
  assumes "set (revents d) \<subseteq> range Short" "0 < n"
  shows "\<exists>bs d'. sys_read d n = (Ok bs, d') \<and> pend d = bs @ pend d' \<and> length bs \<le> n \<and> (bs = [] \<longleftrightarrow> pend d = []) \<and>
           set (revents d') \<subseteq> range Short"
  using assms by (cases "revents d") (auto simp: sys_read_def Let_def min_def split: event.splits)

lemma readn_loop_keeps:
  assumes "readn_loop n nleft buf d = (r, buf', d')" "nleft \<le> n"
  shows "\<exists>bs. buf' = buf @ bs \<and> pend d = bs @ pend d' \<and> length bs \<le> nleft \<and>
           (r = int n - int nleft + int (length bs) \<or> r = - 1 \<and> bs = [] \<and> nleft = n)"
  using assms
proof (induction n nleft buf d arbitrary: r buf' d' rule: readn_loop.induct)
  case (1 n nleft buf d)
  obtain x e where x: "sys_read d nleft = (x, e)" by (cases "sys_read d nleft")
  show ?case
  proof (cases "nleft = 0")
    case True
    with 1 show ?thesis by (simp add: readn_loop.simps [of n 0])
  next
    case False
    show ?thesis
    proof (cases x)
      case (Ok bs)
      note b = sys_read_pend [OF x [unfolded Ok]] sys_read_bound [OF x [unfolded Ok]]
      show ?thesis
      proof (cases "bs = []")
        case True
        with 1(2) Ok x b False show ?thesis by (simp add: readn_loop.simps [of n nleft])
      next
        case nonempty: False
        with 1(2) Ok x False have "readn_loop n (nleft - length bs) (buf @ bs) e = (r, buf', d')"
          by (simp add: readn_loop.simps [of n nleft])
        moreover have "nleft - length bs \<le> n" using 1(3) by simp
        ultimately obtain cs where
          "buf' = buf @ bs @ cs" "pend e = cs @ pend d'" "length cs \<le> nleft - length bs"
          "r = int n - int (nleft - length bs) + int (length cs) \<or> r = - 1 \<and> cs = [] \<and> nleft - length bs = n"
          using "1.IH" [OF _ x [symmetric] Ok] nonempty False by fastforce
        moreover have "nleft - length bs \<noteq> n" using nonempty False 1(3) b by (cases bs) auto
        ultimately show ?thesis using b by (intro exI [of _ "bs @ cs"]) auto
      qed
    qed (use 1 x False sys_read_fail [of d nleft e] in \<open>auto simp: readn_loop.simps [of n nleft] split: if_splits\<close>)
  qed
qed

lemma readn_loop_full:
  assumes "set (revents d) \<subseteq> range Short" "nleft \<le> n"
  shows "\<exists>d'. readn_loop n nleft buf d = (int n - int nleft + int (min nleft (length (pend d))), buf @ take nleft (pend d), d')"
  using assms
proof (induction n nleft buf d rule: readn_loop.induct)
  case (1 n nleft buf d)
  show ?case
  proof (cases "nleft = 0")
    case True
    then show ?thesis by (simp add: readn_loop.simps [of n 0])
  next
    case False
    obtain bs e where x: "sys_read d nleft = (Ok bs, e)" "pend d = bs @ pend e" "length bs \<le> nleft"
      "bs = [] \<longleftrightarrow> pend d = []" "set (revents e) \<subseteq> range Short"
      using sys_read_Ok [OF 1(2), of nleft] False by auto
    show ?thesis
    proof (cases "bs = []")
      case True
      with x False show ?thesis by (simp add: readn_loop.simps [of n nleft])
    next
      case nonempty: False
      then have "\<exists>d'. readn_loop n (nleft - length bs) (buf @ bs) e =
          (int n - int (nleft - length bs) + int (min (nleft - length bs) (length (pend e))),
           (buf @ bs) @ take (nleft - length bs) (pend e), d')"
        using "1.IH" [OF _ x(1) [symmetric] refl _ x(5)] False 1(3) by auto
      with x nonempty False show ?thesis by (subst readn_loop.simps) (auto simp: min_def)
    qed
  qed
qed

lemma sys_write_sent:
  "sys_write d s = (Ok k, d') \<Longrightarrow> sent d' = sent d @ take k s \<and> k \<le> length s"
  "sys_write d s = (EINTR, d') \<or> sys_write d s = (EIO, d') \<Longrightarrow> sent d' = sent d"
  by (auto simp: sys_write_def min_def split: list.splits event.splits)

lemma writen_loop_keeps:
  assumes "writen_loop n s d = (r, d')" "length s \<le> n"
  shows "\<exists>k\<le>length s. sent d' = sent d @ take k s \<and>
           (r = int n - int (length s) + int k \<or> r = - 1 \<and> k = 0 \<and> length s = n)"
  using assms
proof (induction n s d arbitrary: r d' rule: writen_loop.induct)
  case (1 n s d)
  obtain x e where x: "sys_write d s = (x, e)" by (cases "sys_write d s")
  show ?case
  proof (cases "s = []")
    case True
    with 1 show ?thesis by (simp add: writen_loop.simps [of n "[]"])
  next
    case False
    show ?thesis
    proof (cases x)
      case (Ok k)
      note b = sys_write_sent(1) [OF x [unfolded Ok]]
      show ?thesis
      proof (cases "k = 0")
        case True
        with 1(2) Ok x b False show ?thesis by (auto simp: writen_loop.simps [of n s])
      next
        case pos: False
        with 1(2) Ok x False have "writen_loop n (drop k s) e = (r, d')" by (simp add: writen_loop.simps [of n s])
        moreover have "length (drop k s) \<le> n" using 1(3) by simp
        ultimately obtain m where
          "m \<le> length s - k" "sent d' = sent e @ take m (drop k s)"
          "r = int n - int (length s - k) + int m \<or> r = - 1 \<and> m = 0 \<and> length s - k = n"
          using "1.IH" [OF _ x [symmetric] Ok pos] False by fastforce
        moreover have "length s - k \<noteq> n" using pos False 1(3) b by (cases s) auto
        ultimately show ?thesis using b by (intro exI [of _ "k + m"]) (auto simp: take_add)
      qed
    qed (use 1 x False sys_write_sent(2) [of d s e] in \<open>auto simp: writen_loop.simps [of n s] intro!: exI [of _ 0] split: if_splits\<close>)
  qed
qed

text \<open>Calls of \<open>write\<close> that neither fail nor transfer nothing.\<close>

definition wcalm :: "wfd \<Rightarrow> bool" where
  "wcalm d \<longleftrightarrow> Fail \<notin> set (wevents d) \<and> Short 0 \<notin> set (wevents d)"

lemma sys_write_calm:
  assumes "wcalm d" "s \<noteq> []"
  shows "(\<exists>k d'. sys_write d s = (Ok k, d') \<and> 0 < k \<and> k \<le> length s \<and> sent d' = sent d @ take k s \<and> wcalm d') \<or>
         (\<exists>d'. sys_write d s = (EINTR, d') \<and> sent d' = sent d \<and> wcalm d')"
  using assms by (cases "wevents d") (auto simp: sys_write_def wcalm_def min_def split: event.splits)

lemma rio_writen_loop_ok:
  "wcalm d \<Longrightarrow> \<exists>d'. rio_writen_loop n intr s d = (int n, d') \<and> sent d' = sent d @ s \<and> wcalm d'"
proof (induction n intr s d rule: rio_writen_loop.induct)
  case (1 n intr s d)
  show ?case
  proof (cases "s = []")
    case True
    then show ?thesis using 1(4) by (simp add: rio_writen_loop.simps [of n intr "[]"])
  next
    case False
    from sys_write_calm [OF 1(4) False] show ?thesis
    proof (elim disjE exE conjE)
      fix k e assume x: "sys_write d s = (Ok k, e)" "0 < k" "k \<le> length s" "sent e = sent d @ take k s" "wcalm e"
      then have "\<exists>d'. rio_writen_loop n intr (drop k s) e = (int n, d') \<and> sent d' = sent e @ drop k s \<and> wcalm d'"
        using 1(2) [OF _ x(1) [symmetric] refl _ x(5)] False by auto
      with x False show ?thesis by (subst rio_writen_loop.simps) auto
    next
      fix e assume x: "sys_write d s = (EINTR, e)" "sent e = sent d" "wcalm e"
      then have "\<exists>d'. rio_writen_loop n True s e = (int n, d') \<and> sent d' = sent e @ s \<and> wcalm d'"
        using 1(3) [OF _ x(1) [symmetric] refl x(3)] False by auto
      with x False show ?thesis by (subst rio_writen_loop.simps) auto
    qed
  qed
qed

lemma rio_writen_ok:
  "wcalm d \<Longrightarrow> \<exists>d'. rio_writen intr d s = (int (length s), d') \<and> sent d' = sent d @ s \<and> wcalm d'"
  using rio_writen_loop_ok by (simp add: rio_writen_def)

section \<open>The buffered reader as a stream\<close>

definition unread :: "rio_t \<Rightarrow> string" where
  "unread rp = take (nat (rio_cnt rp)) (drop (rio_bufptr rp) (rio_buf rp))"

definition stream :: "rio_t \<Rightarrow> string" where
  "stream rp = unread rp @ pend (rio_fd rp)"

text \<open>The buffer holds its unread bytes, and the descriptor meets no error but interrupts.\<close>

definition rio_ok :: "rio_t \<Rightarrow> bool" where
  "rio_ok rp \<longleftrightarrow>
     length (rio_buf rp) = RIO_BUFSIZE \<and> rio_bufptr rp \<le> RIO_BUFSIZE \<and>
     int (rio_bufptr rp) + rio_cnt rp \<le> int RIO_BUFSIZE \<and>
     Fail \<notin> set (revents (rio_fd rp))"

lemma sys_read_calm:
  assumes "Fail \<notin> set (revents d)" "0 < n"
  shows "(\<exists>bs d'. sys_read d n = (Ok bs, d') \<and> pend d = bs @ pend d' \<and> length bs \<le> n \<and> (bs = [] \<longleftrightarrow> pend d = []) \<and>
            Fail \<notin> set (revents d')) \<or>
         (\<exists>d'. sys_read d n = (EINTR, d') \<and> pend d' = pend d \<and> Fail \<notin> set (revents d'))"
  using assms by (cases "revents d") (auto simp: sys_read_def Let_def min_def split: event.splits)

lemma rio_refill_ok:
  assumes "rio_ok rp"
  shows "(\<exists>rp'. rio_refill rp = Inr rp' \<and> 0 < rio_cnt rp' \<and> stream rp' = stream rp \<and> rio_ok rp') \<or>
         (\<exists>rp'. rio_refill rp = Inl (0, rp') \<and> stream rp = [] \<and> stream rp' = [] \<and> rio_ok rp')"
  using assms
proof (induction rp rule: rio_refill.induct)
  case (1 rp)
  show ?case
  proof (cases "rio_cnt rp \<le> 0")
    case False
    with 1(2) show ?thesis by (subst rio_refill.simps) (simp add: rio_refill.simps)
  next
    case True
    have st: "stream rp = pend (rio_fd rp)" using True by (simp add: stream_def unread_def)
    have f: "Fail \<notin> set (revents (rio_fd rp))" "0 < RIO_BUFSIZE" using 1(2) by (simp_all add: rio_ok_def RIO_BUFSIZE_def)
    from sys_read_calm [OF f] show ?thesis
    proof (elim disjE exE conjE)
      fix bs e assume x: "sys_read (rio_fd rp) RIO_BUFSIZE = (Ok bs, e)" "pend (rio_fd rp) = bs @ pend e"
        "length bs \<le> RIO_BUFSIZE" "bs = [] \<longleftrightarrow> pend (rio_fd rp) = []" "Fail \<notin> set (revents e)"
      let ?rp = "rp\<lparr>rio_fd := e, rio_cnt := int (length bs), rio_buf := bs @ drop (length bs) (rio_buf rp)\<rparr>"
      show ?thesis
      proof (cases "bs = []")
        case empty: True
        then have "rio_refill rp = Inl (0, ?rp)" using True x(1) by (subst rio_refill.simps) simp
        moreover have "rio_ok ?rp" "stream ?rp = []"
          using 1(2) x empty True by (auto simp: rio_ok_def stream_def unread_def)
        ultimately show ?thesis using st x(2,4) empty by auto
      next
        case nonempty: False
        then have "rio_refill rp = Inr (?rp\<lparr>rio_bufptr := 0\<rparr>)" using True x(1) by (subst rio_refill.simps) simp
        moreover have "rio_ok (?rp\<lparr>rio_bufptr := 0\<rparr>)" using 1(2) x by (simp add: rio_ok_def)
        moreover have "stream (?rp\<lparr>rio_bufptr := 0\<rparr>) = stream rp" using st x(2) by (simp add: stream_def unread_def)
        ultimately show ?thesis using nonempty by auto
      qed
    next
      fix e assume x: "sys_read (rio_fd rp) RIO_BUFSIZE = (EINTR, e)" "pend e = pend (rio_fd rp)" "Fail \<notin> set (revents e)"
      let ?rp = "rp\<lparr>rio_fd := e, rio_cnt := - 1\<rparr>"
      have ok: "rio_ok ?rp" using 1(2) x by (simp add: rio_ok_def) 
      have "stream ?rp = stream rp" using st x(2) by (simp add: stream_def unread_def)
      moreover have "rio_refill rp = rio_refill ?rp" using True x(1) by (subst rio_refill.simps) simp
      ultimately show ?thesis using "1.IH" [OF True x(1) [symmetric] refl ok] by auto
    qed
  qed
qed

lemma rio_read_ok:
  assumes "rio_ok rp" "0 < n"
  shows "\<exists>k rp'. rio_read rp n = (int k, take k (stream rp), rp') \<and> k \<le> n \<and> k \<le> length (stream rp) \<and>
           (k = 0 \<longleftrightarrow> stream rp = []) \<and> stream rp' = drop k (stream rp) \<and> rio_ok rp'"
  using rio_refill_ok [OF assms(1)]
proof (elim disjE exE conjE)
  fix q assume q: "rio_refill rp = Inr q" "0 < rio_cnt q" "stream q = stream rp" "rio_ok q"
  define k where "k = (if rio_cnt q < int n then nat (rio_cnt q) else n)"
  have len: "length (unread q) = nat (rio_cnt q)" using q(4) by (auto simp: unread_def rio_ok_def)
  have k: "0 < k" "k \<le> n" "k \<le> nat (rio_cnt q)" "int k \<le> rio_cnt q" using assms(2) q(2) by (auto simp: k_def)
  let ?r = "q\<lparr>rio_bufptr := rio_bufptr q + k, rio_cnt := rio_cnt q - int k\<rparr>"
  have "take k (drop (rio_bufptr q) (rio_buf q)) = take k (stream rp)"
    using k(3) len unfolding q(3) [symmetric] by (simp add: stream_def) (simp add: unread_def min_def)
  then have "rio_read rp n = (int k, take k (stream rp), ?r)" using q(1) by (simp add: rio_read_def k_def Let_def)
  moreover have "unread ?r = drop k (unread q)"
    using k by (simp add: unread_def drop_take nat_diff_distrib' add.commute)
  then have "stream ?r = drop k (stream rp)" using k(3) len unfolding q(3) [symmetric] by (simp add: stream_def)
  moreover have "rio_ok ?r" using q(4) k by (simp add: rio_ok_def)
  moreover have "k \<le> length (stream rp)" using k(3) len unfolding q(3) [symmetric] by (simp add: stream_def)
  ultimately show ?thesis using k by (intro exI [of _ k] exI [of _ ?r]) auto
qed (simp add: rio_read_def)

lemma rio_readnb_loop_ok:
  assumes "rio_ok rp" "nleft \<le> n"
  shows "\<exists>rp'. rio_readnb_loop n nleft buf rp =
             (int n - int nleft + int (min nleft (length (stream rp))), buf @ take nleft (stream rp), rp') \<and>
           stream rp' = drop nleft (stream rp) \<and> rio_ok rp'"
  using assms
proof (induction n nleft buf rp rule: rio_readnb_loop.induct)
  case (1 n nleft buf rp)
  show ?case
  proof (cases "nleft = 0")
    case True
    then show ?thesis using 1(2) by (subst rio_readnb_loop.simps) simp
  next
    case False
    then obtain k q where q: "rio_read rp nleft = (int k, take k (stream rp), q)" "k \<le> nleft" "k \<le> length (stream rp)"
      "k = 0 \<longleftrightarrow> stream rp = []" "stream q = drop k (stream rp)" "rio_ok q"
      using rio_read_ok [OF 1(2), of nleft] by auto
    show ?thesis
    proof (cases "k = 0")
      case True
      with q False show ?thesis by (subst rio_readnb_loop.simps) simp
    next
      case pos: False
      then have "\<exists>rp'. rio_readnb_loop n (nleft - k) (buf @ take k (stream rp)) q =
          (int n - int (nleft - k) + int (min (nleft - k) (length (stream q))),
           (buf @ take k (stream rp)) @ take (nleft - k) (stream q), rp') \<and>
          stream rp' = drop (nleft - k) (stream q) \<and> rio_ok rp'"
        using "1.IH" [OF _ q(1) [symmetric] refl _ _ q(6)] False 1(3) by simp
      moreover have "take k (stream rp) @ take (nleft - k) (stream q) = take nleft (stream rp)"
        using q(2,5) by (metis le_add_diff_inverse take_add)
      ultimately show ?thesis using q pos False by (subst rio_readnb_loop.simps) (auto simp: min_def)
    qed
  qed
qed

text \<open>The line at the front of a byte sequence, of at most \<open>m\<close> bytes, and what \<open>rio_readlineb\<close>
  returns for it.\<close>

fun line_of :: "nat \<Rightarrow> string \<Rightarrow> string" where
  "line_of 0 s = []"
| "line_of (Suc m) [] = []"
| "line_of (Suc m) (c # s) = c # (if c = NL then [] else line_of m s)"

definition line_result :: "nat \<Rightarrow> string \<Rightarrow> int \<times> string option" where
  "line_result maxlen s =
     (let l = line_of (maxlen - 1) s in
      if s = [] \<and> 1 < maxlen then (0, None)
      else (int (length l) + (if l \<noteq> [] \<and> last l = NL then 0 else 1), Some l))"

lemma rio_readlineb_loop_ok:
  assumes "rio_ok rp" "1 \<le> n" "n \<le> maxlen" "n = length buf + 1"
  shows "\<exists>rp'. rio_readlineb_loop n maxlen buf rp =
             (let l = line_of (maxlen - n) (stream rp) in
              if stream rp = [] \<and> n = 1 \<and> 1 < maxlen then (0, None, rp')
              else (int (length (buf @ l)) + (if l \<noteq> [] \<and> last l = NL then 0 else 1), Some (buf @ l), rp')) \<and>
           stream rp' = drop (length (line_of (maxlen - n) (stream rp))) (stream rp) \<and> rio_ok rp'"
  using assms
proof (induction n maxlen buf rp rule: rio_readlineb_loop.induct)
  case (1 n maxlen buf rp)
  show ?case
  proof (cases "n < maxlen")
    case False
    then show ?thesis using 1(2-) by (subst rio_readlineb_loop.simps) (auto simp: Let_def)
  next
    case True
    then obtain m where m: "maxlen - n = Suc m" "m = maxlen - (n + 1)" by (metis Suc_diff_Suc Suc_eq_plus1)
    obtain k q where q: "rio_read rp 1 = (int k, take k (stream rp), q)" "k \<le> 1"
      "k = 0 \<longleftrightarrow> stream rp = []" "stream q = drop k (stream rp)" "rio_ok q"
      using rio_read_ok [OF 1(2), of 1] by auto
    show ?thesis
    proof (cases "stream rp")
      case Nil
      with q True m 1(3-) show ?thesis by (subst rio_readlineb_loop.simps) (auto simp: Let_def)
    next
      case (Cons c s)
      then have k: "k = 1" using q(2,3) by simp
      show ?thesis
      proof (cases "c = NL")
        case nl: True
        with q True m 1(3-) k Cons show ?thesis by (subst rio_readlineb_loop.simps) (auto simp: Let_def)
      next
        case False
        have "\<exists>rp'. rio_readlineb_loop (n + 1) maxlen (buf @ [c]) q =
            (let l = line_of (maxlen - (n + 1)) (stream q) in
             if stream q = [] \<and> n + 1 = 1 \<and> 1 < maxlen then (0, None, rp')
             else (int (length ((buf @ [c]) @ l)) + (if l \<noteq> [] \<and> last l = NL then 0 else 1), Some ((buf @ [c]) @ l), rp')) \<and>
            stream rp' = drop (length (line_of (maxlen - (n + 1)) (stream q))) (stream q) \<and> rio_ok rp'"
          using "1.IH" [OF True q(1) [symmetric] refl _ refl _ q(5)] True 1(3-) k Cons False by simp
        then show ?thesis using q True m 1(3-) k Cons False by (subst rio_readlineb_loop.simps) (auto simp: Let_def)
      qed
    qed
  qed
qed

section \<open>The interface of the buffered reader\<close>

datatype rio_call = Readn nat | Readline nat

definition rio_step :: "rio_t \<Rightarrow> rio_call \<Rightarrow> unit + (int \<times> string option) \<times> rio_t" where
  "rio_step rp c =
     (case c of
        Readn n \<Rightarrow> (case rio_readnb rp n of (r, bs, rp) \<Rightarrow> Inr ((r, Some bs), rp))
      | Readline n \<Rightarrow> (case rio_readlineb rp n of (r, l, rp) \<Rightarrow> Inr ((r, l), rp)))"

definition stream_step :: "string \<Rightarrow> rio_call \<Rightarrow> (int \<times> string option) \<times> string" where
  "stream_step s c =
     (case c of
        Readn n \<Rightarrow> ((int (length (take n s)), Some (take n s)), drop n s)
      | Readline n \<Rightarrow> (line_result n s, drop (length (line_of (n - 1) s)) s))"

definition rio_call_ok :: "rio_t \<Rightarrow> rio_call \<Rightarrow> bool" where
  "rio_call_ok rp c = (case c of Readn n \<Rightarrow> True | Readline n \<Rightarrow> 0 < n)"

definition rio_rep :: "rio_t \<Rightarrow> string \<Rightarrow> bool" where
  "rio_rep rp s \<longleftrightarrow> rio_ok rp \<and> stream rp = s"

lemma rio_readlineb_ok:
  assumes "rio_ok rp" "0 < maxlen"
  shows "\<exists>rp'. rio_readlineb rp maxlen = (fst (line_result maxlen (stream rp)), snd (line_result maxlen (stream rp)), rp') \<and>
           stream rp' = drop (length (line_of (maxlen - 1) (stream rp))) (stream rp) \<and> rio_ok rp'"
  using rio_readlineb_loop_ok [OF assms(1), of 1 maxlen "[]"] assms(2)
  by (auto simp: rio_readlineb_def line_result_def Let_def split: if_splits)

lemma rio_step_ok:
  assumes "rio_rep rp s" "rio_call_ok rp c"
  shows "\<exists>rp'. rio_step rp c = Inr (fst (stream_step s c), rp') \<and> rio_rep rp' (snd (stream_step s c))"
proof (cases c)
  case (Readn n)
  from rio_readnb_loop_ok [of rp n n "[]"] assms Readn show ?thesis
    by (auto simp: rio_rep_def rio_step_def stream_step_def rio_readnb_def min.commute)
next
  case (Readline n)
  from rio_readlineb_ok [of rp n] assms Readline show ?thesis
    by (auto simp: rio_rep_def rio_step_def stream_step_def rio_call_ok_def)
qed

interpretation rio_stream: simulation rio_rep rio_call_ok rio_step stream_step
  by unfold_locales (rule rio_step_ok)

definition fresh_rio :: "rfd \<Rightarrow> rio_t" where
  "fresh_rio d = rio_readinitb \<lparr>rio_fd = d, rio_cnt = 7, rio_bufptr = 0, rio_buf = replicate RIO_BUFSIZE NUL\<rparr> d"

lemma fresh_rio_rep: "Fail \<notin> set (revents d) \<Longrightarrow> rio_rep (fresh_rio d) (pend d)"
  by (simp add: fresh_rio_def rio_readinitb_def rio_rep_def rio_ok_def stream_def unread_def)

section \<open>Properties\<close>

text \<open>C20: the buffered reader is a byte stream: for every sequence of calls of \<open>rio_readnb\<close> and
  \<open>rio_readlineb\<close>, and whatever short counts and interrupts the calls of \<open>read\<close> meet, the
  replies are those of the same calls on the sequence of the unread bytes, and the bytes left are
  the same.\<close>

theorem rio_calls_refine:
  assumes "rio_rep rp s" "adm_run rio_call_ok rio_step rp cs"
  shows "\<exists>rp'. run_steps rio_step rp cs = Inr (fst (run_spec stream_step s cs), rp') \<and>
           rio_rep rp' (snd (run_spec stream_step s cs))"
  using assms by (rule rio_stream.run_refines)

lemma rio_adm: "(\<forall>c\<in>set cs. \<forall>n. c = Readline n \<longrightarrow> 0 < n) \<Longrightarrow> adm_run rio_call_ok rio_step rp cs"
proof (induction cs arbitrary: rp)
  case (Cons c cs)
  then show ?case by (cases c) (auto simp: rio_call_ok_def rio_step_def split: sum.splits prod.splits)
qed simp

theorem rio_calls_refine_witness:
  "\<exists>rp'. run_steps rio_step (fresh_rio \<lparr>pend = ''a'' @ [NL] @ ''bcd'', revents = [Short 0, Intr]\<rparr>) [Readline 9, Readn 2, Readline 9, Readline 9] =
     Inr ([(2, Some (''a'' @ [NL])), (2, Some ''bc''), (2, Some ''d''), (0, None)], rp')"
  using rio_calls_refine [OF fresh_rio_rep rio_adm, of "\<lparr>pend = ''a'' @ [NL] @ ''bcd'', revents = [Short 0, Intr]\<rparr>"
      "[Readline 9, Readn 2, Readline 9, Readline 9]"]
  by (auto simp: stream_step_def line_result_def Let_def eval_nat_numeral)

text \<open>What \<open>rio_readlineb\<close> returns is the number of bytes it stored only for a line that ends
  in a newline; for the last line of a file without one, and for a line that does not fit, it is
  one more.\<close>

theorem rio_readlineb_count:
  assumes "rio_ok rp" "1 < maxlen" "stream rp \<noteq> []"
  shows "\<exists>l rp'. rio_readlineb rp maxlen = (int (length l) + (if last l = NL then 0 else 1), Some l, rp') \<and>
           l = line_of (maxlen - 1) (stream rp) \<and> l \<noteq> [] \<and> length l < maxlen"
proof -
  have ne: "line_of m s \<noteq> []" if "0 < m" "s \<noteq> []" for m s using that by (cases m; cases s) auto
  have len: "length (line_of m s) \<le> m" for m s by (induction m s rule: line_of.induct) auto
  show ?thesis
    using rio_readlineb_ok [OF assms(1), of maxlen] assms(2,3) ne [of "maxlen - 1" "stream rp"] len [of "maxlen - 1" "stream rp"]
    by (auto simp: line_result_def Let_def)
qed

theorem rio_readlineb_count_witness:
  "\<exists>rp'. rio_readlineb (fresh_rio \<lparr>pend = ''ab'', revents = []\<rparr>) 9 = (3, Some ''ab'', rp')"
  using rio_readlineb_count [of "fresh_rio \<lparr>pend = ''ab'', revents = []\<rparr>" 9] fresh_rio_rep [of "\<lparr>pend = ''ab'', revents = []\<rparr>"]
  by (auto simp: rio_rep_def eval_nat_numeral)

text \<open>\<open>readn\<close> loses no bytes: it stores what it took from the descriptor, in order, and
  returns how many bytes these are, also when an error cut it short; it returns -1 only when
  nothing was read, and without errors and interrupts it reads all it was asked for or all there
  is.\<close>

theorem readn_keeps_bytes:
  assumes "readn d n = (r, buf, d')"
  shows "pend d = buf @ pend d' \<and> length buf \<le> n \<and> (r = int (length buf) \<or> r = - 1 \<and> buf = []) \<and>
         (set (revents d) \<subseteq> range Short \<longrightarrow> buf = take n (pend d) \<and> r = int (length buf))"
proof -
  have a: "readn_loop n n [] d = (r, buf, d')" using assms by (simp add: readn_def)
  from readn_loop_keeps [OF this] readn_loop_full [of d n n "[]"] a show ?thesis by (auto simp: min.commute)
qed

theorem readn_keeps_bytes_witness:
  "\<exists>d'. readn \<lparr>pend = ''abcdef'', revents = [Short 0, Short 1]\<rparr> 5 = (5, ''abcde'', d')"
proof -
  obtain r buf d' where r: "readn \<lparr>pend = ''abcdef'', revents = [Short 0, Short 1]\<rparr> 5 = (r, buf, d')"
    by (metis prod.exhaust)
  from readn_keeps_bytes [OF r] show ?thesis using r by (auto simp: eval_nat_numeral)
qed

text \<open>\<open>writen\<close> sends a prefix of its buffer and returns its length, -1 only when nothing was
  sent.\<close>

theorem writen_sends_prefix:
  assumes "writen d s = (r, d')"
  shows "\<exists>k\<le>length s. sent d' = sent d @ take k s \<and> (r = int k \<or> r = - 1 \<and> k = 0)"
  using writen_loop_keeps [of "length s" s d r d'] assms by (auto simp: writen_def)

theorem writen_sends_prefix_witness:
  "\<exists>k r d'. writen \<lparr>sent = [], wevents = [Short 2, Fail]\<rparr> ''abcd'' = (r, d') \<and> sent d' = take k ''abcd'' \<and> (r = int k \<or> r = - 1 \<and> k = 0)"
proof -
  obtain r d' where r: "writen \<lparr>sent = [], wevents = [Short 2, Fail]\<rparr> ''abcd'' = (r, d')" by (metis prod.exhaust)
  from writen_sends_prefix [OF r] show ?thesis using r by auto
qed

text \<open>\<open>rio_writen\<close> sends the whole buffer and returns its length, however the calls of
  \<open>write\<close> are shortened or interrupted, as long as none fails or transfers nothing.\<close>

theorem rio_writen_sends_all:
  assumes "wcalm d"
  shows "\<exists>d'. rio_writen intr d s = (int (length s), d') \<and> sent d' = sent d @ s"
  using rio_writen_ok [OF assms] by blast

theorem rio_writen_sends_all_witness:
  "\<exists>d'. rio_writen False \<lparr>sent = ''x'', wevents = [Short 1, Intr]\<rparr> ''abc'' = (3, d') \<and> sent d' = ''xabc''"
  using rio_writen_sends_all [of "\<lparr>sent = ''x'', wevents = [Short 1, Intr]\<rparr>" False "''abc''"] by (simp add: wcalm_def)

end
