(* ===== verification/Tiny_Props.thy ===== *)
theory Tiny_Props
  imports Tiny Rio_Props
begin

text \<open>
  What the server sends for a request: \<open>answer\<close> says it as a function of the URI and of the
  files, and \<open>doit\<close> is shown to read the request and to send exactly that, whatever short counts
  and interrupts the connection has.
\<close>

section \<open>The answer to a request\<close>

definition error_body :: "string \<Rightarrow> string \<Rightarrow> string \<Rightarrow> string \<Rightarrow> string" where
  "error_body cause errnum shortmsg longmsg =
     ''<html><title>Tiny Error</title><body bgcolor=ffffff>'' @ CRLF @ errnum @ '': '' @ shortmsg @ CRLF @
     ''<p>'' @ longmsg @ '': '' @ cause @ CRLF @ ''<hr><em>The Tiny Web server</em>'' @ CRLF"

definition error_page :: "string \<Rightarrow> string \<Rightarrow> string \<Rightarrow> string \<Rightarrow> string" where
  "error_page cause errnum shortmsg longmsg =
     (let body = error_body cause errnum shortmsg longmsg in
      ''HTTP/1.0 '' @ errnum @ '' '' @ shortmsg @ CRLF @ ''Content-type: text/html'' @ CRLF @
      ''Content-length: '' @ dec (length body) @ CRLF @ CRLF @ body)"

definition uri_parts :: "string \<Rightarrow> bool \<times> string \<times> string" where
  "uri_parts uri =
     (if strstr uri ''cgi-bin'' = None
      then (True, ''.'' @ uri @ (if last uri = CHR ''/'' then ''home.html'' else []), [])
      else (False, ''.'' @ takeWhile (\<lambda>c. c \<noteq> CHR ''?'') uri, tl (dropWhile (\<lambda>c. c \<noteq> CHR ''?'') uri)))"

definition static_head :: "string \<Rightarrow> nat \<Rightarrow> string" where
  "static_head filename n =
     ''HTTP/1.0 200 OK'' @ CRLF @ ''Server: Tiny Web Server'' @ CRLF @ ''Content-length: '' @ dec n @ CRLF @
     ''Content-type: '' @ get_filetype filename @ CRLF @ CRLF"

definition cant :: "string \<Rightarrow> string" where
  "cant what = ''tiny can'' @ [CHR 0x27] @ ''t '' @ what"

definition answer :: "tiny_env \<Rightarrow> string \<Rightarrow> tiny_error + string" where
  "answer e uri =
     (case uri_parts uri of (is_static, filename, cgiargs) \<Rightarrow>
      case e_stat e filename of
        None \<Rightarrow> Inr (error_page filename ''404'' ''not found'' (cant ''find this file''))
      | Some mode \<Rightarrow>
          if \<not> S_ISREG mode \<or> \<not> (if is_static then S_IRUSR mode else S_IXUSR mode)
          then Inr (error_page filename ''403'' ''forbidden'' (cant ''read''))
          else if is_static then
            (case e_open e filename of
               None \<Rightarrow> Inl (Exits ''Open error'')
             | Some content \<Rightarrow>
                 (case mapped content mode of
                    None \<Rightarrow> Inl (Exits ''Rio_writen error'')
                  | Some bytes \<Rightarrow> Inr (static_head filename mode @ bytes)))
          else Inr (''HTTP/1.0 200 OK '' @ CRLF @ ''server:tiny web server'' @ CRLF @ e_cgi e filename cgiargs))"

text \<open>A request: the request line, header lines, an empty line.\<close>

definition header_lines :: "string list \<Rightarrow> string" where
  "header_lines hs = concat (map (\<lambda>h. h @ CRLF) hs)"

definition request_line :: "string \<Rightarrow> string \<Rightarrow> string \<Rightarrow> string" where
  "request_line method uri version = method @ '' '' @ uri @ '' '' @ version @ CRLF"

definition word_ok :: "string \<Rightarrow> bool" where
  "word_ok w \<longleftrightarrow> w \<noteq> [] \<and> (\<forall>c\<in>set w. \<not> isspace c \<and> c \<noteq> NUL)"

definition header_ok :: "string \<Rightarrow> bool" where
  "header_ok h \<longleftrightarrow> h \<noteq> [] \<and> NL \<notin> set h \<and> NUL \<notin> set h \<and> length h < 8190"

definition request_ok :: "string \<Rightarrow> string \<Rightarrow> string \<Rightarrow> string list \<Rightarrow> bool" where
  "request_ok method uri version hs \<longleftrightarrow>
     word_ok method \<and> word_ok uri \<and> word_ok version \<and> length method + length uri + length version < 7900 \<and>
     (\<forall>h\<in>set hs. header_ok h)"

section \<open>The connection\<close>

definition at :: "conn \<Rightarrow> string \<Rightarrow> string \<Rightarrow> bool" where
  "at c i out \<longleftrightarrow> rio_ok (c_rio c) \<and> stream (c_rio c) = i \<and> wcalm (c_out c) \<and> sent (c_out c) = out"

lemma at_log: "at c i out \<Longrightarrow> at (log_out s c) i out"
  by (simp add: at_def log_out_def)

lemma at_write: "at c i out \<Longrightarrow> \<exists>c'. Rio_writen s c = Inr c' \<and> at c' i (out @ s)"
  using rio_writen_ok [of "c_out c" "c_intr c" s] by (auto simp: at_def Rio_writen_def)

lemma at_readline:
  assumes "at c i out"
  shows "\<exists>c'. Rio_readlineb buf c = Inr (if i = [] then buf else Some (cstr (line_of 8191 i)), c') \<and>
           at c' (drop (length (line_of 8191 i)) i) out"
proof -
  have "rio_ok (c_rio c)" using assms by (simp add: at_def)
  from rio_readlineb_ok [OF this, of MAXLINE] assms show ?thesis
    by (auto simp: Rio_readlineb_def line_result_def at_def MAXLINE_def Let_def split: if_splits)
qed

lemma line_of_line: "NL \<notin> set l \<Longrightarrow> length l < m \<Longrightarrow> line_of m (l @ NL # r) = l @ [NL]"
proof (induction l arbitrary: m)
  case Nil
  then show ?case by (cases m) auto
next
  case (Cons c l)
  then show ?case by (cases m) auto
qed

lemma at_line:
  assumes "at c (l @ CRLF @ r) out" "NL \<notin> set l" "NUL \<notin> set l" "length l < 8190"
  shows "\<exists>c'. Rio_readlineb buf c = Inr (Some (l @ CRLF), c') \<and> at c' r out"
proof -
  have "line_of 8191 (l @ CRLF @ r) = l @ CRLF" using line_of_line [of "l @ [CR]" 8191 r] assms(2,4) by simp
  moreover have "cstr (l @ CRLF) = l @ CRLF" using assms(3) by (intro cstr_no_nul) auto
  ultimately show ?thesis using at_readline [OF assms(1), of buf] by auto
qed

text \<open>A chain of writes.\<close>

lemma at_then_write:
  assumes "at c i out" "\<And>c'. at c' i (out @ s) \<Longrightarrow> \<exists>d. f c' = Inr d \<and> at d i out'"
  shows "\<exists>d. andthen (Rio_writen s c) f = Inr d \<and> at d i out'"
  using at_write [OF assms(1), of s] assms(2) by auto

section \<open>Error pages\<close>

lemma to_buf_ok: "length s < n \<Longrightarrow> to_buf n s = Inr s"
  by (simp add: to_buf_def)

lemma length_dec_small: "n < 10 ^ 5 \<Longrightarrow> length (dec n) \<le> 5"
  by (rule length_dec_le) simp_all

lemma content_length_fits:
  assumes "k < 10 ^ 5"
  shows "to_buf MAXLINE (''Content-length: '' @ dec_int (int k) @ CRLF @ CRLF) = Inr (''Content-length: '' @ dec_int (int k) @ CRLF @ CRLF)"
  using length_dec_small [OF assms] by (simp add: to_buf_def MAXLINE_def dec_int_def)

lemma clienterror_ok:
  assumes "at c i out" "length cause + length errnum + length shortmsg + length longmsg < 8000"
  shows "\<exists>c'. clienterror cause errnum shortmsg longmsg c = Inr c' \<and>
           at c' i (out @ error_page cause errnum shortmsg longmsg)"
proof -
  let ?body = "error_body cause errnum shortmsg longmsg"
  let ?b1 = "''<html><title>Tiny Error</title>''"
  let ?b2 = "?b1 @ ''<body bgcolor=ffffff>'' @ CRLF"
  let ?b3 = "?b2 @ errnum @ '': '' @ shortmsg @ CRLF"
  let ?b4 = "?b3 @ ''<p>'' @ longmsg @ '': '' @ cause @ CRLF"
  let ?b5 = "?b4 @ ''<hr><em>The Tiny Web server</em>'' @ CRLF"
  let ?w1 = "''HTTP/1.0 '' @ errnum @ '' '' @ shortmsg @ CRLF"
  let ?w2 = "''Content-type: text/html'' @ CRLF"
  let ?w3 = "''Content-length: '' @ dec_int (int (length ?b5)) @ CRLF @ CRLF"
  have b5: "?b5 = ?body" by (simp add: error_body_def)
  have len: "length ?b5 < MAXBUF" using assms(2) by (simp add: MAXBUF_def)
  have "to_buf MAXBUF ?b1 = Inr ?b1" "to_buf MAXBUF ?b2 = Inr ?b2" "to_buf MAXBUF ?b3 = Inr ?b3"
    "to_buf MAXBUF ?b4 = Inr ?b4" "to_buf MAXLINE ?w1 = Inr ?w1" "to_buf MAXLINE ?w2 = Inr ?w2"
    using assms(2) by (simp_all add: to_buf_def MAXBUF_def MAXLINE_def)
  moreover have "to_buf MAXLINE ?w3 = Inr ?w3" using len by (intro content_length_fits) (simp add: MAXBUF_def)
  ultimately have "clienterror cause errnum shortmsg longmsg c =
      andthen (Rio_writen ?w1 c) (\<lambda>c. andthen (Rio_writen ?w2 c) (\<lambda>c. andthen (Rio_writen ?w3 c) (\<lambda>c. Rio_writen ?b5 c)))"
    using to_buf_ok [OF len] by (simp only: clienterror_def andthen_simps)
  moreover have "out @ error_page cause errnum shortmsg longmsg = (((out @ ?w1) @ ?w2) @ ?w3) @ ?b5"
    unfolding b5 by (simp add: error_page_def Let_def dec_int_def)
  ultimately show ?thesis
    using assms(1) by (simp only:) (intro at_then_write at_write)
qed

section \<open>Headers\<close>

lemma requesthdrs_ok:
  assumes "at c (header_lines hs @ CRLF @ r) out" "\<forall>h\<in>set hs. header_ok h" "buf \<noteq> CRLF" "length hs + 1 < fuel"
  shows "\<exists>c'. requesthdrs_loop fuel buf c = Inr c' \<and> at c' r out"
  using assms
proof (induction hs arbitrary: c buf fuel)
  case Nil
  then obtain f where f: "fuel = Suc (Suc f)" by (cases fuel; cases "fuel - 1") auto
  obtain c1 where "Rio_readlineb (Some buf) c = Inr (Some CRLF, c1)" "at c1 r out"
    using at_line [of c "[]" r out "Some buf"] Nil.prems by (auto simp: header_lines_def)
  with Nil.prems f show ?case by (auto simp: use_buf_def intro: at_log)
next
  case (Cons h hs)
  then obtain f where f: "fuel = Suc f" by (cases fuel) auto
  have h: "h \<noteq> []" "NL \<notin> set h" "NUL \<notin> set h" "length h < 8190" using Cons.prems(2) by (simp_all add: header_ok_def)
  obtain c1 where c1: "Rio_readlineb (Some buf) c = Inr (Some (h @ CRLF), c1)" "at c1 (header_lines hs @ CRLF @ r) out"
    using at_line [of c h "header_lines hs @ CRLF @ r" out "Some buf"] h Cons.prems(1) by (auto simp: header_lines_def)
  have "h @ CRLF \<noteq> CRLF" using h(1) by simp
  from Cons.IH [OF at_log [OF c1(2), of "(h @ CRLF) @ [NL]"] _ this, of f] Cons.prems f c1(1) show ?case
    by (auto simp: use_buf_def)
qed

lemma read_requesthdrs_ok:
  assumes "at c (header_lines hs @ CRLF @ r) out" "\<forall>h\<in>set hs. header_ok h" "length hs + 1 < fuel"
  shows "\<exists>c'. read_requesthdrs fuel c = Inr c' \<and> at c' r out"
proof (cases hs)
  case Nil
  obtain c1 where "Rio_readlineb None c = Inr (Some CRLF, c1)" "at c1 r out"
    using at_line [of c "[]" r out None] assms(1) Nil by (auto simp: header_lines_def)
  with assms(3) show ?thesis by (cases fuel) (auto simp: read_requesthdrs_def use_buf_def)
next
  case (Cons h gs)
  have h: "h \<noteq> []" "NL \<notin> set h" "NUL \<notin> set h" "length h < 8190" using assms(2) Cons by (simp_all add: header_ok_def)
  obtain c1 where c1: "Rio_readlineb None c = Inr (Some (h @ CRLF), c1)" "at c1 (header_lines gs @ CRLF @ r) out"
    using at_line [of c h "header_lines gs @ CRLF @ r" out None] h assms(1) Cons by (auto simp: header_lines_def)
  have "h @ CRLF \<noteq> CRLF" using h(1) by simp
  from requesthdrs_ok [OF c1(2) _ this, of fuel] c1(1) assms Cons show ?thesis
    by (auto simp: read_requesthdrs_def use_buf_def)
qed

lemma requesthdrs_hang: "at c [] out \<Longrightarrow> buf \<noteq> CRLF \<Longrightarrow> requesthdrs_loop fuel buf c = Inl Hangs"
proof (induction fuel arbitrary: c)
  case (Suc fuel)
  then obtain c1 where "Rio_readlineb (Some buf) c = Inr (Some buf, c1)" "at c1 [] out"
    using at_readline [OF Suc.prems(1), of "Some buf"] by auto
  with Suc show ?case by (auto simp: use_buf_def dest: at_log)
qed simp

section \<open>The URI\<close>

lemma strchr_takeWhile:
  assumes "NUL \<notin> set s"
  shows "strchr s c = (if c \<in> set s then Some (length (takeWhile (\<lambda>x. x \<noteq> c) s)) else None)"
proof -
  have "length (takeWhile (\<lambda>x. x \<noteq> c) s) < length s \<longleftrightarrow> c \<in> set s"
  proof (induction s)
    case (Cons x s)
    then show ?case by auto
  qed simp
  then show ?thesis using assms by (simp add: strchr_def cstr_no_nul Let_def)
qed

lemma parse_uri_ok:
  assumes "uri \<noteq> []" "NUL \<notin> set uri" "length uri < 8100"
  shows "parse_uri uri = Inr (uri_parts uri)"
proof (cases "strstr uri ''cgi-bin'' = None")
  case True
  then show ?thesis
    using assms by (simp add: parse_uri_def uri_parts_def to_buf_def MAXLINE_def last_conv_nth)
next
  case False
  let ?i = "length (takeWhile (\<lambda>x. x \<noteq> CHR ''?'') uri)"
  have tl: "tl (dropWhile (\<lambda>c. c \<noteq> CHR ''?'') uri) = drop (?i + 1) uri"
    by (simp add: dropWhile_eq_drop tl_drop drop_Suc)
  have tk: "takeWhile (\<lambda>c. c \<noteq> CHR ''?'') uri = take ?i uri" by (simp add: takeWhile_eq_take [symmetric])
  have le: "?i \<le> length uri" by (rule length_takeWhile_le)
  show ?thesis
  proof (cases "CHR ''?'' \<in> set uri")
    case q: True
    then show ?thesis
      using False assms tl le
      by (simp add: parse_uri_def uri_parts_def strchr_takeWhile to_buf_def MAXLINE_def takeWhile_eq_take [symmetric])
  next
    case q: False
    then have tw: "takeWhile (\<lambda>c. c \<noteq> CHR ''?'') uri = uri" "dropWhile (\<lambda>c. c \<noteq> CHR ''?'') uri = []"
      by (auto simp: takeWhile_eq_all_conv)
    show ?thesis
      using q False assms by (simp add: parse_uri_def uri_parts_def strchr_takeWhile to_buf_def MAXLINE_def tw)
  qed
qed

lemma uri_parts_length: "uri_parts uri = (st, fn, args) \<Longrightarrow> length fn \<le> length uri + 10"
  using length_takeWhile_le [of "\<lambda>c. c \<noteq> CHR ''?''" uri] by (auto simp: uri_parts_def split: if_splits)

section \<open>Serving\<close>

lemma regular_mode: "S_ISREG mode \<Longrightarrow> S_IRUSR mode \<Longrightarrow> 33024 \<le> mode"
proof -
  assume "S_ISREG mode" "S_IRUSR mode"
  then have a: "mode div 4096 mod 16 = 8" "mode div 256 mod 2 = 1" by (simp_all add: S_ISREG_def S_IRUSR_def)
  show ?thesis
  proof (rule ccontr)
    assume "\<not> 33024 \<le> mode"
    moreover have "8 \<le> mode div 4096" using a(1) by (metis mod_less_eq_dividend)
    then have "32768 \<le> mode" by linarith
    ultimately have "mode div 256 = 128" by linarith
    with a(2) show False by simp
  qed
qed

lemma static_ok:
  assumes "at c i out" "mode < 10 ^ 5" "mode \<noteq> 0"
  shows "case e_open e fn of
           None \<Rightarrow> serve_static e fn mode c = Inl (Exits ''Open error'')
         | Some content \<Rightarrow>
             (case mapped content mode of
                None \<Rightarrow> serve_static e fn mode c = Inl (Exits ''Rio_writen error'')
              | Some bytes \<Rightarrow> \<exists>c'. serve_static e fn mode c = Inr c' \<and> at c' i (out @ static_head fn mode @ bytes))"
proof -
  let ?b1 = "''HTTP/1.0 200 OK'' @ CRLF"
  let ?b2 = "?b1 @ ''Server: Tiny Web Server'' @ CRLF"
  let ?b3 = "?b2 @ ''Content-length: '' @ dec_int (int mode) @ CRLF"
  let ?b4 = "?b3 @ ''Content-type: '' @ get_filetype fn @ CRLF @ CRLF"
  have dl: "length (dec_int (int mode)) \<le> 5" using length_dec_small [OF assms(2)] by (simp add: dec_int_def)
  have ft: "length (get_filetype fn) \<le> 10" by (simp add: get_filetype_def)
  have bufs: "to_buf MAXBUF ?b1 = Inr ?b1" "to_buf MAXBUF ?b2 = Inr ?b2" "to_buf MAXBUF ?b3 = Inr ?b3" "to_buf MAXBUF ?b4 = Inr ?b4"
    using dl ft by (simp_all add: to_buf_def MAXBUF_def)
  have hd: "?b4 = static_head fn mode" by (simp add: static_head_def dec_int_def)
  obtain c1 where c1: "Rio_writen ?b4 c = Inr c1" "at c1 i (out @ static_head fn mode)"
    using at_write [OF assms(1), of ?b4] unfolding hd by blast
  have "serve_static e fn mode c =
      (case e_open e fn of
         None \<Rightarrow> Inl (Exits ''Open error'')
       | Some content \<Rightarrow>
           (case mapped content mode of None \<Rightarrow> Inl (Exits ''Rio_writen error'') | Some bytes \<Rightarrow> Rio_writen bytes c1))"
    using assms(3) by (simp only: serve_static_def Let_def bufs andthen_simps c1(1)) (simp split: option.split)
  then show ?thesis using at_write [OF c1(2)] by (auto split: option.splits)
qed

lemma dynamic_ok:
  assumes "at c i out"
  shows "\<exists>c'. serve_dynamic e fn args c = Inr c' \<and>
           at c' i (out @ ''HTTP/1.0 200 OK '' @ CRLF @ ''server:tiny web server'' @ CRLF @ e_cgi e fn args)"
proof -
  obtain c1 where c1: "Rio_writen (''HTTP/1.0 200 OK '' @ CRLF) c = Inr c1" "at c1 i (out @ ''HTTP/1.0 200 OK '' @ CRLF)"
    using at_write [OF assms] by blast
  obtain c2 where c2: "Rio_writen (''server:tiny web server'' @ CRLF) c1 = Inr c2"
    "at c2 i ((out @ ''HTTP/1.0 200 OK '' @ CRLF) @ ''server:tiny web server'' @ CRLF)"
    using at_write [OF c1(2)] by blast
  have b: "to_buf MAXLINE (''HTTP/1.0 200 OK '' @ CRLF) = Inr (''HTTP/1.0 200 OK '' @ CRLF)"
    "to_buf MAXLINE (''server:tiny web server'' @ CRLF) = Inr (''server:tiny web server'' @ CRLF)"
    by (simp_all add: to_buf_def MAXLINE_def)
  have "serve_dynamic e fn args c = Inr (c2\<lparr>c_out := (c_out c2)\<lparr>sent := sent (c_out c2) @ e_cgi e fn args\<rparr>\<rparr>)"
    by (simp only: serve_dynamic_def b c1(1) c2(1) andthen_simps)
  with c2(2) show ?thesis by (auto simp: at_def wcalm_def)
qed

section \<open>One request\<close>

text \<open>A new connection: its bytes arrive without errors, and can be written to.\<close>

definition conn_ok :: "rfd \<Rightarrow> conn \<Rightarrow> bool" where
  "conn_ok fd c \<longleftrightarrow> Fail \<notin> set (revents fd) \<and> length (rio_buf (c_rio c)) = RIO_BUFSIZE \<and> wcalm (c_out c)"

definition modes_ok :: "tiny_env \<Rightarrow> bool" where
  "modes_ok e \<longleftrightarrow> (\<forall>f m. e_stat e f = Some m \<longrightarrow> m < 2 ^ 16)"

lemma at_start: "conn_ok fd c \<Longrightarrow> at (c\<lparr>c_rio := rio_readinitb (c_rio c) fd\<rparr>) (pend fd) (sent (c_out c))"
  by (simp add: conn_ok_def at_def rio_readinitb_def rio_ok_def stream_def unread_def)

lemma word_okD: "word_ok w \<Longrightarrow> w \<noteq> [] \<and> NL \<notin> set w \<and> NUL \<notin> set w"
  unfolding word_ok_def using nl_facts(1) by blast

lemma request_words:
  assumes "request_ok method uri version hs"
  shows "scan_word (request_line method uri version) = (Some method, '' '' @ uri @ '' '' @ version @ CRLF)"
    and "scan_word ('' '' @ uri @ '' '' @ version @ CRLF) = (Some uri, '' '' @ version @ CRLF)"
proof -
  have sp: "isspace (CHR '' '')" by (simp add: isspace_def uchar_def)
  have w: "word_ok method" "word_ok uri" using assms by (simp_all add: request_ok_def)
  show "scan_word (request_line method uri version) = (Some method, '' '' @ uri @ '' '' @ version @ CRLF)"
    using scan_word_here [of "method" "CHR '' ''" "uri @ '' '' @ version @ CRLF"] w(1) sp by (simp add: request_line_def word_ok_def)
  show "scan_word ('' '' @ uri @ '' '' @ version @ CRLF) = (Some uri, '' '' @ version @ CRLF)"
    using scan_word_here [of uri "CHR '' ''" "version @ CRLF"] w(2) sp by (simp add: word_ok_def)
qed

text \<open>What follows the reading of the request line.\<close>

definition after_line :: "nat \<Rightarrow> tiny_env \<Rightarrow> string \<Rightarrow> string \<Rightarrow> conn \<Rightarrow> tiny_error + conn" where
  "after_line fuel e method uri c =
     (if \<not> strcasecmp_eq method ''GET''
      then clienterror method ''501'' ''not implemented'' ''tiny does not implemented this method'' c
      else
      andthen (read_requesthdrs fuel c) (\<lambda>c.
      andthen (parse_uri uri) (\<lambda>(is_static, filename, cgiargs).
      case e_stat e filename of
        None \<Rightarrow> clienterror filename ''404'' ''not found'' (cant ''find this file'') c
      | Some mode \<Rightarrow>
          if is_static then
            if \<not> S_ISREG mode \<or> \<not> S_IRUSR mode then clienterror filename ''403'' ''forbidden'' (cant ''read'') c
            else serve_static e filename mode c
          else
            if \<not> S_ISREG mode \<or> \<not> S_IXUSR mode then clienterror filename ''403'' ''forbidden'' (cant ''read'') c
            else serve_dynamic e filename cgiargs c)))"

lemma doit_line:
  assumes "conn_ok fd c" "pend fd = request_line method uri version @ rest" "request_ok method uri version hs"
  shows "\<exists>c1. doit fuel e fd c = after_line fuel e method uri c1 \<and> at c1 rest (sent (c_out c))"
proof -
  let ?l = "method @ '' '' @ uri @ '' '' @ version"
  have w: "word_ok method" "word_ok uri" "word_ok version" "length ?l < 8190" using assms(3) by (simp_all add: request_ok_def)
  have n: "NL \<notin> set ?l" "NUL \<notin> set ?l" using w word_okD by auto
  have p: "pend fd = ?l @ CRLF @ rest" using assms(2) by (simp add: request_line_def)
  obtain c1 where c1: "Rio_readlineb None (c\<lparr>c_rio := rio_readinitb (c_rio c) fd\<rparr>) = Inr (Some (?l @ CRLF), c1)"
    "at c1 rest (sent (c_out c))"
    using at_line [OF at_start [OF assms(1), unfolded p] n w(4), of None] by blast
  let ?c = "log_out (request_line method uri version) (log_out (''request headers:'' @ [NL]) c1)"
  have r: "Rio_readlineb None (c\<lparr>c_rio := rio_readinitb (c_rio c) fd\<rparr>) = Inr (Some (request_line method uri version), c1)"
    using c1(1) by (simp add: request_line_def)
  have k: "''tiny can'' @ [CHR 0x27] @ ''t find this file'' = cant ''find this file''"
    "''tiny can'' @ [CHR 0x27] @ ''t read'' = cant ''read''" by (simp_all add: cant_def)
  have "doit fuel e fd c = after_line fuel e method uri ?c"
    by (simp only: doit_def Let_def r andthen_simps prod.case use_buf_def option.case request_words [OF assms(3)]
        option.distinct if_False after_line_def k)
  with at_log [OF at_log [OF c1(2)]] show ?thesis by blast
qed

lemma answer_ok:
  assumes "at c (header_lines hs @ CRLF @ rest) out" "request_ok method uri version hs" "strcasecmp_eq method ''GET''"
    "length hs + 1 < fuel" "modes_ok e"
  shows "case answer e uri of
           Inl x \<Rightarrow> after_line fuel e method uri c = Inl x
         | Inr reply \<Rightarrow> \<exists>c'. after_line fuel e method uri c = Inr c' \<and> at c' rest (out @ reply)"
proof -
  have hs: "\<forall>h\<in>set hs. header_ok h" and u: "word_ok uri" "length uri < 7900"
    using assms(2) by (simp_all add: request_ok_def)
  obtain st fn args where parts: "uri_parts uri = (st, fn, args)" by (metis prod.exhaust)
  have pu: "parse_uri uri = Inr (st, fn, args)"
    using parse_uri_ok [of uri] word_okD [OF u(1)] u(2) parts by simp
  have fl: "length fn < 7910" using uri_parts_length [OF parts] u(2) by simp
  obtain c1 where c1: "read_requesthdrs fuel c = Inr c1" "at c1 rest out"
    using read_requesthdrs_ok [OF assms(1) hs assms(4)] by blast
  have al: "after_line fuel e method uri c =
      (case e_stat e fn of
         None \<Rightarrow> clienterror fn ''404'' ''not found'' (cant ''find this file'') c1
       | Some mode \<Rightarrow>
           if \<not> S_ISREG mode \<or> \<not> (if st then S_IRUSR mode else S_IXUSR mode)
           then clienterror fn ''403'' ''forbidden'' (cant ''read'') c1
           else if st then serve_static e fn mode c1 else serve_dynamic e fn args c1)"
    using assms(3) c1(1) pu by (simp add: after_line_def split: option.split)
  have ce: "\<exists>c'. clienterror fn n m (cant w) c1 = Inr c' \<and> at c' rest (out @ error_page fn n m (cant w))"
    if "length n + length m + length w \<le> 50" for n m w
    using that fl by (intro clienterror_ok c1(2)) (simp add: cant_def)
  show ?thesis
  proof (cases "e_stat e fn")
    case None
    with ce [of "''404''" "''not found''" "''find this file''"] parts al show ?thesis by (simp add: answer_def)
  next
    case (Some mode)
    have m: "mode < 10 ^ 5" using assms(5) Some by (auto simp: modes_ok_def dest!: spec)
    show ?thesis
    proof (cases "S_ISREG mode \<and> (if st then S_IRUSR mode else S_IXUSR mode)")
      case False
      with ce [of "''403''" "''forbidden''" "''read''"] Some parts al show ?thesis by (simp add: answer_def)
    next
      case True
      have "mode \<noteq> 0" using True by (auto simp: S_ISREG_def)
      with static_ok [OF c1(2) m, of e fn] dynamic_ok [OF c1(2), of e fn args] True Some parts al show ?thesis
        by (auto simp: answer_def split: option.splits if_splits)
    qed
  qed
qed

lemma doit_request:
  assumes "conn_ok fd c" "pend fd = request_line method uri version @ header_lines hs @ CRLF @ rest"
    "request_ok method uri version hs" "strcasecmp_eq method ''GET''" "length hs + 1 < fuel" "modes_ok e"
  shows "case answer e uri of
           Inl x \<Rightarrow> doit fuel e fd c = Inl x
         | Inr reply \<Rightarrow> \<exists>c'. doit fuel e fd c = Inr c' \<and> sent (c_out c') = sent (c_out c) @ reply \<and> stream (c_rio c') = rest"
proof -
  obtain c1 where "doit fuel e fd c = after_line fuel e method uri c1" "at c1 (header_lines hs @ CRLF @ rest) (sent (c_out c))"
    using doit_line [OF assms(1,2,3)] by blast
  with answer_ok [OF this(2) assms(3-6)] show ?thesis by (auto simp: at_def split: sum.splits)
qed

section \<open>Properties\<close>

text \<open>C18: the server answers a GET request as specified: for every request line and every number
  of header lines that fit the line buffer, and however the bytes are cut up and interrupted on
  their way, \<open>doit\<close> reads exactly the request, ends, and sends exactly the answer to its URI: an
  error page with its own length, the head and the mapped bytes of a file, or the head and the
  output of a program; where the answer is that the process exits, it exits.\<close>

theorem doit_answers:
  assumes "conn_ok fd c" "pend fd = request_line method uri version @ header_lines hs @ CRLF @ rest"
    "request_ok method uri version hs" "strcasecmp_eq method ''GET''" "length hs + 1 < fuel" "modes_ok e"
  shows "case answer e uri of
           Inl x \<Rightarrow> doit fuel e fd c = Inl x
         | Inr reply \<Rightarrow> \<exists>c'. doit fuel e fd c = Inr c' \<and> sent (c_out c') = sent (c_out c) @ reply \<and> stream (c_rio c') = rest"
  using assms by (rule doit_request)

definition no_files :: tiny_env where
  "no_files = \<lparr>e_stat = \<lambda>_. None, e_open = \<lambda>_. None, e_cgi = \<lambda>_ _. []\<rparr>"

definition new_conn :: conn where
  "new_conn = \<lparr>c_rio = fresh_rio \<lparr>pend = [], revents = []\<rparr>, c_out = \<lparr>sent = [], wevents = [Short 1, Intr]\<rparr>, c_intr = False, c_log = []\<rparr>"

definition get_x :: "string \<Rightarrow> rfd" where
  "get_x tail = \<lparr>pend = ''get /x HTTP/1.0'' @ CRLF @ ''Host: a'' @ CRLF @ tail, revents = [Short 3, Intr]\<rparr>"

lemma new_conn_ok: "conn_ok (get_x tail) new_conn"
  by (simp add: conn_ok_def get_x_def new_conn_def fresh_rio_def rio_readinitb_def wcalm_def)

lemma get_x_ok: "request_ok ''get'' ''/x'' ''HTTP/1.0'' [''Host: a'']"
  by (simp add: request_ok_def word_ok_def header_ok_def isspace_def uchar_def)

theorem doit_answers_witness:
  "\<exists>c'. doit 3 no_files (get_x CRLF) new_conn = Inr c' \<and>
     sent (c_out c') = error_page ''./x'' ''404'' ''not found'' (cant ''find this file'')"
proof -
  have "pend (get_x CRLF) = request_line ''get'' ''/x'' ''HTTP/1.0'' @ header_lines [''Host: a''] @ CRLF @ []"
    by (simp add: get_x_def request_line_def header_lines_def)
  moreover have "strcasecmp_eq ''get'' ''GET''" by (simp add: strcasecmp_eq_def tolower_def uchar_def char_of_def bit_0)
  moreover have "answer no_files ''/x'' = Inr (error_page ''./x'' ''404'' ''not found'' (cant ''find this file''))"
    by (simp add: answer_def no_files_def uri_parts_def)
  ultimately show ?thesis
    using doit_answers [OF new_conn_ok [of CRLF] _ get_x_ok, of "[]" 3 no_files]
    by (auto simp: modes_ok_def no_files_def new_conn_def)
qed

text \<open>A method other than GET is answered with the page for error 501 as soon as the request
  line is read; the headers are left unread.\<close>

theorem doit_other_method:
  assumes "conn_ok fd c" "pend fd = request_line method uri version @ rest" "request_ok method uri version []"
    "\<not> strcasecmp_eq method ''GET''"
  shows "\<exists>c'. doit fuel e fd c = Inr c' \<and> stream (c_rio c') = rest \<and>
           sent (c_out c') = sent (c_out c) @
             error_page method ''501'' ''not implemented'' ''tiny does not implemented this method''"
proof -
  obtain c1 where c1: "doit fuel e fd c = after_line fuel e method uri c1" "at c1 rest (sent (c_out c))"
    using doit_line [OF assms(1-3)] by blast
  have "length method < 7900" using assms(3) by (simp add: request_ok_def)
  with clienterror_ok [OF c1(2), of "method" "''501''" "''not implemented''" "''tiny does not implemented this method''"] c1(1) assms(4)
  show ?thesis by (auto simp: after_line_def at_def)
qed

theorem doit_other_method_witness:
  "\<exists>c'. doit 0 no_files \<lparr>pend = ''PUT /x HTTP/1.0'' @ CRLF, revents = []\<rparr> new_conn = Inr c' \<and>
     sent (c_out c') = error_page ''PUT'' ''501'' ''not implemented'' ''tiny does not implemented this method''"
proof -
  have "conn_ok \<lparr>pend = ''PUT /x HTTP/1.0'' @ CRLF, revents = []\<rparr> new_conn"
    by (simp add: conn_ok_def new_conn_def fresh_rio_def rio_readinitb_def wcalm_def)
  moreover have "request_ok ''PUT'' ''/x'' ''HTTP/1.0'' []" by (simp add: request_ok_def word_ok_def isspace_def uchar_def)
  moreover have "\<not> strcasecmp_eq ''PUT'' ''GET''" by (simp add: strcasecmp_eq_def tolower_def uchar_def char_of_def bit_0)
  ultimately show ?thesis
    using doit_other_method [of "\<lparr>pend = ''PUT /x HTTP/1.0'' @ CRLF, revents = []\<rparr>" new_conn "''PUT''" "''/x''" "''HTTP/1.0''" "[]" 0 no_files]
    by (auto simp: request_line_def new_conn_def)
qed

text \<open>A client that closes the connection before the empty line makes the server loop for
  ever: \<open>read_requesthdrs\<close> does not notice the end of the input.\<close>

theorem doit_hangs_at_eof:
  assumes "conn_ok fd c" "pend fd = request_line method uri version @ h @ CRLF"
    "request_ok method uri version [h]" "strcasecmp_eq method ''GET''"
  shows "doit fuel e fd c = Inl Hangs"
proof -
  have h: "h \<noteq> []" "NL \<notin> set h" "NUL \<notin> set h" "length h < 8190" using assms(3) by (simp_all add: request_ok_def header_ok_def)
  obtain c1 where c1: "doit fuel e fd c = after_line fuel e method uri c1" "at c1 (h @ CRLF) (sent (c_out c))"
    using doit_line [OF assms(1-3)] by blast
  obtain c2 where c2: "Rio_readlineb None c1 = Inr (Some (h @ CRLF), c2)" "at c2 [] (sent (c_out c))"
    using at_line [of c1 h "[]" "sent (c_out c)" None] c1(2) h by auto
  have "h @ CRLF \<noteq> CRLF" using h(1) by simp
  with requesthdrs_hang [OF c2(2)] c1(1) c2(1) assms(4) show ?thesis
    by (simp add: after_line_def read_requesthdrs_def use_buf_def)
qed

theorem doit_hangs_at_eof_witness: "\<forall>fuel. doit fuel no_files (get_x []) new_conn = Inl Hangs"
proof
  fix fuel
  have "pend (get_x []) = request_line ''get'' ''/x'' ''HTTP/1.0'' @ ''Host: a'' @ CRLF"
    by (simp add: get_x_def request_line_def)
  moreover have "strcasecmp_eq ''get'' ''GET''" by (simp add: strcasecmp_eq_def tolower_def uchar_def char_of_def bit_0)
  ultimately show "doit fuel no_files (get_x []) new_conn = Inl Hangs"
    using doit_hangs_at_eof [OF new_conn_ok _ get_x_ok] by blast
qed

text \<open>Every regular file of at most 32768 bytes that the server may read makes it exit:
  \<open>doit\<close> passes the mode of the file for its size, which is larger than the mapping.\<close>

theorem small_file_exits:
  assumes "strstr uri ''cgi-bin'' = None" "e_stat e (fst (snd (uri_parts uri))) = Some mode" "S_ISREG mode" "S_IRUSR mode"
    "e_open e (fst (snd (uri_parts uri))) = Some content" "length content \<le> 32768"
    "conn_ok fd c" "pend fd = request_line method uri version @ header_lines hs @ CRLF @ rest"
    "request_ok method uri version hs" "strcasecmp_eq method ''GET''" "length hs + 1 < fuel" "modes_ok e"
  shows "doit fuel e fd c = Inl (Exits ''Rio_writen error'')"
proof -
  have "(length content + PAGE - 1) div PAGE * PAGE \<le> 32768"
    using assms(6) by (simp add: PAGE_def)
  then have "mapped content mode = None" using regular_mode [OF assms(3,4)] by (simp add: mapped_def Let_def)
  moreover have "fst (uri_parts uri)" using assms(1) by (simp add: uri_parts_def)
  ultimately have "answer e uri = Inl (Exits ''Rio_writen error'')"
    using assms(2-5) by (cases "uri_parts uri") (auto simp: answer_def)
  obtain c1 where "doit fuel e fd c = after_line fuel e method uri c1" "at c1 (header_lines hs @ CRLF @ rest) (sent (c_out c))"
    using doit_line [OF assms(7,8,9)] by blast
  with answer_ok [OF this(2) assms(9-12)] \<open>answer e uri = _\<close> show ?thesis by simp
qed

theorem small_file_exits_witness:
  "doit 3 (no_files\<lparr>e_stat := \<lambda>_. Some 33188, e_open := \<lambda>_. Some ''hello''\<rparr>) (get_x CRLF) new_conn = Inl (Exits ''Rio_writen error'')"
proof -
  let ?e = "no_files\<lparr>e_stat := \<lambda>_. Some 33188, e_open := \<lambda>_. Some ''hello''\<rparr>"
  have "pend (get_x CRLF) = request_line ''get'' ''/x'' ''HTTP/1.0'' @ header_lines [''Host: a''] @ CRLF @ []"
    by (simp add: get_x_def request_line_def header_lines_def)
  moreover have "strcasecmp_eq ''get'' ''GET''" by (simp add: strcasecmp_eq_def tolower_def uchar_def char_of_def bit_0)
  ultimately show ?thesis
    using small_file_exits [of "''/x''" ?e 33188 "''hello''" "get_x CRLF" new_conn "''get''" "''HTTP/1.0''" "[''Host: a'']" "[]" 3]
      new_conn_ok [of CRLF] get_x_ok
    by (auto simp: S_ISREG_def S_IRUSR_def modes_ok_def no_files_def)
qed

end
