(* ===== verification/Tiny_Main.thy ===== *)
theory Tiny_Main
  imports Tiny_Props
begin

text \<open>
  The main program of \<^verbatim>\<open>src/c_code/csapp/tiny.c\<close> and the listening socket it opens through
  \<^verbatim>\<open>csapp.c\<close>.  The system answers the calls that make the socket; the connections come as a list, \<open>None\<close>
  for an \<open>accept\<close> that fails.  Serving stops when the list is used up (the server waits) or when the process
  exits.  Every client gets the answer to its own request, up to the first request that ends the process; the
  port is the code of one character.
\<close>

section \<open>Definitions\<close>

record listen_answers =
  socket_fd :: int
  reuse_ok :: bool
  bind_ok :: "int \<Rightarrow> bool"
  listen_ok :: bool

definition sin_port :: "int \<Rightarrow> int" where
  "sin_port port = port mod 2 ^ 16"

definition open_listenfd :: "listen_answers \<Rightarrow> int \<Rightarrow> int" where
  "open_listenfd a port =
     (if socket_fd a < 0 then - 1
      else if \<not> reuse_ok a then - 1
      else if \<not> bind_ok a (sin_port port) then - 1
      else if \<not> listen_ok a then - 1
      else socket_fd a)"

definition Open_listenfd :: "listen_answers \<Rightarrow> int \<Rightarrow> tiny_error + int" where
  "Open_listenfd a port =
     (let rc = open_listenfd a port in if rc < 0 then Inl (Exits ''Open_listenfd error'') else Inr rc)"

text \<open>\<open>tiny.c\<close> has a version of its own, which it does not call.\<close>

definition own_Open_listenfd :: "listen_answers \<Rightarrow> int \<Rightarrow> int" where
  "own_Open_listenfd a port =
     (if socket_fd a < 0 then - 1
      else if \<not> bind_ok a (sin_port port) then - 1
      else if \<not> listen_ok a then - 1
      else socket_fd a)"

text \<open>The loop: the connections served, and what ended the process, if anything did.\<close>

fun tiny_loop :: "nat \<Rightarrow> tiny_env \<Rightarrow> (rfd \<times> conn) option list \<Rightarrow> conn list \<times> tiny_error option" where
  "tiny_loop fuel e [] = ([], None)"
| "tiny_loop fuel e (None # cs) = ([], Some (Exits ''Accept error''))"
| "tiny_loop fuel e (Some (fd, c) # cs) =
     (case doit fuel e fd c of
        Inl x \<Rightarrow> ([], Some x)
      | Inr c' \<Rightarrow> let (served, ended) = tiny_loop fuel e cs in (c' # served, ended))"

definition tiny_main :: "nat \<Rightarrow> tiny_env \<Rightarrow> string list \<Rightarrow> listen_answers \<Rightarrow> (rfd \<times> conn) option list \<Rightarrow> conn list \<times> tiny_error option" where
  "tiny_main fuel e argv a cs =
     (if length argv \<noteq> 2 then ([], Some (Exits ''usage''))
      else case Open_listenfd a (schar (case argv ! 1 of [] \<Rightarrow> NUL | x # _ \<Rightarrow> x)) of
        Inl x \<Rightarrow> ([], Some x)
      | Inr listenfd \<Rightarrow> tiny_loop fuel e cs)"

section \<open>Specification\<close>

record get_request =
  g_fd :: rfd
  g_conn :: conn
  g_method :: string
  g_uri :: string
  g_version :: string
  g_headers :: "string list"
  g_rest :: string

definition get_ok :: "nat \<Rightarrow> get_request \<Rightarrow> bool" where
  "get_ok fuel q \<longleftrightarrow> conn_ok (g_fd q) (g_conn q) \<and> sent (c_out (g_conn q)) = [] \<and>
     pend (g_fd q) = request_line (g_method q) (g_uri q) (g_version q) @ header_lines (g_headers q) @ CRLF @ g_rest q \<and>
     request_ok (g_method q) (g_uri q) (g_version q) (g_headers q) \<and> strcasecmp_eq (g_method q) ''GET'' \<and> length (g_headers q) + 1 < fuel"

fun answers :: "tiny_env \<Rightarrow> string list \<Rightarrow> string list \<times> tiny_error option" where
  "answers e [] = ([], None)"
| "answers e (uri # uris) =
     (case answer e uri of
        Inl x \<Rightarrow> ([], Some x)
      | Inr reply \<Rightarrow> let (replies, ended) = answers e uris in (reply # replies, ended))"

lemma doit_get:
  assumes "get_ok fuel q" "modes_ok e"
  shows "case answer e (g_uri q) of
           Inl x \<Rightarrow> doit fuel e (g_fd q) (g_conn q) = Inl x
         | Inr reply \<Rightarrow> \<exists>c'. doit fuel e (g_fd q) (g_conn q) = Inr c' \<and> sent (c_out c') = reply"
  using doit_request [of "g_fd q" "g_conn q" "g_method q" "g_uri q" "g_version q" "g_headers q" "g_rest q" fuel e] assms
  by (auto simp: get_ok_def split: sum.splits)

lemma tiny_loop_answers:
  assumes "modes_ok e"
  shows "\<forall>q\<in>set qs. get_ok fuel q \<Longrightarrow>
    map (sent \<circ> c_out) (fst (tiny_loop fuel e (map (\<lambda>q. Some (g_fd q, g_conn q)) qs))) = fst (answers e (map g_uri qs)) \<and>
    snd (tiny_loop fuel e (map (\<lambda>q. Some (g_fd q, g_conn q)) qs)) = snd (answers e (map g_uri qs))"
proof (induction qs)
  case (Cons q qs)
  have "get_ok fuel q" using Cons.prems by simp
  from doit_get [OF this assms] Cons show ?case by (auto simp: split_beta Let_def split: sum.splits)
qed simp

section \<open>Properties\<close>

text \<open>C19: the server as a whole: it listens on the port whose number is the code of the first character of its argument,
  and answers GET requests one after the other, each client with the answer to its own URI whatever the clients before
  it sent, until a request whose answer is that the process exits; the clients after that one get nothing.\<close>

theorem tiny_main_answers:
  assumes "argv = [prog, x # port]" "0 \<le> socket_fd a" "reuse_ok a" "listen_ok a" "bind_ok a (schar x mod 2 ^ 16)"
    and "modes_ok e" "\<forall>q\<in>set qs. get_ok fuel q"
  shows "map (sent \<circ> c_out) (fst (tiny_main fuel e argv a (map (\<lambda>q. Some (g_fd q, g_conn q)) qs))) = fst (answers e (map g_uri qs)) \<and>
    snd (tiny_main fuel e argv a (map (\<lambda>q. Some (g_fd q, g_conn q)) qs)) = snd (answers e (map g_uri qs))"
  using assms(1-5) tiny_loop_answers [OF assms(6,7)]
  by (simp add: tiny_main_def Open_listenfd_def open_listenfd_def sin_port_def Let_def)

definition ask_x :: get_request where
  "ask_x = \<lparr>g_fd = get_x CRLF, g_conn = new_conn, g_method = ''get'', g_uri = ''/x'', g_version = ''HTTP/1.0'',
     g_headers = [''Host: a''], g_rest = []\<rparr>"

lemma ask_x_ok: "get_ok 3 ask_x"
proof -
  have "pend (get_x CRLF) = request_line ''get'' ''/x'' ''HTTP/1.0'' @ header_lines [''Host: a''] @ CRLF @ []"
    by (simp add: get_x_def request_line_def header_lines_def)
  moreover have "strcasecmp_eq ''get'' ''GET''" by (simp add: strcasecmp_eq_def tolower_def uchar_def char_of_def bit_0)
  moreover have "sent (c_out new_conn) = []" by (simp add: new_conn_def)
  ultimately show ?thesis using new_conn_ok [of CRLF] get_x_ok by (simp add: get_ok_def ask_x_def)
qed

text \<open>Started with the argument 8080 the server listens on port 56, and two clients get their answers.\<close>

theorem tiny_main_answers_witness:
  "map (sent \<circ> c_out) (fst (tiny_main 3 no_files [''tiny'', ''8080'']
     \<lparr>socket_fd = 3, reuse_ok = True, bind_ok = \<lambda>port. port = 56, listen_ok = True\<rparr> (map (\<lambda>q. Some (g_fd q, g_conn q)) [ask_x, ask_x]))) =
   replicate 2 (error_page ''./x'' ''404'' ''not found'' (cant ''find this file''))"
proof -
  have "answer no_files ''/x'' = Inr (error_page ''./x'' ''404'' ''not found'' (cant ''find this file''))"
    by (simp add: answer_def no_files_def uri_parts_def)
  moreover have "g_uri ask_x = ''/x''" by (simp add: ask_x_def)
  ultimately show ?thesis
    using tiny_main_answers [of "[''tiny'', ''8080'']" "''tiny''" "CHR ''8''" "''080''"
        "\<lparr>socket_fd = 3, reuse_ok = True, bind_ok = \<lambda>port. port = 56, listen_ok = True\<rparr>" no_files "[ask_x, ask_x]" 3] ask_x_ok
    by (simp add: modes_ok_def no_files_def schar_def uchar_def numeral_2_eq_2)
qed

end
