(* ===== verification/Mm.thy ===== *)
theory Mm
  imports Prelude
begin

text \<open>
  The memory allocator of \<^verbatim>\<open>src/c_code/csapp/code/vm/malloc/mm.c\<close> (implicit free list, first
  fit, boundary tags) on the simulated memory of \<^verbatim>\<open>memlib.c\<close> beside it.

  Memory is a function from addresses to bytes; the words the allocator keeps in it are read and
  written as four bytes, low byte first.  An access outside the heap, that is below \<open>mem_heap\<close> or
  from \<open>mem_brk\<close> on, is the error \<open>Wild\<close>.  Values of type \<open>size_t\<close> are taken modulo \<open>2 ^ 64\<close>,
  words modulo \<open>2 ^ 32\<close>, and the \<open>int\<close> argument of \<open>mem_sbrk\<close> is converted as C does.  The code
  selected by \<open>NEXT_FIT\<close>, which the file leaves undefined, is not modelled.
\<close>

unbundle bit_operations_syntax

section \<open>Definitions\<close>

subsection \<open>memlib.c\<close>

datatype mm_error = Wild nat

record mm =
  mem :: "nat \<Rightarrow> nat"
  mem_heap :: nat
  mem_brk :: nat
  mem_max_addr :: nat
  heap_listp :: nat

text \<open>\<open>(void *)-1\<close>.\<close>

definition BAD :: nat where
  "BAD = 2 ^ 64 - 1"

text \<open>\<open>p\<close> is the address that the library's \<open>Malloc\<close> returns, \<open>max_heap\<close> the constant \<open>MAX_HEAP\<close> of
  \<^verbatim>\<open>config.h\<close>, which the repository does not hold.\<close>

definition mem_init :: "mm \<Rightarrow> nat \<Rightarrow> nat \<Rightarrow> mm" where
  "mem_init s p max_heap = s\<lparr>mem_heap := p, mem_brk := p, mem_max_addr := p + max_heap\<rparr>"

definition mem_sbrk :: "mm \<Rightarrow> nat \<Rightarrow> nat \<times> mm" where
  "mem_sbrk s n =
     (let incr = to_int32 (int n); old_brk = mem_brk s in
      if incr < 0 \<or> int (mem_brk s) + incr > int (mem_max_addr s) then (BAD, s)
      else (old_brk, s\<lparr>mem_brk := nat (int (mem_brk s) + incr)\<rparr>))"

subsection \<open>The macros\<close>

definition WSIZE :: nat where "WSIZE = 4"
definition DSIZE :: nat where "DSIZE = 8"
definition CHUNKSIZE :: nat where "CHUNKSIZE = 2 ^ 12"

definition PACK :: "nat \<Rightarrow> nat \<Rightarrow> nat" where
  "PACK sz alloc = sz OR alloc"

definition word_of :: "(nat \<Rightarrow> nat) \<Rightarrow> nat \<Rightarrow> nat" where
  "word_of m p = m p mod 256 + 256 * (m (p + 1) mod 256) + 65536 * (m (p + 2) mod 256) + 16777216 * (m (p + 3) mod 256)"

definition set_word :: "(nat \<Rightarrow> nat) \<Rightarrow> nat \<Rightarrow> nat \<Rightarrow> (nat \<Rightarrow> nat)" where
  "set_word m p v =
     m(p := v mod 256, p + 1 := v div 256 mod 256, p + 2 := v div 65536 mod 256, p + 3 := v div 16777216 mod 256)"

definition in_heap :: "mm \<Rightarrow> nat \<Rightarrow> bool" where
  "in_heap s p \<longleftrightarrow> mem_heap s \<le> p \<and> p + 4 \<le> mem_brk s"

definition GET :: "mm \<Rightarrow> nat \<Rightarrow> mm_error + nat" where
  "GET s p = (if in_heap s p then Inr (word_of (mem s) p) else Inl (Wild p))"

definition PUT :: "mm \<Rightarrow> nat \<Rightarrow> nat \<Rightarrow> mm_error + mm" where
  "PUT s p v = (if in_heap s p then Inr (s\<lparr>mem := set_word (mem s) p v\<rparr>) else Inl (Wild p))"

definition GET_SIZE :: "mm \<Rightarrow> nat \<Rightarrow> mm_error + nat" where
  "GET_SIZE s p = andthen (GET s p) (\<lambda>v. Inr (v div 8 * 8))"

definition GET_ALLOC :: "mm \<Rightarrow> nat \<Rightarrow> mm_error + nat" where
  "GET_ALLOC s p = andthen (GET s p) (\<lambda>v. Inr (v mod 2))"

definition HDRP :: "nat \<Rightarrow> nat" where
  "HDRP bp = bp - WSIZE"

definition FTRP :: "mm \<Rightarrow> nat \<Rightarrow> mm_error + nat" where
  "FTRP s bp = andthen (GET_SIZE s (HDRP bp)) (\<lambda>n. Inr (bp + n - DSIZE))"

definition NEXT_BLKP :: "mm \<Rightarrow> nat \<Rightarrow> mm_error + nat" where
  "NEXT_BLKP s bp = andthen (GET_SIZE s (bp - WSIZE)) (\<lambda>n. Inr (bp + n))"

definition PREV_BLKP :: "mm \<Rightarrow> nat \<Rightarrow> mm_error + nat" where
  "PREV_BLKP s bp = andthen (GET_SIZE s (bp - DSIZE)) (\<lambda>n. Inr (bp - n))"

text \<open>Subtraction of \<open>size_t\<close> values.\<close>

definition size_sub :: "nat \<Rightarrow> nat \<Rightarrow> nat" where
  "size_sub a b = nat ((int a - int b) mod 2 ^ 64)"

subsection \<open>The allocator\<close>

text \<open>Writes the header of a block, then the footer the new header leads to.\<close>

definition put_tags :: "mm \<Rightarrow> nat \<Rightarrow> nat \<Rightarrow> mm_error + mm" where
  "put_tags s bp v =
     andthen (PUT s (HDRP bp) v) (\<lambda>s. andthen (FTRP s bp) (\<lambda>f. PUT s f v))"

text \<open>In the last case the sizes of the two neighbours are added as 32-bit numbers first.\<close>

definition coalesce :: "mm \<Rightarrow> nat \<Rightarrow> mm_error + nat \<times> mm" where
  "coalesce s bp =
     andthen (PREV_BLKP s bp) (\<lambda>pp. andthen (FTRP s pp) (\<lambda>pf. andthen (GET_ALLOC s pf) (\<lambda>prev_alloc.
     andthen (NEXT_BLKP s bp) (\<lambda>np. andthen (GET_ALLOC s (HDRP np)) (\<lambda>next_alloc.
     andthen (GET_SIZE s (HDRP bp)) (\<lambda>sz.
     if prev_alloc \<noteq> 0 \<and> next_alloc \<noteq> 0 then Inr (bp, s)
     else if prev_alloc \<noteq> 0 then
       andthen (GET_SIZE s (HDRP np)) (\<lambda>n.
       let sz = sz + n in
       andthen (put_tags s bp (PACK sz 0)) (\<lambda>s. Inr (bp, s)))
     else if next_alloc \<noteq> 0 then
       andthen (GET_SIZE s (HDRP pp)) (\<lambda>n.
       let sz = sz + n in
       andthen (FTRP s bp) (\<lambda>f.
       andthen (PUT s f (PACK sz 0)) (\<lambda>s.
       andthen (PREV_BLKP s bp) (\<lambda>pp.
       andthen (PUT s (HDRP pp) (PACK sz 0)) (\<lambda>s.
       andthen (PREV_BLKP s bp) (\<lambda>pp. Inr (pp, s)))))))
     else
       andthen (GET_SIZE s (HDRP pp)) (\<lambda>n.
       andthen (FTRP s np) (\<lambda>nf.
       andthen (GET_SIZE s nf) (\<lambda>n'.
       let sz = sz + (n + n') mod 2 ^ 32 in
       andthen (PUT s (HDRP pp) (PACK sz 0)) (\<lambda>s.
       andthen (NEXT_BLKP s bp) (\<lambda>np.
       andthen (FTRP s np) (\<lambda>nf.
       andthen (PUT s nf (PACK sz 0)) (\<lambda>s.
       andthen (PREV_BLKP s bp) (\<lambda>pp. Inr (pp, s)))))))))))))))"

text \<open>\<open>NULL\<close> is 0.\<close>

definition extend_heap :: "mm \<Rightarrow> nat \<Rightarrow> mm_error + nat \<times> mm" where
  "extend_heap s words =
     (let sz = (if words mod 2 \<noteq> 0 then (words + 1) * WSIZE else words * WSIZE) mod 2 ^ 64 in
      case mem_sbrk s sz of (bp, s) \<Rightarrow>
      if bp = BAD then Inr (0, s)
      else
        andthen (put_tags s bp (PACK sz 0)) (\<lambda>s.
        andthen (NEXT_BLKP s bp) (\<lambda>np.
        andthen (PUT s (HDRP np) (PACK 0 1)) (\<lambda>s.
        coalesce s bp))))"

definition mm_init :: "mm \<Rightarrow> mm_error + int \<times> mm" where
  "mm_init s =
     (case mem_sbrk s (4 * WSIZE) of (p, s) \<Rightarrow>
      let s = s\<lparr>heap_listp := p\<rparr> in
      if p = BAD then Inr (- 1, s)
      else
        andthen (PUT s (heap_listp s) 0) (\<lambda>s.
        andthen (PUT s (heap_listp s + 1 * WSIZE) (PACK DSIZE 1)) (\<lambda>s.
        andthen (PUT s (heap_listp s + 2 * WSIZE) (PACK DSIZE 1)) (\<lambda>s.
        andthen (PUT s (heap_listp s + 3 * WSIZE) (PACK 0 1)) (\<lambda>s.
        let s = s\<lparr>heap_listp := heap_listp s + 2 * WSIZE\<rparr> in
        andthen (extend_heap s (CHUNKSIZE div WSIZE)) (\<lambda>(bp, s).
        if bp = 0 then Inr (- 1, s) else Inr (0, s)))))))"

definition place :: "mm \<Rightarrow> nat \<Rightarrow> nat \<Rightarrow> mm_error + mm" where
  "place s bp asize =
     andthen (GET_SIZE s (HDRP bp)) (\<lambda>csize.
     if size_sub csize asize \<ge> 2 * DSIZE then
       andthen (put_tags s bp (PACK asize 1)) (\<lambda>s.
       andthen (NEXT_BLKP s bp) (\<lambda>bp.
       put_tags s bp (PACK (size_sub csize asize) 0)))
     else put_tags s bp (PACK csize 1))"

lemma GET_SIZE_in_heap: "GET_SIZE s p = Inr n \<Longrightarrow> in_heap s p"
  by (auto simp: GET_SIZE_def GET_def split: if_splits)

text \<open>The search; every round moves on, and leaving the heap is an error, so it ends.\<close>

function find_fit_loop :: "mm \<Rightarrow> nat \<Rightarrow> nat \<Rightarrow> mm_error + nat" where
  "find_fit_loop s asize bp =
     andthen (GET_SIZE s (HDRP bp)) (\<lambda>n.
     if n > 0 then
       andthen (GET_ALLOC s (HDRP bp)) (\<lambda>a.
       if a = 0 \<and> asize \<le> n then Inr bp
       else andthen (NEXT_BLKP s bp) (\<lambda>np. find_fit_loop s asize np))
     else Inr 0)"
  by pat_completeness auto
termination
proof (relation "measure (\<lambda>(s, asize, bp). mem_brk s + 4 - bp)")
  fix s :: mm and asize bp n a np
  assume n: "GET_SIZE s (HDRP bp) = Inr n" "0 < n" and "NEXT_BLKP s bp = Inr np"
  then have "bp < np" by (simp add: NEXT_BLKP_def HDRP_def)
  moreover have "bp - WSIZE + 4 \<le> mem_brk s" using GET_SIZE_in_heap [OF n(1)] by (auto simp: in_heap_def HDRP_def)
  ultimately show "((s, asize, np), s, asize, bp) \<in> measure (\<lambda>(s, asize, bp). mem_brk s + 4 - bp)"
    by (simp add: WSIZE_def)
qed simp

declare find_fit_loop.simps [simp del]

definition find_fit :: "mm \<Rightarrow> nat \<Rightarrow> mm_error + nat" where
  "find_fit s asize = find_fit_loop s asize (heap_listp s)"

definition adjust :: "nat \<Rightarrow> nat" where
  "adjust sz =
     (if sz \<le> DSIZE then 2 * DSIZE
      else DSIZE * ((sz + DSIZE + (DSIZE - 1)) mod 2 ^ 64 div DSIZE))"

definition init_once :: "mm \<Rightarrow> mm_error + mm" where
  "init_once s = (if heap_listp s = 0 then andthen (mm_init s) (\<lambda>(r, s). Inr s) else Inr s)"

definition mm_malloc :: "mm \<Rightarrow> nat \<Rightarrow> mm_error + nat \<times> mm" where
  "mm_malloc s sz =
     andthen (init_once s) (\<lambda>s.
     if sz = 0 then Inr (0, s)
     else
       let asize = adjust sz in
       andthen (find_fit s asize) (\<lambda>bp.
       if bp \<noteq> 0 then andthen (place s bp asize) (\<lambda>s. Inr (bp, s))
       else
         let extendsize = max asize CHUNKSIZE in
         andthen (extend_heap s (extendsize div WSIZE)) (\<lambda>(bp, s).
         if bp = 0 then Inr (0, s)
         else andthen (place s bp asize) (\<lambda>s. Inr (bp, s)))))"

definition mm_free :: "mm \<Rightarrow> nat \<Rightarrow> mm_error + mm" where
  "mm_free s bp =
     (if bp = 0 then Inr s
      else
        andthen (GET_SIZE s (HDRP bp)) (\<lambda>sz.
        andthen (init_once s) (\<lambda>s.
        andthen (put_tags s bp (PACK sz 0)) (\<lambda>s.
        andthen (coalesce s bp) (\<lambda>(bp, s). Inr s)))))"

definition memcpy :: "mm \<Rightarrow> nat \<Rightarrow> nat \<Rightarrow> nat \<Rightarrow> mm_error + mm" where
  "memcpy s dst src n =
     (if mem_heap s \<le> dst \<and> dst + n \<le> mem_brk s \<and> mem_heap s \<le> src \<and> src + n \<le> mem_brk s
      then Inr (s\<lparr>mem := \<lambda>p. if dst \<le> p \<and> p < dst + n then mem s (src + (p - dst)) else mem s p\<rparr>)
      else Inl (Wild src))"

definition mm_realloc :: "mm \<Rightarrow> nat \<Rightarrow> nat \<Rightarrow> mm_error + nat \<times> mm" where
  "mm_realloc s ptr sz =
     (if sz = 0 then andthen (mm_free s ptr) (\<lambda>s. Inr (0, s))
      else if ptr = 0 then mm_malloc s sz
      else
        andthen (mm_malloc s sz) (\<lambda>(newptr, s).
        if newptr = 0 then Inr (0, s)
        else
          andthen (GET_SIZE s (HDRP ptr)) (\<lambda>oldsize.
          let oldsize = (if sz < oldsize then sz else oldsize) in
          andthen (memcpy s newptr ptr oldsize) (\<lambda>s.
          andthen (mm_free s ptr) (\<lambda>s. Inr (newptr, s))))))"

end
