(* ===== verification/Mm_Layout.thy ===== *)
theory Mm_Layout
  imports Mm
begin

text \<open>
  What the allocator keeps in memory: the heap is a row of blocks, the prologue first, each with
  its size and allocation bit in a header and a footer, ended by the epilogue header.  \<open>heap_lay s bs\<close>
  says that the memory of \<open>s\<close> holds the blocks \<open>bs\<close>; the lemmas say what the macros read from such
  a heap and that rewriting the tags inside a range of blocks gives the heap with the new blocks.
\<close>

section \<open>Words in memory\<close>

lemma word_of_same: "word_of (set_word m p v) p = v mod 2 ^ 32"
proof -
  have a: "v mod 4294967296 = 16777216 * (v div 16777216 mod 256) + v mod 16777216"
    using mod_mult2_eq [of v 16777216 256] by simp
  have b: "v mod 16777216 = 65536 * (v div 65536 mod 256) + v mod 65536"
    using mod_mult2_eq [of v 65536 256] by simp
  have c: "v mod 65536 = 256 * (v div 256 mod 256) + v mod 256"
    using mod_mult2_eq [of v 256 256] by simp
  show ?thesis using a b c by (simp add: word_of_def set_word_def)
qed

lemma set_word_outside: "x < p \<or> p + 4 \<le> x \<Longrightarrow> set_word m p v x = m x"
  by (auto simp: set_word_def)

lemma word_of_cong: "(\<And>x. q \<le> x \<Longrightarrow> x < q + 4 \<Longrightarrow> m' x = m x) \<Longrightarrow> word_of m' q = word_of m q"
  by (simp add: word_of_def)

lemma word_of_other: "q + 4 \<le> p \<or> p + 4 \<le> q \<Longrightarrow> word_of (set_word m p v) q = word_of m q"
  by (rule word_of_cong) (auto simp: set_word_outside)

section \<open>Rows of blocks\<close>

type_synonym block = "nat \<times> bool"

definition tag :: "nat \<Rightarrow> bool \<Rightarrow> nat" where
  "tag n a = n + of_bool a"

lemma PACK_tag: "8 dvd n \<Longrightarrow> PACK n 1 = tag n True" "PACK n 0 = tag n False"
proof -
  assume "8 dvd n"
  then have "even n" by (meson dvd_trans even_numeral)
  then show "PACK n 1 = tag n True" unfolding PACK_def tag_def or_one_eq by simp
qed (simp add: PACK_def tag_def)

lemmas PACK_Suc = PACK_tag(1) [unfolded One_nat_def]

definition bytes :: "block list \<Rightarrow> nat" where
  "bytes bs = sum_list (map fst bs)"

lemma bytes_simps [simp]: "bytes [] = 0" "bytes (b # bs) = fst b + bytes bs" "bytes (as @ bs) = bytes as + bytes bs"
  by (simp_all add: bytes_def)

definition sizes_ok :: "block list \<Rightarrow> bool" where
  "sizes_ok bs \<longleftrightarrow> (\<forall>b\<in>set bs. 8 dvd fst b \<and> 8 \<le> fst b)"

lemma sizes_ok_simps [simp]:
  "sizes_ok []" "sizes_ok (b # bs) \<longleftrightarrow> 8 dvd fst b \<and> 8 \<le> fst b \<and> sizes_ok bs" "sizes_ok (as @ bs) \<longleftrightarrow> sizes_ok as \<and> sizes_ok bs"
  by (auto simp: sizes_ok_def)

lemma bytes_dvd: "sizes_ok bs \<Longrightarrow> 8 dvd bytes bs"
  by (induction bs) auto

text \<open>The blocks from block pointer \<open>p\<close> on.\<close>

fun segs :: "(nat \<Rightarrow> nat) \<Rightarrow> nat \<Rightarrow> block list \<Rightarrow> bool" where
  "segs m p [] \<longleftrightarrow> True"
| "segs m p ((n, a) # bs) \<longleftrightarrow> word_of m (p - 4) = tag n a \<and> word_of m (p + n - 8) = tag n a \<and> segs m (p + n) bs"

lemma segs_append: "segs m p (as @ bs) \<longleftrightarrow> segs m p as \<and> segs m (p + bytes as) bs"
  by (induction as arbitrary: p) (auto simp: add.assoc)

lemma segs_cong:
  assumes "sizes_ok bs" "4 \<le> p" "\<And>x. p - 4 \<le> x \<Longrightarrow> x < p + bytes bs - 4 \<Longrightarrow> m' x = m x"
  shows "segs m' p bs = segs m p bs"
  using assms
proof (induction bs arbitrary: p)
  case (Cons b bs)
  obtain n a where b: "b = (n, a)" by (cases b)
  have n: "8 \<le> n" using Cons.prems(1) b by simp
  have "word_of m' (p - 4) = word_of m (p - 4)" "word_of m' (p + n - 8) = word_of m (p + n - 8)"
    using Cons.prems(2,3) n b by (auto intro!: word_of_cong)
  moreover have "segs m' (p + n) bs = segs m (p + n) bs"
    using Cons.prems b n by (intro Cons.IH) auto
  ultimately show ?case using b by simp
qed simp

section \<open>The heap\<close>

definition base :: "mm \<Rightarrow> nat" where
  "base s = mem_heap s + 8"

lemma base_simps [simp]: "base (s\<lparr>mem := m\<rparr>) = base s" "base (s\<lparr>mem_brk := p\<rparr>) = base s" "base (s\<lparr>heap_listp := h\<rparr>) = base s"
  by (simp_all add: base_def)

definition heap_lay :: "mm \<Rightarrow> block list \<Rightarrow> bool" where
  "heap_lay s bs \<longleftrightarrow>
     8 \<le> mem_heap s \<and> 8 dvd mem_heap s \<and> sizes_ok bs \<and> bs \<noteq> [] \<and>
     mem_brk s = base s + bytes bs \<and> mem_brk s \<le> mem_max_addr s \<and>
     mem_max_addr s < 2 ^ 63 \<and> mem_max_addr s < mem_heap s + 2 ^ 31 \<and>
     segs (mem s) (base s) bs \<and> word_of (mem s) (mem_brk s - 4) = tag 0 True"

lemma heap_layD:
  assumes "heap_lay s bs"
  shows "8 \<le> mem_heap s" "8 dvd mem_heap s" "sizes_ok bs" "mem_brk s = base s + bytes bs" "mem_brk s \<le> mem_max_addr s"
    "mem_max_addr s < mem_heap s + 2 ^ 31" "segs (mem s) (base s) bs" "word_of (mem s) (mem_brk s - 4) = tag 0 True"
    "mem_max_addr s < 2 ^ 63" "bytes bs < 2 ^ 31"
proof -
  show "8 \<le> mem_heap s" "8 dvd mem_heap s" "sizes_ok bs" "mem_brk s = base s + bytes bs" "mem_brk s \<le> mem_max_addr s"
    "mem_max_addr s < mem_heap s + 2 ^ 31" "segs (mem s) (base s) bs" "word_of (mem s) (mem_brk s - 4) = tag 0 True"
    "mem_max_addr s < 2 ^ 63"
    using assms unfolding heap_lay_def by blast+
  then show "bytes bs < 2 ^ 31" by (simp add: base_def)
qed

lemma tag_reads: "8 dvd n \<Longrightarrow> tag n a div 8 * 8 = n" "8 dvd n \<Longrightarrow> tag n a mod 2 = of_bool a"
proof -
  assume "8 dvd n"
  then obtain k where "n = 8 * k" by blast
  then show "tag n a div 8 * 8 = n" "tag n a mod 2 = of_bool a" by (cases a; simp add: tag_def; presburger)+
qed

text \<open>What is read at the block \<open>(n, a)\<close> behind the blocks \<open>xs\<close>.\<close>

lemma block_words:
  assumes "heap_lay s (xs @ (n, a) # ys)" "bp = base s + bytes xs"
  shows "GET s (bp - 4) = Inr (tag n a)" "GET s (bp + n - 8) = Inr (tag n a)" "8 dvd n" "8 \<le> n"
    "bp + n \<le> mem_brk s" "16 \<le> bp" "mem_heap s + 8 \<le> bp"
proof -
  note L = heap_layD [OF assms(1)]
  have w: "word_of (mem s) (bp - 4) = tag n a" "word_of (mem s) (bp + n - 8) = tag n a"
    using L(7) assms(2) by (simp_all add: segs_append)
  show n: "8 dvd n" "8 \<le> n" using L(3) by simp_all
  show b: "bp + n \<le> mem_brk s" "16 \<le> bp" "mem_heap s + 8 \<le> bp" using L(1,4) assms(2) by (simp_all add: base_def)
  show "GET s (bp - 4) = Inr (tag n a)" "GET s (bp + n - 8) = Inr (tag n a)"
    using w n b by (auto simp: GET_def in_heap_def)
qed

lemma block_reads:
  assumes "heap_lay s (xs @ (n, a) # ys)" "bp = base s + bytes xs"
  shows "GET_SIZE s (HDRP bp) = Inr n" "GET_ALLOC s (HDRP bp) = Inr (of_bool a)" "FTRP s bp = Inr (bp + n - 8)"
    "NEXT_BLKP s bp = Inr (bp + n)" "GET_SIZE s (bp + n - 8) = Inr n" "GET_ALLOC s (bp + n - 8) = Inr (of_bool a)"
  by (simp_all add: GET_SIZE_def GET_ALLOC_def FTRP_def NEXT_BLKP_def HDRP_def WSIZE_def DSIZE_def
      block_words(1,2) [OF assms] tag_reads [OF block_words(3) [OF assms]])

lemma prev_reads:
  assumes "heap_lay s (us @ (k, b) # ys)" "bp = base s + bytes us + k"
  shows "PREV_BLKP s bp = Inr (base s + bytes us)"
proof -
  have "GET_SIZE s (bp - DSIZE) = Inr k" unfolding assms(2) DSIZE_def by (rule block_reads(5) [OF assms(1) refl])
  then show ?thesis using assms(2) by (simp add: PREV_BLKP_def)
qed

lemma epilogue_reads:
  assumes "heap_lay s bs" "np = base s + bytes bs"
  shows "GET_SIZE s (HDRP np) = Inr 0" "GET_ALLOC s (HDRP np) = Inr 1"
proof -
  note L = heap_layD [OF assms(1)]
  have np: "np = mem_brk s" using L(4) assms(2) by simp
  have "in_heap s (np - 4)" using L(1,4) np by (simp add: in_heap_def base_def)
  then have "GET s (np - 4) = Inr (tag 0 True)" using L(8) np by (simp add: GET_def)
  then show "GET_SIZE s (HDRP np) = Inr 0" "GET_ALLOC s (HDRP np) = Inr 1"
    by (simp_all add: GET_SIZE_def GET_ALLOC_def HDRP_def WSIZE_def tag_def)
qed

section \<open>Rewriting blocks\<close>

text \<open>Memory that differs only between the header of the first and the footer of the last of the
  blocks \<open>cs\<close>, and holds there the blocks \<open>ds\<close> of the same total size.\<close>

lemma relay:
  assumes l: "heap_lay s (xs @ cs @ ys)" and bp: "bp = base s + bytes xs" and ds: "segs m' bp ds" "bytes ds = bytes cs"
    "sizes_ok ds" "ds \<noteq> []" and same: "\<And>x. x < bp - 4 \<or> bp + bytes cs - 4 \<le> x \<Longrightarrow> m' x = mem s x"
  shows "heap_lay (s\<lparr>mem := m'\<rparr>) (xs @ ds @ ys)"
proof -
  note L = heap_layD [OF l]
  have sz: "sizes_ok xs" "sizes_ok cs" "sizes_ok ys" using L(3) by simp_all
  have b: "16 \<le> base s" "base s \<le> bp" "bp + bytes cs + bytes ys = mem_brk s" using L(1,4) bp by (simp_all add: base_def)
  have c: "8 \<le> bytes cs" using ds(2-4) by (cases ds) auto
  have "segs m' (base s) xs = segs (mem s) (base s) xs" using sz b bp by (intro segs_cong same) auto
  moreover have "segs m' (bp + bytes cs) ys = segs (mem s) (bp + bytes cs) ys"
    using sz b c by (intro segs_cong same) auto
  moreover have "word_of m' (mem_brk s - 4) = word_of (mem s) (mem_brk s - 4)"
    using b c by (intro word_of_cong same) auto
  ultimately show ?thesis
    using L ds bp l by (simp add: heap_lay_def base_def segs_append add.assoc)
qed

text \<open>Header and footer of one block, in either order.\<close>

definition tagged :: "(nat \<Rightarrow> nat) \<Rightarrow> nat \<Rightarrow> nat \<Rightarrow> bool \<Rightarrow> (nat \<Rightarrow> nat)" where
  "tagged m bp n a = set_word (set_word m (bp - 4) (tag n a)) (bp + n - 8) (tag n a)"

lemma tagged_words:
  assumes "8 \<le> n" "4 \<le> bp" "n < 2 ^ 31"
  shows "word_of (tagged m bp n a) (bp - 4) = tag n a" "word_of (tagged m bp n a) (bp + n - 8) = tag n a"
    "x < bp - 4 \<or> bp + n - 4 \<le> x \<Longrightarrow> tagged m bp n a x = m x"
    "q + 4 \<le> bp - 4 \<or> bp \<le> q \<and> q + 4 \<le> bp + n - 8 \<or> bp + n - 4 \<le> q \<Longrightarrow> word_of (tagged m bp n a) q = word_of m q"
proof -
  have t: "tag n a mod 2 ^ 32 = tag n a" using assms(3) by (simp add: tag_def)
  show "word_of (tagged m bp n a) (bp + n - 8) = tag n a" using t by (simp add: tagged_def word_of_same)
  have "word_of (tagged m bp n a) (bp - 4) = word_of (set_word m (bp - 4) (tag n a)) (bp - 4)"
    unfolding tagged_def using assms by (intro word_of_other) auto
  then show "word_of (tagged m bp n a) (bp - 4) = tag n a" using t by (simp add: word_of_same)
  show "x < bp - 4 \<or> bp + n - 4 \<le> x \<Longrightarrow> tagged m bp n a x = m x"
    unfolding tagged_def using assms by (subst set_word_outside, linarith)+ simp
  show "q + 4 \<le> bp - 4 \<or> bp \<le> q \<and> q + 4 \<le> bp + n - 8 \<or> bp + n - 4 \<le> q \<Longrightarrow> word_of (tagged m bp n a) q = word_of m q"
    unfolding tagged_def using assms by (subst word_of_other, linarith)+ simp
qed

lemma put_tags_ok:
  assumes "in_heap s (bp - 4)" "in_heap s (bp + n - 8)" "8 dvd n" "8 \<le> n" "n < 2 ^ 31" "4 \<le> bp"
  shows "put_tags s bp (tag n a) = Inr (s\<lparr>mem := tagged (mem s) bp n a\<rparr>)"
proof -
  have "tag n a mod 2 ^ 32 = tag n a" using assms(5) by (simp add: tag_def)
  then have "word_of (set_word (mem s) (bp - 4) (tag n a)) (bp - 4) = tag n a" by (simp add: word_of_same)
  with assms show ?thesis
    by (simp add: put_tags_def PUT_def HDRP_def FTRP_def GET_SIZE_def GET_def in_heap_def WSIZE_def DSIZE_def tag_reads tagged_def)
qed

text \<open>One block in place of the blocks \<open>cs\<close>.\<close>

lemma lay_tagged:
  assumes "heap_lay s (xs @ cs @ ys)" "bp = base s + bytes xs" "bytes cs = n" "cs \<noteq> []"
  shows "heap_lay (s\<lparr>mem := tagged (mem s) bp n a\<rparr>) (xs @ (n, a) # ys)"
    and "put_tags s bp (tag n a) = Inr (s\<lparr>mem := tagged (mem s) bp n a\<rparr>)"
proof -
  note L = heap_layD [OF assms(1)]
  have n: "8 dvd n" "8 \<le> n" "n < 2 ^ 31" using L(3,10) assms(3,4) bytes_dvd [of cs] by (cases cs; auto)+
  have bp: "16 \<le> bp" "mem_heap s + 8 \<le> bp" "bp + n \<le> mem_brk s" using L(1,4) assms(2,3) by (simp_all add: base_def)
  have "segs (tagged (mem s) bp n a) bp [(n, a)]" using tagged_words(1,2) [of n bp] n bp by simp
  from relay [OF assms(1,2) this, of] assms(3) n bp tagged_words(3) [of n bp]
  show "heap_lay (s\<lparr>mem := tagged (mem s) bp n a\<rparr>) (xs @ (n, a) # ys)" by simp
  show "put_tags s bp (tag n a) = Inr (s\<lparr>mem := tagged (mem s) bp n a\<rparr>)"
    using n bp by (intro put_tags_ok) (auto simp: in_heap_def)
qed

text \<open>Two blocks in place of one.\<close>

lemma lay_split:
  assumes "heap_lay s (xs @ (n, c) # ys)" "bp = base s + bytes xs" "n = k + r" "8 dvd k" "8 \<le> k" "8 \<le> r"
  shows "heap_lay (s\<lparr>mem := tagged (tagged (mem s) bp k a) (bp + k) r b\<rparr>) (xs @ (k, a) # (r, b) # ys)"
proof -
  note L = heap_layD [OF assms(1)]
  have n: "8 dvd r" "k < 2 ^ 31" "r < 2 ^ 31" "8 dvd n"
    using L(3,10) assms(3,4) by (auto simp: dvd_add_right_iff)
  have bp: "16 \<le> bp" using L(1) assms(2) by (simp add: base_def)
  let ?m = "tagged (tagged (mem s) bp k a) (bp + k) r b"
  have "word_of ?m (bp - 4) = tag k a" "word_of ?m (bp + k - 8) = tag k a"
    using tagged_words(1,2) [of k bp] assms(5) bp n
    by (subst tagged_words(4); auto simp: assms(6))+
  moreover have "word_of ?m (bp + k - 4) = tag r b" "word_of ?m (bp + k + r - 8) = tag r b"
    using tagged_words(1,2) [of r "bp + k"] assms bp n by auto
  ultimately have "segs ?m bp [(k, a), (r, b)]" by simp
  moreover have "?m x = mem s x" if "x < bp - 4 \<or> bp + n - 4 \<le> x" for x
    using that assms bp n by (subst tagged_words(3); auto)+
  ultimately show ?thesis
    using relay [of s xs "[(n, c)]" ys bp ?m "[(k, a), (r, b)]"] assms n by simp
qed

end
