(* ===== verification/Mm_Row.thy ===== *)
theory Mm_Row
  imports Mm_Layout
begin

text \<open>
  The allocator's contract, on rows of blocks instead of memory: \<open>row_malloc\<close> carves a block out of
  the first free block that is large enough, or out of new memory at the end, and \<open>row_free\<close> marks a
  block as free and merges neighbouring free blocks.  \<open>in_use\<close> lists the allocated blocks as pairs of
  block pointer and size.  \<open>row_ok\<close> is the invariant of the rows.
\<close>

section \<open>Definitions\<close>

fun in_use :: "nat \<Rightarrow> block list \<Rightarrow> (nat \<times> nat) list" where
  "in_use p [] = []"
| "in_use p ((n, a) # bs) = (if a then [(p, n)] else []) @ in_use (p + n) bs"

fun join :: "block list \<Rightarrow> block list" where
  "join (b # c # bs) = (if snd b \<or> snd c then b # join (c # bs) else join ((fst b + fst c, False) # bs))"
| "join [b] = [b]"
| "join [] = []"

fun no_adj :: "block list \<Rightarrow> bool" where
  "no_adj (b # c # bs) \<longleftrightarrow> (snd b \<or> snd c) \<and> no_adj (c # bs)"
| "no_adj [b] \<longleftrightarrow> True"
| "no_adj [] \<longleftrightarrow> True"

definition pieces :: "nat \<Rightarrow> nat \<Rightarrow> block list" where
  "pieces a n = (if 16 \<le> n - a then [(a, True), (n - a, False)] else [(n, True)])"

fun carve :: "nat \<Rightarrow> block list \<Rightarrow> (nat \<times> block list) option" where
  "carve a [] = None"
| "carve a ((n, b) # bs) =
     (if \<not> b \<and> a \<le> n then Some (0, pieces a n @ bs)
      else map_option (\<lambda>(q, bs'). (n + q, (n, b) # bs')) (carve a bs))"

fun release :: "nat \<Rightarrow> block list \<Rightarrow> block list" where
  "release q [] = []"
| "release q ((n, a) # bs) = (if q = 0 then (n, False) # bs else (n, a) # release (q - n) bs)"

text \<open>\<open>room\<close> is what the memory can still grow by; offsets are relative to the first block pointer.\<close>

definition row_malloc :: "nat \<Rightarrow> nat \<Rightarrow> block list \<Rightarrow> (nat \<times> block list) option" where
  "row_malloc room sz bs =
     (let a = max 16 (8 * ((sz + 15) div 8)) in
      case carve a bs of
        Some r \<Rightarrow> Some r
      | None \<Rightarrow> if max a 4096 \<le> room then carve a (join (bs @ [(max a 4096, False)])) else None)"

definition row_free :: "nat \<Rightarrow> block list \<Rightarrow> block list" where
  "row_free q bs = join (release q bs)"

fun row_ok :: "block list \<Rightarrow> bool" where
  "row_ok [] \<longleftrightarrow> False"
| "row_ok (b # bs) \<longleftrightarrow> b = (8, True) \<and> list_all (\<lambda>c. 8 dvd fst c \<and> 16 \<le> fst c) bs \<and> no_adj bs"

section \<open>Live blocks\<close>

lemma in_use_append [simp]: "in_use p (xs @ ys) = in_use p xs @ in_use (p + bytes xs) ys"
  by (induction xs arbitrary: p) (auto simp: add.assoc)

lemma in_use_bounds: "(q, n) \<in> set (in_use p bs) \<Longrightarrow> p \<le> q \<and> q + n \<le> p + bytes bs"
  by (induction bs arbitrary: p) (auto split: if_splits, force+)

lemma in_use_split: "(q, n) \<in> set (in_use p bs) \<Longrightarrow> \<exists>xs ys. bs = xs @ (n, True) # ys \<and> q = p + bytes xs"
proof (induction bs arbitrary: p)
  case (Cons b bs)
  obtain m a where b: "b = (m, a)" by (cases b)
  consider "a" "q = p" "n = m" | "(q, n) \<in> set (in_use (p + m) bs)" using Cons.prems b by (auto split: if_splits)
  then show ?case
  proof cases
    case 1
    then have "b # bs = [] @ (n, True) # bs \<and> q = p + bytes []" using b by simp
    then show ?thesis by blast
  next
    case 2
    then obtain xs ys where "bs = xs @ (n, True) # ys" "q = p + m + bytes xs" using Cons.IH by blast
    then have "b # bs = ((m, a) # xs) @ (n, True) # ys \<and> q = p + bytes ((m, a) # xs)" using b by simp
    then show ?thesis by blast
  qed
qed simp

lemma in_use_disjoint:
  assumes "(q, n) \<in> set (in_use p bs)" "(r, k) \<in> set (in_use p bs)" "(q, n) \<noteq> (r, k)" "sizes_ok bs"
  shows "q + n \<le> r \<or> r + k \<le> q"
proof -
  obtain xs ys where s: "bs = xs @ (n, True) # ys" "q = p + bytes xs" using in_use_split assms(1) by blast
  then consider "(r, k) \<in> set (in_use p xs)" | "(r, k) \<in> set (in_use (p + bytes xs + n) ys)" using assms(2,3) by auto
  then show ?thesis by cases (use in_use_bounds s in force)+
qed

lemma in_use_distinct: "sizes_ok bs \<Longrightarrow> distinct (in_use p bs)"
  by (induction bs arbitrary: p) (fastforce dest: in_use_bounds)+

section \<open>Joining\<close>

lemma join_bytes [simp]: "bytes (join bs) = bytes bs"
  by (induction bs rule: join.induct) auto

lemma join_sizes [simp]: "sizes_ok bs \<Longrightarrow> sizes_ok (join bs)"
  by (induction bs rule: join.induct) auto

lemma join_live [simp]: "in_use p (join bs) = in_use p bs"
proof (induction bs arbitrary: p rule: join.induct)
  case (1 b c bs)
  then show ?case by (cases b; cases c) (auto simp: add.assoc)
qed auto

lemma join_nonempty [simp]: "join bs = [] \<longleftrightarrow> bs = []"
  by (induction bs rule: join.induct) auto

lemma join_id: "no_adj bs \<Longrightarrow> join bs = bs"
  by (induction bs rule: join.induct) auto

lemma join_head: "join (b # bs) \<noteq> [] \<and> (snd b \<longrightarrow> hd (join (b # bs)) = b) \<and> (\<not> snd b \<longrightarrow> \<not> snd (hd (join (b # bs))))"
proof (induction "b # bs" arbitrary: b bs rule: join.induct)
  case (1 b c bs)
  then show ?case by (cases "snd b \<or> snd c") auto
qed auto

lemma no_adj_Cons: "no_adj (b # bs) \<longleftrightarrow> no_adj bs \<and> (bs = [] \<or> snd b \<or> snd (hd bs))"
  by (cases bs) auto

lemma join_no_adj: "no_adj (join bs)"
proof (induction bs rule: join.induct)
  case (1 b c bs)
  then show ?case using join_head [of c bs] by (auto simp: no_adj_Cons)
qed auto

lemma join_prefix: "no_adj (us @ [b]) \<Longrightarrow> join (us @ b # bs) = us @ join (b # bs)"
proof (induction us)
  case (Cons u us)
  then show ?case by (cases us) auto
qed simp

lemma no_adj_append: "no_adj (xs @ ys) \<longleftrightarrow> no_adj xs \<and> no_adj ys \<and> (xs = [] \<or> ys = [] \<or> snd (last xs) \<or> snd (hd ys))"
proof (induction xs)
  case (Cons x xs)
  then show ?case by (cases xs; cases ys) (auto simp: no_adj_Cons)
qed simp

lemma join_parts: "list_all P bs \<Longrightarrow> (\<And>b c. P b \<Longrightarrow> P c \<Longrightarrow> P (fst b + fst c, False)) \<Longrightarrow> list_all P (join bs)"
  by (induction bs rule: join.induct) auto

section \<open>Carving and releasing\<close>

lemma carve_None: "carve a bs = None \<longleftrightarrow> list_all (\<lambda>(n, b). b \<or> n < a) bs"
  by (induction a bs rule: carve.induct) auto

lemma carve_Some:
  assumes "carve a bs = Some (q, bs')"
  shows "\<exists>xs n ys. bs = xs @ (n, False) # ys \<and> a \<le> n \<and> q = bytes xs \<and> bs' = xs @ pieces a n @ ys"
  using assms
proof (induction bs arbitrary: q bs')
  case (Cons c bs)
  obtain m b where c: "c = (m, b)" by (cases c)
  show ?case
  proof (cases "\<not> b \<and> a \<le> m")
    case True
    then have "c # bs = [] @ (m, False) # bs \<and> a \<le> m \<and> q = bytes [] \<and> bs' = [] @ pieces a m @ bs"
      using c Cons.prems by auto
    then show ?thesis by blast
  next
    case False
    then obtain q0 bs0 where r: "carve a bs = Some (q0, bs0)" "q = m + q0" "bs' = c # bs0"
      using c Cons.prems by auto
    from Cons.IH [OF r(1)] obtain xs n ys where "bs = xs @ (n, False) # ys" "a \<le> n" "q0 = bytes xs" "bs0 = xs @ pieces a n @ ys"
      by blast
    then have "c # bs = (c # xs) @ (n, False) # ys \<and> a \<le> n \<and> q = bytes (c # xs) \<and> bs' = (c # xs) @ pieces a n @ ys"
      using r c by simp
    then show ?thesis by blast
  qed
qed simp

lemma carve_append:
  "list_all (\<lambda>(n, b). b \<or> n < a) xs \<Longrightarrow> carve a (xs @ bs) = map_option (\<lambda>r. (bytes xs + fst r, xs @ snd r)) (carve a bs)"
  by (induction xs) (auto simp: option.map_comp o_def case_prod_beta add.assoc option.map_ident)

lemma release_at: "sizes_ok xs \<Longrightarrow> release (bytes xs) (xs @ (n, a) # ys) = xs @ (n, False) # ys"
  by (induction xs) auto

lemma pieces_facts:
  assumes "a \<le> n"
  shows "bytes (pieces a n) = n" "8 dvd a \<Longrightarrow> 8 dvd n \<Longrightarrow> 8 \<le> a \<Longrightarrow> sizes_ok (pieces a n)" "\<exists>k\<ge>a. in_use p (pieces a n) = [(p, k)]" "pieces a n \<noteq> []" "snd (hd (pieces a n))"
  using assms by (auto simp: pieces_def)

section \<open>The invariant of the rows\<close>

lemma row_ok_cons: "row_ok bs \<longleftrightarrow> (\<exists>cs. bs = (8, True) # cs \<and> list_all (\<lambda>c. 8 dvd fst c \<and> 16 \<le> fst c) cs \<and> no_adj cs)"
  by (cases bs) auto

lemma row_ok_sizes: "row_ok bs \<Longrightarrow> sizes_ok bs"
  by (force simp: row_ok_cons sizes_ok_def list_all_iff)

lemma row_ok_no_adj: "row_ok bs \<Longrightarrow> no_adj bs"
  by (auto simp: row_ok_cons no_adj_Cons)

lemma row_ok_join: "list_all (\<lambda>c. 8 dvd fst c \<and> 16 \<le> fst c) cs \<Longrightarrow> row_ok (join ((8, True) # cs))"
  by (cases cs) (auto simp: join_no_adj intro!: join_parts)

lemma carve_row_ok:
  assumes "row_ok bs" "16 \<le> a" "8 dvd a" "carve a bs = Some (q, bs')"
  shows "row_ok bs' \<and> 8 \<le> q \<and> bytes bs' = bytes bs \<and>
    (\<exists>n\<ge>a. set (in_use p bs') = insert (p + q, n) (set (in_use p bs)) \<and> (p + q, n) \<notin> set (in_use p bs))"
proof -
  obtain xs n ys where s: "bs = xs @ (n, False) # ys" "a \<le> n" "q = bytes xs" "bs' = xs @ pieces a n @ ys"
    using carve_Some [OF assms(4)] by blast
  obtain cs where cs: "xs = (8, True) # cs" using assms(1) s(1) by (cases xs) (auto simp: row_ok_cons)
  have ok: "list_all (\<lambda>c. 8 dvd fst c \<and> 16 \<le> fst c) (cs @ (n, False) # ys)" "no_adj (cs @ (n, False) # ys)"
    using assms(1) s(1) cs by auto
  have "row_ok bs'"
    using ok s(2,4) cs assms(2,3) by (auto simp: pieces_def no_adj_append no_adj_Cons)
  moreover obtain k where k: "k \<ge> a" "in_use (p + q) (pieces a n) = [(p + q, k)]"
    using pieces_facts(3) [OF s(2)] by blast
  have "set (in_use p bs') = insert (p + q, k) (set (in_use p bs))"
    using s k(2) pieces_facts(1) [OF s(2)] by auto
  moreover have "sizes_ok bs'" using calculation(1) row_ok_sizes by blast
  then have "(p + q, k) \<notin> set (in_use p bs)"
    using in_use_distinct [of bs' p] s k(2) pieces_facts(1) [OF s(2)] by simp
  ultimately show ?thesis using k(1) s cs pieces_facts(1) [OF s(2)] by auto
qed

lemma row_malloc_row_ok:
  assumes "row_ok bs" "row_malloc room sz bs = Some (q, bs')"
  shows "row_ok bs' \<and> 8 \<le> q \<and> bytes bs' \<le> bytes bs + room \<and>
    (\<exists>n\<ge>sz + 8. set (in_use p bs') = insert (p + q, n) (set (in_use p bs)) \<and> (p + q, n) \<notin> set (in_use p bs))"
proof -
  define a where "a = max 16 (8 * ((sz + 15) div 8))"
  have a: "16 \<le> a" "8 dvd a" "sz + 8 \<le> a" by (auto simp: max_def a_def)
  have step: ?thesis if r: "row_ok cs" "carve a cs = Some (q, bs')" "in_use p cs = in_use p bs" "bytes cs \<le> bytes bs + room" for cs
  proof -
    obtain n where n: "row_ok bs'" "8 \<le> q" "bytes bs' = bytes cs" "a \<le> n" "set (in_use p bs') = insert (p + q, n) (set (in_use p cs))"
      "(p + q, n) \<notin> set (in_use p cs)" using carve_row_ok [OF r(1) a(1,2) r(2), of p] by blast
    have "sz + 8 \<le> n" using a(3) n(4) by linarith
    then show ?thesis using n r(3,4) by auto
  qed
  show ?thesis
  proof (cases "carve a bs")
    case (Some r)
    then have "carve a bs = Some (q, bs')" using assms(2) by (simp add: row_malloc_def a_def)
    then show ?thesis using step assms(1) by simp
  next
    case None
    let ?e = "max a 4096"
    have c: "?e \<le> room" "carve a (join (bs @ [(?e, False)])) = Some (q, bs')"
      using None assms(2) by (auto simp: row_malloc_def a_def [symmetric] Let_def split: if_splits)
    obtain cs where cs: "bs = (8, True) # cs" "list_all (\<lambda>c. 8 dvd fst c \<and> 16 \<le> fst c) cs"
      using assms(1) by (auto simp: row_ok_cons)
    have "8 dvd ?e" using a(2) by (simp add: max_def)
    then have "row_ok (join (bs @ [(?e, False)]))" using row_ok_join [of "cs @ [(?e, False)]"] cs by simp
    then show ?thesis using step c by simp
  qed
qed

lemma row_free_row_ok:
  assumes "row_ok bs" "(p + q, n) \<in> set (in_use p bs)" "q \<noteq> 0"
  shows "row_ok (row_free q bs) \<and> bytes (row_free q bs) = bytes bs \<and> set (in_use p (row_free q bs)) = set (in_use p bs) - {(p + q, n)}"
proof -
  obtain xs ys where s: "bs = xs @ (n, True) # ys" "q = bytes xs" using in_use_split [OF assms(2)] by auto
  have sz: "sizes_ok bs" using assms(1) row_ok_sizes by blast
  have rel: "release q bs = xs @ (n, False) # ys" using release_at s sz by simp
  obtain cs where cs: "xs = (8, True) # cs" using assms(1,3) s by (cases xs) (auto simp: row_ok_cons)
  have "row_ok (row_free q bs)"
    using row_ok_join [of "cs @ (n, False) # ys"] assms(1) s(1) cs rel by (auto simp: row_free_def)
  moreover have "set (in_use p (row_free q bs)) = set (in_use p bs) - {(p + q, n)}"
    using in_use_distinct [OF sz, of p] s rel by (auto simp: row_free_def)
  ultimately show ?thesis using rel s by (simp add: row_free_def)
qed

end
