(* ===== verification/Mm_Ops.thy ===== *)
theory Mm_Ops
  imports Mm_Row
begin

text \<open>
  What each operation of \<^verbatim>\<open>mm.c\<close> does to a heap that holds a row of blocks: \<open>coalesce\<close> joins,
  \<open>extend_heap\<close> appends, \<open>find_fit\<close> finds the first fit and \<open>place\<close> cuts.  Every lemma also says
  which part of memory is left alone.
\<close>

section \<open>Shared facts\<close>

definition same_outside :: "(nat \<Rightarrow> nat) \<Rightarrow> (nat \<Rightarrow> nat) \<Rightarrow> nat \<Rightarrow> nat \<Rightarrow> bool" where
  "same_outside m m' bp n \<longleftrightarrow> (\<forall>x. x < bp - 4 \<or> bp + n - 4 \<le> x \<longrightarrow> m' x = m x)"

lemma tagged_outside: "8 \<le> n \<Longrightarrow> 4 \<le> bp \<Longrightarrow> n < 2 ^ 31 \<Longrightarrow> same_outside m (tagged m bp n a) bp n"
  using tagged_words(3) by (simp add: same_outside_def)

lemma GET_mem: "word_of m' p = word_of (mem s) p \<Longrightarrow> GET (s\<lparr>mem := m'\<rparr>) p = GET s p"
  by (simp add: GET_def in_heap_def)

lemma blkp_mem:
  "word_of m' (bp - 8) = word_of (mem s) (bp - 8) \<Longrightarrow> PREV_BLKP (s\<lparr>mem := m'\<rparr>) bp = PREV_BLKP s bp"
  "word_of m' (bp - 4) = word_of (mem s) (bp - 4) \<Longrightarrow> NEXT_BLKP (s\<lparr>mem := m'\<rparr>) bp = NEXT_BLKP s bp"
  "word_of m' (bp - 4) = word_of (mem s) (bp - 4) \<Longrightarrow> FTRP (s\<lparr>mem := m'\<rparr>) bp = FTRP s bp"
  by (simp_all add: PREV_BLKP_def NEXT_BLKP_def FTRP_def GET_SIZE_def HDRP_def DSIZE_def WSIZE_def GET_mem)

lemma set_word_swap: "p + 4 \<le> q \<or> q + 4 \<le> p \<Longrightarrow> set_word (set_word m p v) q w = set_word (set_word m q w) p v"
  by (auto simp: set_word_def fun_upd_def fun_eq_iff)

definition next_alloc :: "block list \<Rightarrow> bool" where
  "next_alloc ys \<longleftrightarrow> ys = [] \<or> snd (hd ys)"

lemma next_reads:
  assumes "heap_lay s (xs @ (n, a) # ys)" "bp = base s + bytes xs"
  shows "GET_ALLOC s (HDRP (bp + n)) = Inr (of_bool (next_alloc ys))"
proof (cases ys)
  case Nil
  then show ?thesis using epilogue_reads(2) [OF assms(1)] assms(2) by (simp add: next_alloc_def add.assoc)
next
  case (Cons y zs)
  obtain m c where y: "y = (m, c)" by (cases y)
  then have "heap_lay s ((xs @ [(n, a)]) @ (m, c) # zs)" using assms(1) Cons by simp
  from block_reads(2) [OF this refl] show ?thesis using assms(2) y Cons by (simp add: next_alloc_def add.assoc)
qed

section \<open>coalesce\<close>

text \<open>The free block behind \<open>(k, b)\<close>, at \<open>pp + k\<close>.\<close>

lemma here_reads:
  assumes "heap_lay s (us @ (k, b) # (n, False) # ys)" "pp = base s + bytes us"
  shows "GET_SIZE s (HDRP (pp + k)) = Inr n" "FTRP s (pp + k) = Inr (pp + k + n - 8)" "NEXT_BLKP s (pp + k) = Inr (pp + k + n)"
    "GET_ALLOC s (HDRP (pp + k + n)) = Inr (of_bool (next_alloc ys))" "pp + k + n \<le> mem_brk s" "8 \<le> n" "8 dvd n"
proof -
  have two: "heap_lay s ((us @ [(k, b)]) @ (n, False) # ys)" "pp + k = base s + bytes (us @ [(k, b)])" using assms by simp_all
  show "GET_SIZE s (HDRP (pp + k)) = Inr n" "FTRP s (pp + k) = Inr (pp + k + n - 8)" "NEXT_BLKP s (pp + k) = Inr (pp + k + n)"
    "GET_ALLOC s (HDRP (pp + k + n)) = Inr (of_bool (next_alloc ys))" "pp + k + n \<le> mem_brk s" "8 \<le> n" "8 dvd n"
    by (fact block_reads(1,3,4) [OF two] next_reads [OF two] block_words(3-5) [OF two])+
qed

lemma coalesce_reads:
  assumes "heap_lay s (us @ (k, b) # (n, False) # ys)" "pp = base s + bytes us"
  shows "coalesce s (pp + k) =
     (if b \<and> next_alloc ys then Inr (pp + k, s)
      else if b then
        andthen (GET_SIZE s (HDRP (pp + k + n))) (\<lambda>m. andthen (put_tags s (pp + k) (PACK (n + m) 0)) (\<lambda>s. Inr (pp + k, s)))
      else if next_alloc ys then
       andthen (PUT s (pp + k + n - 8) (PACK (n + k) 0)) (\<lambda>s.
       andthen (PREV_BLKP s (pp + k)) (\<lambda>pp'.
       andthen (PUT s (HDRP pp') (PACK (n + k) 0)) (\<lambda>s.
       andthen (PREV_BLKP s (pp + k)) (\<lambda>pp'. Inr (pp', s)))))
      else
       andthen (FTRP s (pp + k + n)) (\<lambda>nf.
       andthen (GET_SIZE s nf) (\<lambda>m.
       andthen (PUT s (HDRP pp) (PACK (n + (k + m) mod 2 ^ 32) 0)) (\<lambda>s.
       andthen (NEXT_BLKP s (pp + k)) (\<lambda>np.
       andthen (FTRP s np) (\<lambda>nf.
       andthen (PUT s nf (PACK (n + (k + m) mod 2 ^ 32) 0)) (\<lambda>s.
       andthen (PREV_BLKP s (pp + k)) (\<lambda>pp'. Inr (pp', s)))))))))"
proof -
  have "PREV_BLKP s (pp + k) = Inr pp" using prev_reads [OF assms(1), of "pp + k"] assms(2) by simp
  then show ?thesis
    by (simp add: coalesce_def here_reads(1-4) [OF assms] block_reads [OF assms] Let_def)
qed

lemma coalesce_case2:
  assumes "heap_lay s (us @ (k, True) # (n, False) # (m, False) # zs)" "pp = base s + bytes us"
  defines "s' \<equiv> s\<lparr>mem := tagged (mem s) (pp + k) (n + m) False\<rparr>"
  shows "coalesce s (pp + k) = Inr (pp + k, s')" and "heap_lay s' (us @ (k, True) # (n + m, False) # zs)"
proof -
  have l2: "heap_lay s ((us @ [(k, True)]) @ [(n, False), (m, False)] @ zs)" using assms(1) by simp
  have l3: "heap_lay s ((us @ [(k, True), (n, False)]) @ (m, False) # zs)" using assms(1) by simp
  have "GET_SIZE s (HDRP (pp + k + n)) = Inr m" using block_reads(1) [OF l3 refl] assms(2) by (simp add: add.assoc)
  moreover note lay_tagged [OF l2, of "pp + k" "n + m" False]
  ultimately show "coalesce s (pp + k) = Inr (pp + k, s')" "heap_lay s' (us @ (k, True) # (n + m, False) # zs)"
    using coalesce_reads [OF assms(1,2)] assms(2) by (simp_all add: next_alloc_def PACK_tag s'_def)
qed

lemma coalesce_case3:
  assumes "heap_lay s (us @ (k, False) # (n, False) # ys)" "pp = base s + bytes us" "next_alloc ys"
  defines "s' \<equiv> s\<lparr>mem := tagged (mem s) pp (k + n) False\<rparr>"
  shows "coalesce s (pp + k) = Inr (pp, s')" and "heap_lay s' (us @ (k + n, False) # ys)"
proof -
  let ?v = "tag (k + n) False"
  let ?m = "set_word (mem s) (pp + k + n - 8) ?v"
  have "heap_lay s (us @ [(k, False), (n, False)] @ ys)" using assms(1) by simp
  from lay_tagged(1) [OF this assms(2)] show "heap_lay s' (us @ (k + n, False) # ys)" by (simp add: s'_def)
  note b = block_words(4-7) [OF assms(1,2)] here_reads(5,6) [OF assms(1,2)]
  have sw: "set_word ?m (pp - 4) ?v = tagged (mem s) pp (k + n) False"
    unfolding tagged_def add.assoc [symmetric] using b by (intro set_word_swap) linarith
  have heap: "in_heap s (pp + k + n - 8)" "in_heap s (pp - 4)" unfolding in_heap_def using b by linarith+
  have w: "word_of ?m (pp + k - 8) = word_of (mem s) (pp + k - 8)" using b by (intro word_of_other) linarith
  moreover have "word_of (set_word ?m (pp - 4) ?v) (pp + k - 8) = word_of ?m (pp + k - 8)"
    using b by (intro word_of_other) linarith
  moreover have "PREV_BLKP s (pp + k) = Inr pp" using prev_reads [OF assms(1), of "pp + k"] assms(2) by simp
  ultimately have "PREV_BLKP (s\<lparr>mem := ?m\<rparr>) (pp + k) = Inr pp" "PREV_BLKP (s\<lparr>mem := tagged (mem s) pp (k + n) False\<rparr>) (pp + k) = Inr pp"
    using sw by (simp_all add: blkp_mem(1))
  then show "coalesce s (pp + k) = Inr (pp, s')"
    using coalesce_reads [OF assms(1,2)] assms(3) heap sw
    by (simp add: PACK_tag PUT_def HDRP_def WSIZE_def add.commute [of n k] in_heap_def s'_def)
qed

lemma coalesce_case4:
  assumes "heap_lay s (us @ (k, False) # (n, False) # (m, False) # zs)" "pp = base s + bytes us"
  defines "s' \<equiv> s\<lparr>mem := tagged (mem s) pp (k + n + m) False\<rparr>"
  shows "coalesce s (pp + k) = Inr (pp, s')" and "heap_lay s' (us @ (k + n + m, False) # zs)"
proof -
  let ?v = "tag (k + n + m) False"
  let ?m = "set_word (mem s) (pp - 4) ?v"
  have "heap_lay s (us @ [(k, False), (n, False), (m, False)] @ zs)" using assms(1) by simp
  from lay_tagged(1) [OF this assms(2)] show "heap_lay s' (us @ (k + n + m, False) # zs)" by (simp add: s'_def add.assoc)
  have "heap_lay s ((us @ [(k, False)]) @ (n, False) # (m, False) # zs)" "pp + k = base s + bytes (us @ [(k, False)])"
    using assms(1,2) by simp_all
  note c = here_reads [OF this]
  have "heap_lay s ((us @ [(k, False), (n, False)]) @ (m, False) # zs)" "pp + k + n = base s + bytes (us @ [(k, False), (n, False)])"
    using assms(1,2) by simp_all
  note d = block_reads [OF this]
  note b = block_words(4-7) [OF assms(1,2)] here_reads(5,6) [OF assms(1,2)]
  have heap: "in_heap s (pp + k + n + m - 8)" "in_heap s (pp - 4)" 
    unfolding in_heap_def using b c(5,6) by linarith+
  have o: "word_of ?m q = word_of (mem s) q" if "pp \<le> q" for q using that b by (intro word_of_other) linarith
  have "word_of (set_word ?m (pp + k + n + m - 8) ?v) (pp + k - 8) = word_of ?m (pp + k - 8)"
    using b c(6) by (intro word_of_other) linarith
  then have "word_of (tagged (mem s) pp (k + n + m) False) (pp + k - 8) = word_of (mem s) (pp + k - 8)"
    using o b by (simp add: tagged_def add.assoc)
  moreover have "PREV_BLKP s (pp + k) = Inr pp" using prev_reads [OF assms(1), of "pp + k"] assms(2) by simp
  ultimately have "PREV_BLKP s' (pp + k) = Inr pp" by (simp add: blkp_mem(1) s'_def)
  moreover have "NEXT_BLKP (s\<lparr>mem := ?m\<rparr>) (pp + k) = Inr (pp + k + n)" "FTRP (s\<lparr>mem := ?m\<rparr>) (pp + k + n) = Inr (pp + k + n + m - 8)"
    using o b here_reads(3) [OF assms(1,2)] d by (simp_all add: blkp_mem(2,3))
  moreover have "(k + m) mod 2 ^ 32 = k + m" using heap_layD(10) [OF assms(1)] by simp
  ultimately show "coalesce s (pp + k) = Inr (pp, s')"
    using coalesce_reads [OF assms(1,2)] heap d
    by (simp add: PACK_tag PUT_def HDRP_def WSIZE_def in_heap_def s'_def tagged_def next_alloc_def add.assoc
        add.left_commute [of n k])
qed

lemma join_free:
  "no_adj ys \<Longrightarrow> next_alloc ys \<Longrightarrow> join ((n, False) # ys) = (n, False) # ys"
  "no_adj ((m, False) # zs) \<Longrightarrow> join ((n, False) # (m, False) # zs) = (n + m, False) # zs"
  using join_id [of "(n, False) # ys"] join_id [of "(n + m, False) # zs"] by (auto simp: no_adj_Cons next_alloc_def)

lemma lay_outside:
  assumes "heap_lay (s\<lparr>mem := tagged (mem s) bp n a\<rparr>) (xs @ (n, a) # ys)" "bp = base s + bytes xs"
  shows "same_outside (mem s) (tagged (mem s) bp n a) bp n"
  using block_words(4,6) [OF assms(1)] heap_layD(10) [OF assms(1)] assms(2) by (intro tagged_outside) (simp_all add: base_def)

lemma coalesce_ok:
  assumes l: "heap_lay s (us @ (k, b) # (n, False) # ys)" and bp: "bp = base s + bytes us + k"
    and adj: "no_adj (us @ [(k, b)])" "no_adj ys"
  shows "\<exists>xs n' zs m'. join (us @ (k, b) # (n, False) # ys) = xs @ (n', False) # zs \<and>
    coalesce s bp = Inr (base s + bytes xs, s\<lparr>mem := m'\<rparr>) \<and> heap_lay (s\<lparr>mem := m'\<rparr>) (xs @ (n', False) # zs) \<and>
    same_outside (mem s) m' (base s + bytes xs) n' \<and> n \<le> n' \<and> (ys = [] \<longrightarrow> zs = []) \<and>
    (\<exists>ws. us @ [(k, b)] = xs @ ws)"
proof -
  define pp where "pp = base s + bytes us"
  have bp: "bp = pp + k" using bp pp_def by simp
  note J = join_prefix [OF adj(1), of "(n, False) # ys"]
  consider "b" "next_alloc ys" | m zs where "b" "ys = (m, False) # zs" | "\<not> b" "next_alloc ys"
    | m zs where "\<not> b" "ys = (m, False) # zs"
    unfolding next_alloc_def by (metis list.exhaust_sel prod.collapse)
  then show ?thesis
  proof cases
    case 1
    have "coalesce s bp = Inr (bp, s)" using coalesce_reads [OF l pp_def] 1 bp by simp
    then show ?thesis using 1 J join_free(1) [OF adj(2), of n] l bp
      by (intro exI [of _ "us @ [(k, b)]"] exI [of _ n] exI [of _ ys] exI [of _ "mem s"]) (simp add: same_outside_def pp_def)
  next
    case 2
    then have l': "heap_lay s (us @ (k, True) # (n, False) # (m, False) # zs)" using l by simp
    note c = coalesce_case2 [OF l' pp_def]
    have "heap_lay (s\<lparr>mem := tagged (mem s) bp (n + m) False\<rparr>) ((us @ [(k, True)]) @ (n + m, False) # zs)" using c(2) bp by simp
    from lay_outside [OF this] show ?thesis using 2 J join_free(2) [of m zs n] adj c bp
      by (intro exI [of _ "us @ [(k, True)]"] exI [of _ "n + m"] exI [of _ zs] exI [of _ "tagged (mem s) bp (n + m) False"])
        (simp add: pp_def add.assoc)
  next
    case 3
    then have l': "heap_lay s (us @ (k, False) # (n, False) # ys)" using l by simp
    note c = coalesce_case3 [OF l' pp_def 3(2)]
    from lay_outside [OF c(2) pp_def] show ?thesis using 3 J join_free(1) [OF adj(2), of "k + n"] c bp
      by (intro exI [of _ us] exI [of _ "k + n"] exI [of _ ys] exI [of _ "tagged (mem s) pp (k + n) False"]) (simp add: pp_def)
  next
    case 4
    then have l': "heap_lay s (us @ (k, False) # (n, False) # (m, False) # zs)" using l by simp
    note c = coalesce_case4 [OF l' pp_def]
    from lay_outside [OF c(2) pp_def] show ?thesis using 4 J join_free(2) [of m zs "k + n"] adj(2) c bp
      by (intro exI [of _ us] exI [of _ "k + n + m"] exI [of _ zs] exI [of _ "tagged (mem s) pp (k + n + m) False"]) (simp add: pp_def)
  qed
qed

section \<open>find_fit and place\<close>

lemma find_fit_loop_ok:
  "heap_lay s (xs @ ys) \<Longrightarrow> bp = base s + bytes xs \<Longrightarrow>
     find_fit_loop s a bp = Inr (case carve a ys of Some (q, _) \<Rightarrow> bp + q | None \<Rightarrow> 0)"
proof (induction ys arbitrary: xs bp)
  case Nil
  then show ?case using epilogue_reads(1) [of s xs bp] by (subst find_fit_loop.simps) simp
next
  case (Cons c ys)
  obtain n b where c: "c = (n, b)" by (cases c)
  have l: "heap_lay s (xs @ (n, b) # ys)" using Cons.prems(1) c by simp
  note r = block_reads [OF l Cons.prems(2)] block_words(4) [OF l Cons.prems(2)]
  have "find_fit_loop s a (bp + n) = Inr (case carve a ys of Some (q, _) \<Rightarrow> bp + n + q | None \<Rightarrow> 0)"
    using Cons.IH [of "xs @ [(n, b)]" "bp + n"] Cons.prems c by simp
  then show ?case using r c
    by (subst find_fit_loop.simps) (auto split: option.splits prod.splits)
qed

lemma size_sub_le: "b \<le> a \<Longrightarrow> a < 2 ^ 64 \<Longrightarrow> size_sub a b = a - b"
  by (simp add: size_sub_def nat_mod_distrib nat_diff_distrib)

text \<open>The writes of \<open>place\<close> when it splits.\<close>

lemma split_puts:
  assumes l: "heap_lay s (xs @ (n, False) # ys)" and bp: "bp = base s + bytes xs" and a: "a + 8 \<le> n" "8 dvd a" "8 \<le> a"
  shows "\<exists>m'. andthen (put_tags s bp (tag a True)) (\<lambda>s. andthen (NEXT_BLKP s bp) (\<lambda>bp. put_tags s bp (tag (n - a) False))) = Inr (s\<lparr>mem := m'\<rparr>) \<and>
    heap_lay (s\<lparr>mem := m'\<rparr>) (xs @ (a, True) # (n - a, False) # ys) \<and> same_outside (mem s) m' bp n"
proof -
  note w = block_words [OF l bp]
  have n: "n < 2 ^ 31" using heap_layD(10) [OF l] by simp
  let ?m = "tagged (mem s) bp a True"
  let ?m' = "tagged ?m (bp + a) (n - a) False"
  have h: "in_heap s (bp - 4)" "in_heap s (bp + a - 8)" "in_heap s (bp + a - 4)" "in_heap s (bp + a + (n - a) - 8)"
    unfolding in_heap_def using w(4-7) a by linarith+
  have p1: "put_tags s bp (tag a True) = Inr (s\<lparr>mem := ?m\<rparr>)"
    using h a n w(6) by (intro put_tags_ok) simp_all
  have "GET (s\<lparr>mem := ?m\<rparr>) (bp - 4) = Inr (tag a True)"
    using h tagged_words(1) [of a bp] a n w(6) by (simp add: GET_def in_heap_def)
  then have np: "NEXT_BLKP (s\<lparr>mem := ?m\<rparr>) bp = Inr (bp + a)"
    using tag_reads(1) [OF a(2)] by (simp add: NEXT_BLKP_def GET_SIZE_def WSIZE_def)
  have na: "8 dvd n - a" using w(3) a(2) by simp
  have p2: "put_tags (s\<lparr>mem := ?m\<rparr>) (bp + a) (tag (n - a) False) = Inr (s\<lparr>mem := ?m'\<rparr>)"
    using put_tags_ok [of "s\<lparr>mem := ?m\<rparr>" "bp + a" "n - a" False] h a n na w(6) by (simp add: in_heap_def)
  have "heap_lay (s\<lparr>mem := ?m'\<rparr>) (xs @ (a, True) # (n - a, False) # ys)"
    using lay_split [OF l bp, of a "n - a" True False] a by simp
  moreover have "?m' x = mem s x" if "x < bp - 4 \<or> bp + n - 4 \<le> x" for x
    using that a w(6) n by (subst tagged_words(3); auto)+
  ultimately show ?thesis using p1 p2 np unfolding same_outside_def by (intro exI [of _ ?m']) simp
qed

lemma place_ok:
  assumes l: "heap_lay s (xs @ (n, False) # ys)" and bp: "bp = base s + bytes xs" and a: "a \<le> n" "8 dvd a" "8 \<le> a"
  shows "\<exists>m'. place s bp a = Inr (s\<lparr>mem := m'\<rparr>) \<and> heap_lay (s\<lparr>mem := m'\<rparr>) (xs @ pieces a n @ ys) \<and> same_outside (mem s) m' bp n"
proof -
  note w = block_words [OF l bp] block_reads [OF l bp]
  have sub: "size_sub n a = n - a" using a(1) heap_layD(10) [OF l] by (intro size_sub_le) simp_all
  show ?thesis
  proof (cases "16 \<le> n - a")
    case False
    have l': "heap_lay s (xs @ [(n, False)] @ ys)" using l by simp
    note t = lay_tagged [OF l' bp, of n True]
    have "same_outside (mem s) (tagged (mem s) bp n True) bp n" using t(1) lay_outside bp by simp
    then show ?thesis using t False w sub
      by (intro exI [of _ "tagged (mem s) bp n True"]) (simp add: place_def DSIZE_def pieces_def PACK_Suc)
  next
    case True
    then have "a + 8 \<le> n" by simp
    from split_puts [OF l bp this a(2,3)] show ?thesis
      using w(8) sub a(2) True by (simp add: place_def DSIZE_def pieces_def PACK_Suc PACK_tag(2))
  qed
qed

section \<open>extend_heap\<close>

lemma lay_extend:
  assumes l: "heap_lay s bs" and sz: "8 dvd sz" "8 \<le> sz" "mem_brk s + sz \<le> mem_max_addr s"
  shows "heap_lay (s\<lparr>mem_brk := mem_brk s + sz, mem := set_word (tagged (mem s) (mem_brk s) sz False) (mem_brk s + sz - 4) (tag 0 True)\<rparr>)
    (bs @ [(sz, False)])"
proof -
  note L = heap_layD [OF l]
  let ?t = "tagged (mem s) (mem_brk s) sz False"
  let ?m = "set_word ?t (mem_brk s + sz - 4) (tag 0 True)"
  have b: "16 \<le> mem_brk s" "sz < 2 ^ 31" using L(1,4,6) sz(3) by (simp_all add: base_def)
  have "?m x = mem s x" if "x < mem_brk s - 4" for x
    using that b sz by (subst set_word_outside, linarith) (subst tagged_words(3); auto)
  then have "segs ?m (base s) bs" using L(1,4,7) segs_cong [OF L(3), of "base s" ?m "mem s"] by (simp add: base_def)
  moreover have "word_of ?m (mem_brk s - 4) = tag sz False" "word_of ?m (mem_brk s + sz - 8) = tag sz False"
    using b sz tagged_words(1,2) [of sz "mem_brk s" "mem s" False] by (subst word_of_other; linarith | simp)+
  moreover have "word_of ?m (mem_brk s + sz - 4) = tag 0 True" by (simp add: word_of_same tag_def)
  ultimately show ?thesis
    using L sz l unfolding heap_lay_def by (simp add: segs_append base_def add.assoc)
qed

lemma extend_heap_steps:
  assumes l: "heap_lay s bs" and sz: "8 dvd sz" "8 \<le> sz" "sz < 2 ^ 31" "mem_brk s + sz \<le> mem_max_addr s"
  shows "extend_heap s (sz div 4) =
    coalesce (s\<lparr>mem_brk := mem_brk s + sz, mem := set_word (tagged (mem s) (mem_brk s) sz False) (mem_brk s + sz - 4) (tag 0 True)\<rparr>) (mem_brk s)"
proof -
  note L = heap_layD [OF l]
  let ?s = "s\<lparr>mem_brk := mem_brk s + sz\<rparr>"
  let ?t = "tagged (mem s) (mem_brk s) sz False"
  have b: "16 \<le> mem_brk s" "mem_brk s \<noteq> BAD" "mem_heap s + 8 \<le> mem_brk s" using L(1,4,5,9) by (simp_all add: base_def BAD_def)
  have even: "sz div 4 mod 2 = 0" "sz div 4 * 4 = sz" "sz mod 2 ^ 64 = sz" using sz(1,3) by (auto elim!: dvdE)
  have br: "mem_sbrk s sz = (mem_brk s, ?s)"
    using sz(3,4) by (simp add: mem_sbrk_def to_int32_id nat_int_add)
  have h: "in_heap ?s (mem_brk s - 4)" "in_heap ?s (mem_brk s + sz - 8)" "in_heap ?s (mem_brk s + sz - 4)"
    using b sz(2) by (auto simp: in_heap_def)
  have p: "put_tags ?s (mem_brk s) (tag sz False) = Inr (?s\<lparr>mem := ?t\<rparr>)"
    using put_tags_ok [of ?s "mem_brk s" sz False] h sz b by simp
  have "GET (?s\<lparr>mem := ?t\<rparr>) (mem_brk s - 4) = Inr (tag sz False)"
    using h tagged_words(1) [of sz "mem_brk s"] sz b by (simp add: GET_def in_heap_def)
  then have np: "NEXT_BLKP (?s\<lparr>mem := ?t\<rparr>) (mem_brk s) = Inr (mem_brk s + sz)"
    using tag_reads(1) [OF sz(1)] by (simp add: NEXT_BLKP_def GET_SIZE_def WSIZE_def)
  show ?thesis
    using h br even b p np PACK_Suc [of 0] by (simp add: extend_heap_def Let_def WSIZE_def PACK_tag(2) PUT_def HDRP_def in_heap_def)
qed

lemma extend_heap_full:
  assumes "8 dvd sz" "8 \<le> sz" "sz < 2 ^ 32" "mem_max_addr s < mem_brk s + sz \<or> 2 ^ 31 \<le> sz"
  shows "extend_heap s (sz div 4) = Inr (0, s)"
proof -
  have even: "sz div 4 mod 2 = 0" "sz div 4 * 4 = sz" "sz mod 2 ^ 64 = sz" using assms(1,3) by (auto elim!: dvdE)
  have "to_int32 (int sz) < 0 \<or> int (mem_brk s) + to_int32 (int sz) > int (mem_max_addr s)"
  proof (cases "sz < 2 ^ 31")
    case True
    then show ?thesis using assms(4) to_int32_id [of "int sz"] by auto
  next
    case False
    have "(int sz + 2 ^ 31) mod 2 ^ 32 = (int sz - 2 ^ 31) mod 2 ^ 32"
      using mod_add_self2 [of "int sz - 2 ^ 31" "2 ^ 32"] by (simp add: add.commute)
    also have "\<dots> = int sz - 2 ^ 31" using False assms(3) by (intro mod_pos_pos_trivial) auto
    finally show ?thesis using assms(3) by (simp add: to_int32_def)
  qed
  then have "mem_sbrk s sz = (BAD, s)" by (simp add: mem_sbrk_def)
  then show ?thesis using even by (simp add: extend_heap_def Let_def WSIZE_def)
qed

lemma extend_heap_ok:
  assumes l: "heap_lay s bs" "no_adj bs" and sz: "8 dvd sz" "8 \<le> sz" "mem_brk s + sz \<le> mem_max_addr s"
  shows "\<exists>xs ws n' m'. join (bs @ [(sz, False)]) = xs @ [(n', False)] \<and> sz \<le> n' \<and> bs = xs @ ws \<and>
    extend_heap s (sz div 4) = Inr (base s + bytes xs, s\<lparr>mem_brk := mem_brk s + sz, mem := m'\<rparr>) \<and>
    heap_lay (s\<lparr>mem_brk := mem_brk s + sz, mem := m'\<rparr>) (xs @ [(n', False)]) \<and> (\<forall>x < base s + bytes xs - 4. m' x = mem s x)"
proof -
  note L = heap_layD [OF l(1)]
  have lt: "sz < 2 ^ 31" using L(4,6) sz(3) by (simp add: base_def)
  have "bs \<noteq> []" using l(1) by (simp add: heap_lay_def)
  then obtain us k b where bs: "bs = us @ [(k, b)]" by (metis rev_exhaust surj_pair)
  let ?m = "set_word (tagged (mem s) (mem_brk s) sz False) (mem_brk s + sz - 4) (tag 0 True)"
  let ?s = "s\<lparr>mem_brk := mem_brk s + sz, mem := ?m\<rparr>"
  have l1: "heap_lay ?s (us @ (k, b) # (sz, False) # [])" using lay_extend [OF l(1) sz] bs by simp
  have bp: "mem_brk s = base ?s + bytes us + k" and adj: "no_adj (us @ [(k, b)])" using L(4) l(2) bs by simp_all
  obtain xs n' zs m' ws where c: "join (us @ (k, b) # (sz, False) # []) = xs @ (n', False) # zs" "us @ [(k, b)] = xs @ ws" "sz \<le> n'"
      "coalesce ?s (mem_brk s) = Inr (base ?s + bytes xs, ?s\<lparr>mem := m'\<rparr>)" "heap_lay (?s\<lparr>mem := m'\<rparr>) (xs @ (n', False) # zs)"
      "same_outside (mem ?s) m' (base ?s + bytes xs) n'" "zs = []"
    using coalesce_ok [OF l1 bp adj] by auto
  have le: "base s + bytes xs \<le> mem_brk s" using L(4) arg_cong [OF c(2), of bytes] bs by simp
  have "m' x = mem s x" if "x < base s + bytes xs - 4" for x
  proof -
    have "m' x = ?m x" using c(6) that by (simp add: same_outside_def)
    also have "\<dots> = tagged (mem s) (mem_brk s) sz False x" using that le sz(2) by (intro set_word_outside) linarith
    also have "\<dots> = mem s x" using that le sz(2) lt L(1,4) by (intro tagged_words(3)) (auto simp: base_def)
    finally show ?thesis .
  qed
  moreover have "extend_heap s (sz div 4) = Inr (base s + bytes xs, s\<lparr>mem_brk := mem_brk s + sz, mem := m'\<rparr>)"
    using extend_heap_steps [OF l(1) sz(1,2) lt sz(3)] c(4) by simp
  moreover have "heap_lay (s\<lparr>mem_brk := mem_brk s + sz, mem := m'\<rparr>) (xs @ [(n', False)])" using c(5,7) by simp
  moreover have "join (bs @ [(sz, False)]) = xs @ [(n', False)]" unfolding bs using c(1,7) by simp
  moreover have "bs = xs @ ws" using bs c(2) by simp
  ultimately show ?thesis using c(3) by blast
qed

end
