(* ===== verification/Mm_Calls.thy ===== *)
theory Mm_Calls
  imports Mm_Ops
begin

text \<open>
  The calls of the allocator refine the operations on rows: the invariant \<open>heap_inv\<close>, \<open>mm_init\<close> that
  sets it up, and \<open>mm_malloc\<close>, \<open>mm_free\<close> and \<open>mm_realloc\<close> that keep it and leave the payload of every
  allocated block alone.
\<close>

section \<open>Definitions\<close>

definition heap_inv :: "mm \<Rightarrow> block list \<Rightarrow> bool" where
  "heap_inv s bs \<longleftrightarrow> heap_lay s bs \<and> row_ok bs \<and> heap_listp s = base s"

text \<open>The bytes of the allocated blocks between header and footer.\<close>

definition payload_kept :: "nat \<Rightarrow> block list \<Rightarrow> (nat \<Rightarrow> nat) \<Rightarrow> (nat \<Rightarrow> nat) \<Rightarrow> bool" where
  "payload_kept p bs m m' \<longleftrightarrow> (\<forall>(q, n)\<in>set (in_use p bs). \<forall>x. q \<le> x \<longrightarrow> x + 8 < q + n \<longrightarrow> m' x = m x)"

section \<open>Payloads\<close>

lemma kept_Nil [simp]: "payload_kept p [] m m'"
  by (simp add: payload_kept_def)

lemma kept_append [simp]: "payload_kept p (xs @ ys) m m' \<longleftrightarrow> payload_kept p xs m m' \<and> payload_kept (p + bytes xs) ys m m'"
  by (auto simp: payload_kept_def)

lemma kept_free [simp]: "payload_kept p ((n, False) # ys) m m' \<longleftrightarrow> payload_kept (p + n) ys m m'"
  by (simp add: payload_kept_def)

lemma kept_below: "\<forall>x < p + bytes xs - 4. m' x = m x \<Longrightarrow> payload_kept p xs m m'"
  unfolding payload_kept_def using in_use_bounds by fastforce

lemma kept_around:
  assumes "same_outside m m' (p + bytes xs) n" "8 \<le> n"
  shows "payload_kept p xs m m'" "payload_kept (p + bytes xs + n) ys m m'"
proof -
  show "payload_kept p xs m m'" using assms(1) by (intro kept_below) (simp add: same_outside_def)
  show "payload_kept (p + bytes xs + n) ys m m'" unfolding payload_kept_def
    using in_use_bounds assms by (fastforce simp: same_outside_def)
qed

lemma kept_live: "in_use p bs = in_use p cs \<Longrightarrow> payload_kept p bs m m' = payload_kept p cs m m'"
  by (simp add: payload_kept_def)

lemma kept_trans: "payload_kept p bs m m' \<Longrightarrow> payload_kept p cs m' m'' \<Longrightarrow> set (in_use p bs) \<subseteq> set (in_use p cs) \<Longrightarrow> payload_kept p bs m m''"
  unfolding payload_kept_def by fastforce

section \<open>mm_malloc\<close>

lemma adjust_max: "0 < sz \<Longrightarrow> sz \<le> 2 ^ 32 - 16 \<Longrightarrow> adjust sz = max 16 (8 * ((sz + 15) div 8))"
  by (auto simp: adjust_def DSIZE_def max_def)

lemma no_init: "heap_inv s bs \<Longrightarrow> init_once s = Inr s"
  by (simp add: heap_inv_def init_once_def base_def)

lemma place_row:
  assumes i: "heap_lay s (xs @ (n, False) # ys)" "row_ok (xs @ pieces a n @ ys)" "heap_listp s = base s" and a: "a \<le> n" "8 dvd a" "8 \<le> a"
  shows "\<exists>m'. place s (base s + bytes xs) a = Inr (s\<lparr>mem := m'\<rparr>) \<and> heap_inv (s\<lparr>mem := m'\<rparr>) (xs @ pieces a n @ ys) \<and>
    payload_kept (base s) (xs @ (n, False) # ys) (mem s) m'"
proof -
  obtain m' where m: "place s (base s + bytes xs) a = Inr (s\<lparr>mem := m'\<rparr>)" "heap_lay (s\<lparr>mem := m'\<rparr>) (xs @ pieces a n @ ys)"
      "same_outside (mem s) m' (base s + bytes xs) n" using place_ok [OF i(1) refl a] by blast
  have "8 \<le> n" using a by simp
  then show ?thesis using m kept_around [OF m(3)] i by (auto simp: heap_inv_def)
qed

lemma malloc_fit:
  assumes "heap_inv s bs" "0 < sz" "adjust sz = a" "carve a bs = Some (q, bs')" "16 \<le> a" "8 dvd a"
  shows "\<exists>m'. mm_malloc s sz = Inr (base s + q, s\<lparr>mem := m'\<rparr>) \<and> heap_inv (s\<lparr>mem := m'\<rparr>) bs' \<and> payload_kept (base s) bs (mem s) m'"
proof -
  obtain xs n ys where s: "bs = xs @ (n, False) # ys" "a \<le> n" "q = bytes xs" "bs' = xs @ pieces a n @ ys"
    using carve_Some [OF assms(4)] by blast
  have i: "heap_lay s bs" "row_ok bs" "heap_listp s = base s" using assms(1) by (simp_all add: heap_inv_def)
  have "find_fit s a = Inr (base s + q)"
    using find_fit_loop_ok [of s "[]" bs "base s" a] i assms(4) by (simp add: find_fit_def)
  moreover have "base s \<noteq> 0" by (simp add: base_def)
  moreover have "row_ok bs'" using carve_row_ok [OF i(2) assms(5,6,4)] by blast
  then obtain m' where m': "place s (base s + q) a = Inr (s\<lparr>mem := m'\<rparr>)" "heap_inv (s\<lparr>mem := m'\<rparr>) bs'" "payload_kept (base s) bs (mem s) m'"
    using place_row [of s xs n ys a] i s assms(5,6) by auto
  ultimately have "mm_malloc s sz = Inr (base s + q, s\<lparr>mem := m'\<rparr>)"
    using no_init [OF assms(1)] assms(2,3) by (simp add: mm_malloc_def Let_def)
  with m' show ?thesis by blast
qed

lemma malloc_grow:
  assumes "heap_inv s bs" "0 < sz" "adjust sz = a" "carve a bs = None" "16 \<le> a" "8 dvd a" "a < 2 ^ 32"
  shows "mm_malloc s sz =
    andthen (extend_heap s (max a 4096 div 4)) (\<lambda>(bp, s). if bp = 0 then Inr (0, s) else andthen (place s bp a) (\<lambda>s. Inr (bp, s)))"
proof -
  have i: "heap_lay s bs" "heap_listp s = base s" using assms(1) by (simp_all add: heap_inv_def)
  have "find_fit s a = Inr 0"
    using find_fit_loop_ok [of s "[]" bs "base s" a] i assms(4) by (simp add: find_fit_def)
  then show ?thesis using no_init [OF assms(1)] assms(2,3) by (simp add: mm_malloc_def Let_def CHUNKSIZE_def WSIZE_def)
qed

lemma malloc_extend:
  assumes "heap_inv s bs" "0 < sz" "adjust sz = a" "carve a bs = None" "16 \<le> a" "8 dvd a" "mem_brk s + max a 4096 \<le> mem_max_addr s"
  shows "\<exists>q bs' m'. carve a (join (bs @ [(max a 4096, False)])) = Some (q, bs') \<and>
    mm_malloc s sz = Inr (base s + q, s\<lparr>mem_brk := mem_brk s + max a 4096, mem := m'\<rparr>) \<and>
    heap_inv (s\<lparr>mem_brk := mem_brk s + max a 4096, mem := m'\<rparr>) bs' \<and> payload_kept (base s) bs (mem s) m'"
proof -
  let ?e = "max a 4096"
  let ?s = "\<lambda>m. s\<lparr>mem_brk := mem_brk s + ?e, mem := m\<rparr>"
  have i: "heap_lay s bs" "row_ok bs" "heap_listp s = base s" using assms(1) by (simp_all add: heap_inv_def)
  have e: "8 dvd ?e" "8 \<le> ?e" "?e < 2 ^ 31" using assms(6,7) heap_layD(4,6) [OF i(1)] by (simp_all add: base_def max_def)
  obtain xs ws n m where x: "join (bs @ [(?e, False)]) = xs @ [(n, False)]" "?e \<le> n" "bs = xs @ ws"
      "extend_heap s (?e div 4) = Inr (base s + bytes xs, ?s m)" "heap_lay (?s m) (xs @ [(n, False)])" "\<forall>x < base s + bytes xs - 4. m x = mem s x"
    using extend_heap_ok [OF i(1) row_ok_no_adj [OF i(2)] e(1,2) assms(7)] by blast
  have "list_all (\<lambda>(n, b). b \<or> n < a) xs" using assms(4) x(3) by (simp add: carve_None)
  then have c: "carve a (join (bs @ [(?e, False)])) = Some (bytes xs, xs @ pieces a n)" using x(1,2) by (simp add: carve_append)
  obtain cs where "bs = (8, True) # cs" "list_all (\<lambda>c. 8 dvd fst c \<and> 16 \<le> fst c) cs" using i(2) by (auto simp: row_ok_cons)
  then have "row_ok (join (bs @ [(?e, False)]))" using row_ok_join [of "cs @ [(?e, False)]"] e by simp
  from carve_row_ok [OF this assms(5,6) c] have ok: "row_ok (xs @ pieces a n)" by blast
  obtain m' where m': "place (?s m) (base (?s m) + bytes xs) a = Inr ((?s m)\<lparr>mem := m'\<rparr>)" "heap_inv ((?s m)\<lparr>mem := m'\<rparr>) (xs @ pieces a n)"
      "payload_kept (base (?s m)) (xs @ [(n, False)]) (mem (?s m)) m'"
    using place_row [of "?s m" xs n "[]" a] x(2,5) ok i(3) assms(5,6) by auto
  have "in_use (base s) bs = in_use (base s) (xs @ [(n, False)])" using join_live [of "base s" "bs @ [(?e, False)]"] x(1) by simp
  moreover have "payload_kept (base s) (xs @ [(n, False)]) (mem s) m" using kept_below [OF x(6)] by simp
  then have "payload_kept (base s) (xs @ [(n, False)]) (mem s) m'" using m'(3) by (auto intro: kept_trans)
  ultimately have "payload_kept (base s) bs (mem s) m'" using kept_live by blast
  moreover have "mm_malloc s sz = Inr (base s + bytes xs, ?s m')"
    using malloc_grow [OF assms(1-6)] e(3) x(4) m'(1) by (simp add: base_def)
  ultimately show ?thesis using c m'(2) by auto
qed

lemma malloc_row:
  assumes "heap_inv s bs" "0 < sz" "sz \<le> 2 ^ 32 - 16"
  shows "case row_malloc (mem_max_addr s - mem_brk s) sz bs of
      None \<Rightarrow> mm_malloc s sz = Inr (0, s)
    | Some (q, bs') \<Rightarrow> \<exists>s'. mm_malloc s sz = Inr (base s + q, s') \<and> heap_inv s' bs' \<and> base s' = base s \<and>
        mem_max_addr s' = mem_max_addr s \<and> payload_kept (base s) bs (mem s) (mem s')"
proof -
  define a where "a = max 16 (8 * ((sz + 15) div 8))"
  have a: "16 \<le> a" "8 dvd a" "a < 2 ^ 32" "adjust sz = a"
    using adjust_max [OF assms(2,3)] assms(3) by (auto simp: a_def max_def)
  have l: "heap_lay s bs" using assms(1) by (simp add: heap_inv_def)
  have row: "row_malloc (mem_max_addr s - mem_brk s) sz bs = (case carve a bs of Some r \<Rightarrow> Some r
      | None \<Rightarrow> if max a 4096 \<le> mem_max_addr s - mem_brk s then carve a (join (bs @ [(max a 4096, False)])) else None)"
    unfolding row_malloc_def a_def Let_def by (rule refl)
  show ?thesis
  proof (cases "carve a bs")
    case (Some r)
    obtain q bs' where r: "r = (q, bs')" by (cases r)
    obtain m' where m': "mm_malloc s sz = Inr (base s + q, s\<lparr>mem := m'\<rparr>)" "heap_inv (s\<lparr>mem := m'\<rparr>) bs'" "payload_kept (base s) bs (mem s) m'"
      using malloc_fit [OF assms(1,2) a(4)] Some r a(1,2) by blast
    then show ?thesis unfolding row using Some r by (auto intro!: exI [of _ "s\<lparr>mem := m'\<rparr>"])
  next
    case None
    show ?thesis
    proof (cases "max a 4096 \<le> mem_max_addr s - mem_brk s")
      case True
      then have "mem_brk s + max a 4096 \<le> mem_max_addr s" using heap_layD(5) [OF l] by (simp only: le_diff_conv2 add.commute)
      from malloc_extend [OF assms(1,2) a(4) None a(1,2) this]
      obtain q bs' m' where "carve a (join (bs @ [(max a 4096, False)])) = Some (q, bs')"
        "mm_malloc s sz = Inr (base s + q, s\<lparr>mem_brk := mem_brk s + max a 4096, mem := m'\<rparr>)"
        "heap_inv (s\<lparr>mem_brk := mem_brk s + max a 4096, mem := m'\<rparr>) bs'" "payload_kept (base s) bs (mem s) m'" by blast
      then show ?thesis unfolding row using None True
        by (auto intro!: exI [of _ "s\<lparr>mem_brk := mem_brk s + max a 4096, mem := m'\<rparr>"])
    next
      case False
      have "extend_heap s (max a 4096 div 4) = Inr (0, s)"
        using a(1-3) False by (intro extend_heap_full) (auto simp: max_def)
      then show ?thesis unfolding row using None False malloc_grow [OF assms(1,2) a(4) None a(1-3)] by auto
    qed
  qed
qed

section \<open>mm_free\<close>

lemma in_use_block:
  assumes "heap_inv s bs" "(p, n) \<in> set (in_use (base s) bs)"
  shows "\<exists>xs ys. bs = xs @ (n, True) # ys \<and> p = base s + bytes xs \<and> heap_lay s (xs @ (n, True) # ys)"
  using in_use_split [OF assms(2)] assms(1) unfolding heap_inv_def by blast

lemma free_row:
  assumes "heap_inv s bs" "(p, n) \<in> set (in_use (base s) bs)" "p \<noteq> base s"
  shows "\<exists>m'. mm_free s p = Inr (s\<lparr>mem := m'\<rparr>) \<and> heap_inv (s\<lparr>mem := m'\<rparr>) (row_free (p - base s) bs) \<and>
    payload_kept (base s) (row_free (p - base s) bs) (mem s) m'"
proof -
  obtain xs ys where s: "bs = xs @ (n, True) # ys" "p = base s + bytes xs" "heap_lay s (xs @ (n, True) # ys)"
    using in_use_block [OF assms(1,2)] by blast
  have i: "row_ok bs" "heap_listp s = base s" using assms(1) by (simp_all add: heap_inv_def)
  have l1: "heap_lay s (xs @ [(n, True)] @ ys)" using s(3) by simp
  let ?t = "tagged (mem s) p n False"
  have t: "heap_lay (s\<lparr>mem := ?t\<rparr>) (xs @ (n, False) # ys)" "put_tags s p (tag n False) = Inr (s\<lparr>mem := ?t\<rparr>)"
    using lay_tagged [OF l1 s(2), of n False] by simp_all
  have "xs \<noteq> []" using assms(3) s(2) by auto
  then obtain us k b where xs: "xs = us @ [(k, b)]" by (metis rev_exhaust surj_pair)
  have adj: "no_adj (us @ [(k, b)])" "no_adj ys" using row_ok_no_adj [OF i(1)] s(1) xs by (auto simp: no_adj_append no_adj_Cons)
  have l2: "heap_lay (s\<lparr>mem := ?t\<rparr>) (us @ (k, b) # (n, False) # ys)" and p: "p = base (s\<lparr>mem := ?t\<rparr>) + bytes us + k"
    using t(1) xs s(2) by simp_all
  obtain vs n' zs m' where c: "join (us @ (k, b) # (n, False) # ys) = vs @ (n', False) # zs"
      "coalesce (s\<lparr>mem := ?t\<rparr>) p = Inr (base s + bytes vs, s\<lparr>mem := m'\<rparr>)" "heap_lay (s\<lparr>mem := m'\<rparr>) (vs @ (n', False) # zs)"
      "same_outside ?t m' (base s + bytes vs) n'"
    using coalesce_ok [OF l2 p adj] by auto
  have row: "row_free (p - base s) bs = vs @ (n', False) # zs"
    using release_at [of xs n True ys] row_ok_sizes [OF i(1)] s(1,2) xs c(1) by (simp add: row_free_def)
  have n: "8 \<le> n" "8 \<le> n'" using block_words(4) [OF s(3,2)] block_words(4) [OF c(3) refl] by simp_all
  have "payload_kept (base s) (xs @ (n, False) # ys) (mem s) ?t"
    using kept_around [OF _ n(1)] lay_outside [OF t(1) s(2)] s(2) by simp
  then have k1: "payload_kept (base s) (row_free (p - base s) bs) (mem s) ?t"
    unfolding row c(1) [symmetric] using kept_live [OF join_live] xs by simp
  have k2: "payload_kept (base s) (row_free (p - base s) bs) ?t m'"
    unfolding row using kept_around [OF c(4) n(2)] by simp
  have "(base s + (p - base s), n) \<in> set (in_use (base s) bs)" "p - base s \<noteq> 0" using assms(2,3) s(2) by simp_all
  from row_free_row_ok [OF i(1) this] have "heap_inv (s\<lparr>mem := m'\<rparr>) (row_free (p - base s) bs)"
    using c(3) i(2) row by (simp add: heap_inv_def)
  moreover have "mm_free s p = Inr (s\<lparr>mem := m'\<rparr>)"
    using block_reads(1) [OF s(3,2)] block_words(6) [OF s(3,2)] no_init [OF assms(1)] t(2) c(2)
    by (simp add: mm_free_def PACK_tag(2))
  ultimately show ?thesis using kept_trans [OF k1 k2] by blast
qed

section \<open>Stores by the caller\<close>

lemma store_inv:
  assumes "heap_inv s bs" "(p, n) \<in> set (in_use (base s) bs)" "\<And>x. x < p \<or> p + n \<le> x + 8 \<Longrightarrow> m' x = mem s x"
  shows "heap_inv (s\<lparr>mem := m'\<rparr>) bs"
proof -
  obtain xs ys where s: "bs = xs @ (n, True) # ys" "p = base s + bytes xs" "heap_lay s (xs @ (n, True) # ys)"
    using in_use_block [OF assms(1,2)] by blast
  note w = block_words [OF s(3,2)]
  have "segs (mem s) p [(n, True)]" using heap_layD(7) [OF s(3)] s(2) by (simp add: segs_append)
  moreover have "word_of m' (p - 4) = word_of (mem s) (p - 4)" "word_of m' (p + n - 8) = word_of (mem s) (p + n - 8)"
    using w(4,6) by (intro word_of_cong assms(3); linarith)+
  ultimately have "segs m' p [(n, True)]" by simp
  then have "heap_lay (s\<lparr>mem := m'\<rparr>) (xs @ [(n, True)] @ ys)"
    using relay [of s xs "[(n, True)]" ys p m' "[(n, True)]"] s w(3,4,6) assms(3) by fastforce
  then show ?thesis using assms(1) s(1) by (simp add: heap_inv_def)
qed

lemma store_kept:
  assumes "heap_inv s bs" "(p, n) \<in> set (in_use (base s) bs)" "\<And>x. x < p \<or> p + n \<le> x + 8 \<Longrightarrow> m' x = mem s x"
    "(q, k) \<in> set (in_use (base s) bs)" "(q, k) \<noteq> (p, n)" "q \<le> x" "x + 8 < q + k"
  shows "m' x = mem s x"
proof -
  have "sizes_ok bs" using assms(1) row_ok_sizes by (simp add: heap_inv_def)
  from in_use_disjoint [OF assms(4,2,5) this] show ?thesis using assms(3,6,7) by fastforce
qed

section \<open>mm_init\<close>

lemma init_words:
  "word_of (set_word (set_word (set_word (set_word m p 0) (p + 4) 9) (p + 8) 9) (p + 12) 1) (p + 4) = 9"
  "word_of (set_word (set_word (set_word (set_word m p 0) (p + 4) 9) (p + 8) 9) (p + 12) 1) (p + 8) = 9"
  "word_of (set_word (set_word (set_word (set_word m p 0) (p + 4) 9) (p + 8) 9) (p + 12) 1) (p + 12) = 1"
  by (simp_all add: word_of_same word_of_other)

lemma init_ok:
  assumes "8 \<le> p" "8 dvd p" "4112 \<le> k" "k < 2 ^ 31" "p + k < 2 ^ 63"
  shows "\<exists>s'. mm_init (mem_init s p k) = Inr (0, s') \<and> heap_inv s' [(8, True), (4096, False)] \<and> base s' = p + 8 \<and> mem_max_addr s' = p + k"
proof -
  let ?m = "set_word (set_word (set_word (set_word (mem s) p 0) (p + 4) 9) (p + 8) 9) (p + 12) 1"
  let ?s = "(mem_init s p k)\<lparr>mem_brk := p + 16, mem := ?m, heap_listp := p + 8\<rparr>"
  have l: "heap_lay ?s [(8, True)]"
    using assms init_words [of "mem s" p] by (simp add: heap_lay_def base_def mem_init_def tag_def add.commute [of _ p])
  obtain xs ws n' m' where e: "join ([(8, True)] @ [(4096, False)]) = xs @ [(n', False)]"
      "extend_heap ?s 1024 = Inr (base ?s + bytes xs, ?s\<lparr>mem_brk := mem_brk ?s + 4096, mem := m'\<rparr>)"
      "heap_lay (?s\<lparr>mem_brk := mem_brk ?s + 4096, mem := m'\<rparr>) (xs @ [(n', False)])"
    using extend_heap_ok [OF l, of 4096] assms by (auto simp: mem_init_def)
  have br: "mem_sbrk (mem_init s p k) 16 = (p, (mem_init s p k)\<lparr>mem_brk := p + 16\<rparr>)"
    using assms by (simp add: mem_sbrk_def to_int32_id mem_init_def)
  have xs: "xs = [(8, True)]" "n' = 4096" using e(1) by (auto simp: Cons_eq_append_conv)
  have "p \<noteq> BAD" using assms(5) by (simp add: BAD_def)
  then have "mm_init (mem_init s p k) = Inr (0, ?s\<lparr>mem_brk := mem_brk ?s + 4096, mem := m'\<rparr>)"
    using br e(2) xs PACK_Suc [of 8] PACK_Suc [of 0]
    by (simp add: mm_init_def WSIZE_def DSIZE_def CHUNKSIZE_def Let_def PUT_def in_heap_def mem_init_def tag_def base_def)
  then show ?thesis using e(3) xs by (auto simp: heap_inv_def base_def mem_init_def)
qed

end
