(* ===== verification/Mm_Props.thy ===== *)
theory Mm_Props
  imports Mm_Calls
begin

text \<open>
  The properties of the allocator.  \<open>row\<close> reads the row of blocks back from memory, so that the
  calls are related to the operations on rows by \<open>row (call s) = operation (row s)\<close>; \<open>blocks\<close> are the
  blocks in the hands of the caller.  The locale \<open>allocator\<close> is the interface a caller relies on; it
  is interpreted by \<open>mm_malloc\<close> and \<open>mm_free\<close>.
\<close>

section \<open>Definitions\<close>

fun walk :: "nat \<Rightarrow> mm \<Rightarrow> nat \<Rightarrow> block list" where
  "walk 0 s bp = []"
| "walk (Suc f) s bp =
     (case GET_SIZE s (HDRP bp) of
        Inl _ \<Rightarrow> []
      | Inr n \<Rightarrow> if n = 0 then [] else (n, GET_ALLOC s (HDRP bp) = Inr 1) # walk f s (bp + n))"

text \<open>No row has more blocks than the heap has bytes.\<close>

definition row :: "mm \<Rightarrow> block list" where
  "row s = walk (mem_brk s) s (base s)"

definition heap_ok :: "mm \<Rightarrow> bool" where
  "heap_ok s \<longleftrightarrow> heap_inv s (row s)"

definition blocks :: "mm \<Rightarrow> (nat \<times> nat) list" where
  "blocks s = in_use (base s + 8) (tl (row s))"

text \<open>Calls as a program makes them; a pointer that is freed comes from the allocator.\<close>

datatype call = Malloc nat | Free nat

fun run :: "('s \<Rightarrow> nat \<Rightarrow> 'e + nat \<times> 's) \<Rightarrow> ('s \<Rightarrow> nat \<Rightarrow> 'e + 's) \<Rightarrow> 's \<Rightarrow> call list \<Rightarrow> 'e + 's" where
  "run malloc free s [] = Inr s"
| "run malloc free s (Malloc n # cs) = andthen (malloc s n) (\<lambda>(p, s). run malloc free s cs)"
| "run malloc free s (Free p # cs) = andthen (free s p) (\<lambda>s. run malloc free s cs)"

fun legal :: "('s \<Rightarrow> nat \<Rightarrow> 'e + nat \<times> 's) \<Rightarrow> ('s \<Rightarrow> nat \<Rightarrow> 'e + 's) \<Rightarrow> ('s \<Rightarrow> (nat \<times> nat) list) \<Rightarrow> nat \<Rightarrow> 's \<Rightarrow> call list \<Rightarrow> bool" where
  "legal malloc free held lim s [] \<longleftrightarrow> True"
| "legal malloc free held lim s (Malloc n # cs) \<longleftrightarrow>
     n \<le> lim \<and> (case malloc s n of Inr (p, s) \<Rightarrow> legal malloc free held lim s cs | Inl _ \<Rightarrow> True)"
| "legal malloc free held lim s (Free p # cs) \<longleftrightarrow>
     (p = 0 \<or> p \<in> fst ` set (held s)) \<and> (case free s p of Inr s \<Rightarrow> legal malloc free held lim s cs | Inl _ \<Rightarrow> True)"

text \<open>The heaps a program can bring about: it starts with \<open>mem_init\<close> and \<open>mm_init\<close>, calls the allocator
  with sizes that its 32-bit tags can hold (a request of \<open>2 ^ 32\<close> bytes breaks the heap, see
  \<open>mm_malloc_too_small\<close>) and writes to the blocks it holds.\<close>

inductive reach :: "mm \<Rightarrow> bool" where
  start: "8 \<le> p \<Longrightarrow> 8 dvd p \<Longrightarrow> 4112 \<le> k \<Longrightarrow> k < 2 ^ 31 \<Longrightarrow> p + k < 2 ^ 63 \<Longrightarrow> mm_init (mem_init s p k) = Inr (r, s') \<Longrightarrow> reach s'"
| malloc: "reach s \<Longrightarrow> n \<le> 2 ^ 32 - 16 \<Longrightarrow> mm_malloc s n = Inr (p, s') \<Longrightarrow> reach s'"
| free: "reach s \<Longrightarrow> p = 0 \<or> p \<in> fst ` set (blocks s) \<Longrightarrow> mm_free s p = Inr s' \<Longrightarrow> reach s'"
| realloc: "reach s \<Longrightarrow> p = 0 \<or> p \<in> fst ` set (blocks s) \<Longrightarrow> n \<le> 2 ^ 32 - 16 \<Longrightarrow> mm_realloc s p n = Inr (q, s') \<Longrightarrow> reach s'"
| store: "reach s \<Longrightarrow> (p, n) \<in> set (blocks s) \<Longrightarrow> i + 8 < n \<Longrightarrow> reach (s\<lparr>mem := (mem s)(p + i := v)\<rparr>)"

section \<open>Reading the row back\<close>

lemma walk_lay: "heap_lay s (xs @ ys) \<Longrightarrow> length ys < f \<Longrightarrow> walk f s (base s + bytes xs) = ys"
proof (induction ys arbitrary: xs f)
  case Nil
  then obtain g where "f = Suc g" by (cases f) auto
  then show ?case using epilogue_reads(1) [of s xs] Nil.prems by simp
next
  case (Cons c ys)
  obtain n b where c: "c = (n, b)" by (cases c)
  obtain g where f: "f = Suc g" "length ys < g" using Cons.prems(2) by (cases f) auto
  have l: "heap_lay s (xs @ (n, b) # ys)" using Cons.prems(1) c by simp
  have "walk g s (base s + bytes (xs @ [(n, b)])) = ys" using Cons.IH [of "xs @ [(n, b)]" g] l f by simp
  then show ?case using block_reads(1,2) [OF l refl] block_words(4) [OF l refl] f c by (simp add: add.assoc)
qed

lemma length_bytes: "sizes_ok bs \<Longrightarrow> length bs \<le> bytes bs"
  by (induction bs) auto

lemma row_lay: "heap_lay s bs \<Longrightarrow> row s = bs"
  using walk_lay [of s "[]" bs "mem_brk s"] length_bytes [of bs] heap_layD(3,4) [of s bs] by (simp add: row_def base_def)

lemma heap_inv_row: "heap_inv s bs \<Longrightarrow> heap_ok s \<and> row s = bs"
  using row_lay by (auto simp: heap_ok_def heap_inv_def)

lemma heap_ok_blocks:
  assumes "heap_ok s"
  shows "set (blocks s) = set (in_use (base s) (row s)) - {(base s, 8)}" "fst ` set (blocks s) \<subseteq> {base s<..}"
proof -
  obtain cs where cs: "row s = (8, True) # cs" using assms by (auto simp: heap_ok_def heap_inv_def row_ok_cons)
  then have b: "blocks s = in_use (base s + 8) cs" by (simp add: blocks_def)
  show "fst ` set (blocks s) \<subseteq> {base s<..}" using in_use_bounds b by fastforce
  then show "set (blocks s) = set (in_use (base s) (row s)) - {(base s, 8)}" using b cs by auto
qed

section \<open>The interface\<close>

locale allocator =
  fixes ok :: "'s \<Rightarrow> bool" and held :: "'s \<Rightarrow> (nat \<times> nat) list" and peek :: "'s \<Rightarrow> nat \<Rightarrow> nat" and lim :: nat
    and malloc :: "'s \<Rightarrow> nat \<Rightarrow> 'e + nat \<times> 's" and free :: "'s \<Rightarrow> nat \<Rightarrow> 'e + 's"
  assumes malloc_law: "ok s \<Longrightarrow> n \<le> lim \<Longrightarrow> \<exists>p s'. malloc s n = Inr (p, s') \<and> ok s' \<and>
      set (held s) \<subseteq> set (held s') \<and> (\<forall>(q, k)\<in>set (held s). \<forall>x. q \<le> x \<longrightarrow> x + 8 < q + k \<longrightarrow> peek s' x = peek s x)"
    and free_law: "ok s \<Longrightarrow> p = 0 \<or> p \<in> fst ` set (held s) \<Longrightarrow> \<exists>s'. free s p = Inr s' \<and> ok s' \<and>
      {(q, k) \<in> set (held s). q \<noteq> p} \<subseteq> set (held s') \<and>
      (\<forall>(q, k)\<in>set (held s). q \<noteq> p \<longrightarrow> (\<forall>x. q \<le> x \<longrightarrow> x + 8 < q + k \<longrightarrow> peek s' x = peek s x))"
begin

lemma run_keeps:
  assumes "ok s" "legal malloc free held lim s cs" "(p, n) \<in> set (held s)" "Free p \<notin> set cs"
  shows "\<exists>s'. run malloc free s cs = Inr s' \<and> ok s' \<and> (p, n) \<in> set (held s') \<and> (\<forall>x. p \<le> x \<longrightarrow> x + 8 < p + n \<longrightarrow> peek s' x = peek s x)"
  using assms
proof (induction cs arbitrary: s)
  case (Cons c cs)
  show ?case
  proof (cases c)
    case (Malloc k)
    then obtain q s' where m: "malloc s k = Inr (q, s')" "ok s'" "(p, n) \<in> set (held s')"
        "\<forall>x. p \<le> x \<longrightarrow> x + 8 < p + n \<longrightarrow> peek s' x = peek s x"
      using malloc_law [OF Cons.prems(1), of k] Cons.prems(2,3) by fastforce
    then show ?thesis using Cons.IH [of s'] Cons.prems(2,4) Malloc by auto
  next
    case (Free q)
    then obtain s' where m: "free s q = Inr s'" "ok s'" "(p, n) \<in> set (held s')"
        "\<forall>x. p \<le> x \<longrightarrow> x + 8 < p + n \<longrightarrow> peek s' x = peek s x"
      using free_law [OF Cons.prems(1), of q] Cons.prems(2-4) by fastforce
    then show ?thesis using Cons.IH [of s'] Cons.prems(2,4) Free by auto
  qed
qed simp

end

section \<open>The calls on the caller's blocks\<close>

definition undisturbed :: "mm \<Rightarrow> (nat \<times> nat) set \<Rightarrow> mm \<Rightarrow> bool" where
  "undisturbed s B s' \<longleftrightarrow> (\<forall>(q, k)\<in>B. \<forall>x. q \<le> x \<longrightarrow> x + 8 < q + k \<longrightarrow> mem s' x = mem s x)"

lemma kept_calm: "heap_ok s \<Longrightarrow> payload_kept (base s) (row s) (mem s) (mem s') \<Longrightarrow> undisturbed s (set (blocks s)) s'"
  using heap_ok_blocks(1) [of s] by (auto simp: payload_kept_def undisturbed_def)

lemma calmD: "undisturbed s B s' \<Longrightarrow> (q, k) \<in> B \<Longrightarrow> q \<le> x \<Longrightarrow> x + 8 < q + k \<Longrightarrow> mem s' x = mem s x"
  unfolding undisturbed_def by blast

lemma calm_trans: "undisturbed s A s' \<Longrightarrow> undisturbed s' B s'' \<Longrightarrow> C \<subseteq> A \<inter> B \<Longrightarrow> undisturbed s C s''"
  unfolding undisturbed_def by fastforce

lemma calm_refl: "undisturbed s B s"
  by (auto simp: undisturbed_def)

lemma malloc_at:
  assumes "heap_ok s" "0 < sz" "sz \<le> 2 ^ 32 - 16" "row_malloc (mem_max_addr s - mem_brk s) sz (row s) = Some (q, bs')"
  shows "\<exists>s'. mm_malloc s sz = Inr (base s + q, s') \<and> heap_ok s' \<and> row s' = bs' \<and> base s' = base s \<and> undisturbed s (set (blocks s)) s' \<and>
    (\<exists>n\<ge>sz + 8. (base s + q, n) \<notin> set (blocks s) \<and> set (blocks s') = insert (base s + q, n) (set (blocks s)))"
proof -
  have i: "heap_inv s (row s)" "row_ok (row s)" using assms(1) by (simp_all add: heap_ok_def heap_inv_def)
  obtain s' where s': "mm_malloc s sz = Inr (base s + q, s')" "heap_inv s' bs'" "base s' = base s" "payload_kept (base s) (row s) (mem s) (mem s')"
    using malloc_row [OF i(1) assms(2,3)] unfolding assms(4) by auto
  have h: "heap_ok s'" "row s' = bs'" using heap_inv_row [OF s'(2)] by simp_all
  obtain n where n: "8 \<le> q" "sz + 8 \<le> n" "set (in_use (base s) bs') = insert (base s + q, n) (set (in_use (base s) (row s)))"
      "(base s + q, n) \<notin> set (in_use (base s) (row s))"
    using row_malloc_row_ok [OF i(2) assms(4), of "base s"] by blast
  have "(base s + q, n) \<notin> set (blocks s)" using heap_ok_blocks(1) [OF assms(1)] n(4) by simp
  moreover have "set (blocks s') = insert (base s + q, n) (set (blocks s))"
    unfolding heap_ok_blocks(1) [OF assms(1)] heap_ok_blocks(1) [OF h(1)] h(2) s'(3) n(3) using n(1) by auto
  ultimately show ?thesis using s'(1,3) h n(2) kept_calm [OF assms(1) s'(4)] by blast
qed

lemma malloc_none:
  assumes "heap_ok s" "sz \<le> 2 ^ 32 - 16" "sz = 0 \<or> row_malloc (mem_max_addr s - mem_brk s) sz (row s) = None"
  shows "mm_malloc s sz = Inr (0, s)"
proof (cases "sz = 0")
  case True
  then show ?thesis using no_init [of s "row s"] assms(1) by (simp add: mm_malloc_def heap_ok_def)
next
  case False
  then have none: "row_malloc (mem_max_addr s - mem_brk s) sz (row s) = None" using assms(3) by simp
  have "heap_inv s (row s)" "0 < sz" using False assms(1) by (simp_all add: heap_ok_def)
  from malloc_row [OF this assms(2)] show ?thesis unfolding none by simp
qed

lemma malloc_blocks:
  assumes "heap_ok s" "sz \<le> 2 ^ 32 - 16"
  shows "\<exists>p s'. mm_malloc s sz = Inr (p, s') \<and> heap_ok s' \<and> base s' = base s \<and> undisturbed s (set (blocks s)) s' \<and>
    (p = 0 \<and> s' = s \<or> p \<noteq> 0 \<and> (\<exists>n\<ge>sz + 8. (p, n) \<notin> set (blocks s) \<and> set (blocks s') = insert (p, n) (set (blocks s))))"
proof (cases "sz = 0 \<or> row_malloc (mem_max_addr s - mem_brk s) sz (row s) = None")
  case True
  from malloc_none [OF assms this] show ?thesis using assms(1) calm_refl by blast
next
  case False
  then obtain q bs' where "row_malloc (mem_max_addr s - mem_brk s) sz (row s) = Some (q, bs')" "0 < sz" by auto
  from malloc_at [OF assms(1) this(2) assms(2) this(1)] obtain s' where "mm_malloc s sz = Inr (base s + q, s')" "heap_ok s'"
      "base s' = base s" "undisturbed s (set (blocks s)) s'"
      "\<exists>n\<ge>sz + 8. (base s + q, n) \<notin> set (blocks s) \<and> set (blocks s') = insert (base s + q, n) (set (blocks s))" by blast
  moreover have "base s + q \<noteq> 0" by (simp add: base_def)
  ultimately show ?thesis by blast
qed

lemma free_blocks:
  assumes "heap_ok s" "(p, n) \<in> set (blocks s)"
  shows "\<exists>m'. mm_free s p = Inr (s\<lparr>mem := m'\<rparr>) \<and> heap_ok (s\<lparr>mem := m'\<rparr>) \<and> row (s\<lparr>mem := m'\<rparr>) = row_free (p - base s) (row s) \<and>
    set (blocks (s\<lparr>mem := m'\<rparr>)) = set (blocks s) - {(p, n)} \<and> undisturbed s (set (blocks s) - {(p, n)}) (s\<lparr>mem := m'\<rparr>)"
proof -
  have i: "heap_inv s (row s)" "row_ok (row s)" using assms(1) by (simp_all add: heap_ok_def heap_inv_def)
  have p: "(p, n) \<in> set (in_use (base s) (row s))" "base s < p" using heap_ok_blocks [OF assms(1)] assms(2) by force+
  obtain m' where m: "mm_free s p = Inr (s\<lparr>mem := m'\<rparr>)" "heap_inv (s\<lparr>mem := m'\<rparr>) (row_free (p - base s) (row s))"
      "payload_kept (base s) (row_free (p - base s) (row s)) (mem s) m'"
    using free_row [OF i(1) p(1)] p(2) by auto
  have h: "heap_ok (s\<lparr>mem := m'\<rparr>)" "row (s\<lparr>mem := m'\<rparr>) = row_free (p - base s) (row s)" using heap_inv_row [OF m(2)] by simp_all
  have e: "(base s + (p - base s), n) \<in> set (in_use (base s) (row s))" "p - base s \<noteq> 0" using p by simp_all
  have lv: "set (in_use (base s) (row_free (p - base s) (row s))) = set (in_use (base s) (row s)) - {(p, n)}"
    using row_free_row_ok [OF i(2) e] p(2) by simp
  then have b: "set (blocks (s\<lparr>mem := m'\<rparr>)) = set (blocks s) - {(p, n)}"
    using heap_ok_blocks(1) [OF assms(1)] heap_ok_blocks(1) [OF h(1)] h(2) by auto
  moreover have "undisturbed s (set (blocks s) - {(p, n)}) (s\<lparr>mem := m'\<rparr>)"
    using m(3) lv heap_ok_blocks(1) [OF assms(1)] by (auto simp: payload_kept_def undisturbed_def)
  ultimately show ?thesis using m(1) h by blast
qed

lemma blocks_apart:
  assumes "heap_ok s" "(p, n) \<in> set (blocks s)" "(q, k) \<in> set (blocks s)" "(p, n) \<noteq> (q, k)"
  shows "p + n \<le> q \<or> q + k \<le> p"
proof -
  have "sizes_ok (row s)" using assms(1) row_ok_sizes by (simp add: heap_ok_def heap_inv_def)
  then show ?thesis using in_use_disjoint [OF _ _ assms(4), of "base s" "row s"] heap_ok_blocks(1) [OF assms(1)] assms(2,3) by auto
qed

lemma blocks_sizes:
  assumes "heap_ok s" "(p, n) \<in> set (blocks s)"
  shows "8 dvd p" "8 dvd n" "8 \<le> n" "mem_heap s + 8 < p" "p + n \<le> mem_brk s" "GET_SIZE s (HDRP p) = Inr n"
proof -
  have i: "heap_inv s (row s)" using assms(1) by (simp add: heap_ok_def)
  have p: "(p, n) \<in> set (in_use (base s) (row s))" using heap_ok_blocks [OF assms(1)] assms(2) by force
  then obtain xs ys where s: "row s = xs @ (n, True) # ys" "p = base s + bytes xs" "heap_lay s (xs @ (n, True) # ys)"
    using in_use_block [OF i] by blast
  show "8 dvd n" "8 \<le> n" "p + n \<le> mem_brk s" using block_words(3-5) [OF s(3,2)] by simp_all
  show "GET_SIZE s (HDRP p) = Inr n" using block_reads(1) [OF s(3,2)] .
  have "8 dvd bytes xs" using heap_layD(3) [OF s(3)] by (intro bytes_dvd) simp
  then show "8 dvd p" using heap_layD(2) [OF s(3)] s(2) by (simp add: base_def)
  show "mem_heap s + 8 < p" using heap_ok_blocks(2) [OF assms(1)] assms(2) by (force simp: base_def)
qed

interpretation mm_alloc: allocator heap_ok blocks mem "2 ^ 32 - 16" mm_malloc mm_free
proof
  fix s n assume "heap_ok s" "n \<le> (2 ^ 32 - 16 :: nat)"
  from malloc_blocks [OF this] show "\<exists>p s'. mm_malloc s n = Inr (p, s') \<and> heap_ok s' \<and> set (blocks s) \<subseteq> set (blocks s') \<and>
      (\<forall>(q, k)\<in>set (blocks s). \<forall>x. q \<le> x \<longrightarrow> x + 8 < q + k \<longrightarrow> mem s' x = mem s x)"
    unfolding undisturbed_def by blast
next
  fix s p assume h: "heap_ok s" and p: "p = 0 \<or> p \<in> fst ` set (blocks s)"
  show "\<exists>s'. mm_free s p = Inr s' \<and> heap_ok s' \<and> {(q, k) \<in> set (blocks s). q \<noteq> p} \<subseteq> set (blocks s') \<and>
      (\<forall>(q, k)\<in>set (blocks s). q \<noteq> p \<longrightarrow> (\<forall>x. q \<le> x \<longrightarrow> x + 8 < q + k \<longrightarrow> mem s' x = mem s x))"
  proof (cases "p = 0")
    case True
    then show ?thesis using h by (auto simp: mm_free_def)
  next
    case False
    then obtain n where "(p, n) \<in> set (blocks s)" using p by auto
    from free_blocks [OF h this] obtain m' where "mm_free s p = Inr (s\<lparr>mem := m'\<rparr>)" "heap_ok (s\<lparr>mem := m'\<rparr>)"
      "set (blocks (s\<lparr>mem := m'\<rparr>)) = set (blocks s) - {(p, n)}" "undisturbed s (set (blocks s) - {(p, n)}) (s\<lparr>mem := m'\<rparr>)" by blast
    then show ?thesis unfolding undisturbed_def by (intro exI [of _ "s\<lparr>mem := m'\<rparr>"]) fastforce
  qed
qed

lemma mm_store_ok:
  assumes "heap_ok s" "(p, n) \<in> set (blocks s)" "\<And>x. x < p \<or> p + n \<le> x + 8 \<Longrightarrow> m' x = mem s x"
  shows "heap_ok (s\<lparr>mem := m'\<rparr>)" "row (s\<lparr>mem := m'\<rparr>) = row s" "blocks (s\<lparr>mem := m'\<rparr>) = blocks s"
    "undisturbed s (set (blocks s) - {(p, n)}) (s\<lparr>mem := m'\<rparr>)"
proof -
  have i: "heap_inv s (row s)" using assms(1) by (simp add: heap_ok_def)
  have p: "(p, n) \<in> set (in_use (base s) (row s))" using heap_ok_blocks [OF assms(1)] assms(2) by force
  from heap_inv_row [OF store_inv [OF i p assms(3)]]
  show r: "heap_ok (s\<lparr>mem := m'\<rparr>)" "row (s\<lparr>mem := m'\<rparr>) = row s" by simp_all
  then show "blocks (s\<lparr>mem := m'\<rparr>) = blocks s" by (simp add: blocks_def)
  show "undisturbed s (set (blocks s) - {(p, n)}) (s\<lparr>mem := m'\<rparr>)"
    unfolding undisturbed_def using store_kept [OF i p assms(3)] heap_ok_blocks(1) [OF assms(1)] by auto
qed

text \<open>What \<open>mm_realloc\<close> does once it has its new block.\<close>

lemma move_block:
  assumes h: "heap_ok s" and b: "(r, k) \<in> set (blocks s)" "(p, n) \<in> set (blocks s)" "(r, k) \<noteq> (p, n)" and c: "c \<le> n" "c + 8 \<le> k"
  shows "\<exists>m'. andthen (memcpy s r p c) (\<lambda>s. mm_free s p) = Inr (s\<lparr>mem := m'\<rparr>) \<and> heap_ok (s\<lparr>mem := m'\<rparr>) \<and>
    set (blocks (s\<lparr>mem := m'\<rparr>)) = set (blocks s) - {(p, n)} \<and> undisturbed s (set (blocks s) - {(p, n), (r, k)}) (s\<lparr>mem := m'\<rparr>) \<and>
    (\<forall>i < c. i + 8 < n \<longrightarrow> m' (r + i) = mem s (p + i))"
proof -
  note R = blocks_sizes [OF h b(1)] and P = blocks_sizes [OF h b(2)]
  define m1 where "m1 = (\<lambda>x. if r \<le> x \<and> x < r + c then mem s (p + (x - r)) else mem s x)"
  have cp: "memcpy s r p c = Inr (s\<lparr>mem := m1\<rparr>)"
    using R(4,5) P(4,5) c by (simp add: memcpy_def m1_def)
  have out: "m1 x = mem s x" if "x < r \<or> r + k \<le> x + 8" for x using that c by (auto simp: m1_def)
  note S = mm_store_ok [OF h b(1) out]
  have "(p, n) \<in> set (blocks (s\<lparr>mem := m1\<rparr>))" using S(3) b(2) by simp
  from free_blocks [OF S(1) this] obtain m' where f: "mm_free (s\<lparr>mem := m1\<rparr>) p = Inr (s\<lparr>mem := m'\<rparr>)" "heap_ok (s\<lparr>mem := m'\<rparr>)"
    "set (blocks (s\<lparr>mem := m'\<rparr>)) = set (blocks s) - {(p, n)}" "undisturbed (s\<lparr>mem := m1\<rparr>) (set (blocks s) - {(p, n)}) (s\<lparr>mem := m'\<rparr>)"
    using S(3) by auto
  have "undisturbed s (set (blocks s) - {(p, n), (r, k)}) (s\<lparr>mem := m'\<rparr>)" by (rule calm_trans [OF S(4) f(4)]) auto
  moreover have "m' (r + i) = mem s (p + i)" if "i < c" for i
    using calmD [OF f(4), of r k "r + i"] b that c by (auto simp: m1_def)
  ultimately show ?thesis using cp f(1-3) by auto
qed

lemma realloc_blocks:
  assumes "heap_ok s" "(p, n) \<in> set (blocks s)" "0 < sz" "sz \<le> 2 ^ 32 - 16"
  shows "\<exists>r s'. mm_realloc s p sz = Inr (r, s') \<and> heap_ok s' \<and>
    (r = 0 \<and> s' = s \<or> r \<noteq> 0 \<and> (\<exists>k\<ge>sz + 8. (r, k) \<notin> set (blocks s) \<and> set (blocks s') = insert (r, k) (set (blocks s) - {(p, n)})) \<and>
      undisturbed s (set (blocks s) - {(p, n)}) s' \<and> (\<forall>i < sz. i + 8 < n \<longrightarrow> mem s' (r + i) = mem s (p + i)))"
proof -
  obtain r s1 where m: "mm_malloc s sz = Inr (r, s1)" "heap_ok s1" "undisturbed s (set (blocks s)) s1"
      "r = 0 \<and> s1 = s \<or> r \<noteq> 0 \<and> (\<exists>k\<ge>sz + 8. (r, k) \<notin> set (blocks s) \<and> set (blocks s1) = insert (r, k) (set (blocks s)))"
    using malloc_blocks [OF assms(1,4)] by blast
  have p0: "p \<noteq> 0" using blocks_sizes(4) [OF assms(1,2)] by simp
  show ?thesis
  proof (cases "r = 0")
    case True
    then have "mm_realloc s p sz = Inr (0, s)" using m(1,4) p0 assms(3) by (simp add: mm_realloc_def)
    then show ?thesis using assms(1) by blast
  next
    case False
    then obtain k where k: "sz + 8 \<le> k" "(r, k) \<notin> set (blocks s)" "set (blocks s1) = insert (r, k) (set (blocks s))" using m(4) by blast
    then have b: "(r, k) \<in> set (blocks s1)" "(p, n) \<in> set (blocks s1)" "(r, k) \<noteq> (p, n)" using assms(2) by auto
    define c where "c = (if sz < n then sz else n)"
    have c: "c \<le> n" "c + 8 \<le> k" using k(1) by (auto simp: c_def)
    obtain m' where f: "andthen (memcpy s1 r p c) (\<lambda>s. mm_free s p) = Inr (s1\<lparr>mem := m'\<rparr>)" "heap_ok (s1\<lparr>mem := m'\<rparr>)"
        "set (blocks (s1\<lparr>mem := m'\<rparr>)) = set (blocks s1) - {(p, n)}" "undisturbed s1 (set (blocks s1) - {(p, n), (r, k)}) (s1\<lparr>mem := m'\<rparr>)"
        "\<forall>i < c. i + 8 < n \<longrightarrow> m' (r + i) = mem s1 (p + i)"
      using move_block [OF m(2) b c] by blast
    have "mm_realloc s p sz = Inr (r, s1\<lparr>mem := m'\<rparr>)"
      using m(1) False p0 assms(3) blocks_sizes(6) [OF m(2) b(2)] f(1)
      by (auto simp: mm_realloc_def Let_def c_def andthen_Inr_iff split: if_splits)
    moreover have "set (blocks (s1\<lparr>mem := m'\<rparr>)) = insert (r, k) (set (blocks s) - {(p, n)})" using f(3) k(3) b(3) by auto
    moreover have "undisturbed s (set (blocks s) - {(p, n)}) (s1\<lparr>mem := m'\<rparr>)"
      using k(2,3) by (intro calm_trans [OF m(3) f(4)]) auto
    moreover have "m' (r + i) = mem s (p + i)" if i: "i < sz" "i + 8 < n" for i
      using f(5) i calmD [OF m(3) assms(2), of "p + i"] by (simp add: c_def)
    ultimately show ?thesis using f(2) False k(1,2) by auto
  qed
qed

lemma realloc_ok:
  assumes "heap_ok s" "p = 0 \<or> p \<in> fst ` set (blocks s)" "n \<le> 2 ^ 32 - 16"
  shows "\<exists>q s'. mm_realloc s p n = Inr (q, s') \<and> heap_ok s'"
proof (cases "n = 0")
  case True
  then show ?thesis using mm_alloc.free_law [OF assms(1,2)] by (auto simp: mm_realloc_def)
next
  case False
  show ?thesis
  proof (cases "p = 0")
    case True
    then have "mm_realloc s p n = mm_malloc s n" using False by (simp add: mm_realloc_def)
    then show ?thesis using malloc_blocks [OF assms(1,3)] by auto
  next
    case 2: False
    then obtain m where "(p, m) \<in> set (blocks s)" using assms(2) by auto
    then show ?thesis using realloc_blocks [OF assms(1) _ _ assms(3), of p m] False by blast
  qed
qed

section \<open>A request the tags cannot hold\<close>

lemma PUT_mod: "PUT s p v = PUT s p (v mod 2 ^ 32)"
proof -
  have d: "v mod 2 ^ 32 div 2 ^ k mod 2 ^ 8 = v div 2 ^ k mod 2 ^ 8" if "k + 8 \<le> 32" for k :: nat
  proof -
    have "v mod 2 ^ 32 = v mod (2 ^ k * 2 ^ (32 - k))" unfolding power_add [symmetric] using that by simp
    also have "\<dots> div 2 ^ k = v div 2 ^ k mod 2 ^ (32 - k)" by (simp add: mod_mult2_eq)
    finally show ?thesis using that le_imp_power_dvd [of 8 "32 - k" "2 :: nat"] by (simp only: mod_mod_cancel)
  qed
  show ?thesis using d [of 0] d [of 8] d [of 16] d [of 24] by (simp add: PUT_def set_word_def)
qed

lemma put_tags_mod: "put_tags s bp v = put_tags s bp (v mod 2 ^ 32)"
  unfolding put_tags_def by (subst (1 2) PUT_mod) (rule refl)

lemma PACK_wrapped: "PACK (2 ^ 32 + 8) 1 mod 2 ^ 32 = tag 8 True"
  by (simp add: PACK_def tag_def)

lemma place_wrapped:
  assumes "heap_lay s (xs @ (n, False) # ys)" "bp = base s + bytes xs" "16 \<le> n"
  shows "\<exists>m'. place s bp (2 ^ 32 + 8) = Inr (s\<lparr>mem := m'\<rparr>) \<and> heap_lay (s\<lparr>mem := m'\<rparr>) (xs @ (8, True) # (n - 8, False) # ys)"
proof -
  have n: "n < 2 ^ 31" using heap_layD(10) [OF assms(1)] by simp
  have sub: "size_sub n (2 ^ 32 + 8) = 2 ^ 64 - 2 ^ 32 + (n - 8)"
  proof -
    have "(int n - int (2 ^ 32 + 8)) mod 2 ^ 64 = (int n - (2 ^ 32 + 8) + 2 ^ 64) mod 2 ^ 64"
      using mod_add_self2 [of "int n - (2 ^ 32 + 8)" "2 ^ 64"] by simp
    also have "\<dots> = int n - (2 ^ 32 + 8) + 2 ^ 64" using n by (intro mod_pos_pos_trivial) auto
    finally show ?thesis using assms(3) by (simp add: size_sub_def)
  qed
  have m: "PACK (size_sub n (2 ^ 32 + 8)) 0 mod 2 ^ 32 = tag (n - 8) False"
    using n sub by (simp add: PACK_def tag_def mod_add_eq [symmetric])
  have "size_sub n (2 ^ 32 + 8) \<ge> 2 * DSIZE" using sub by (simp add: DSIZE_def)
  then have "place s bp (2 ^ 32 + 8) =
      andthen (put_tags s bp (tag 8 True)) (\<lambda>s. andthen (NEXT_BLKP s bp) (\<lambda>bp. put_tags s bp (tag (n - 8) False)))"
    unfolding place_def block_reads(1) [OF assms(1,2)] andthen_simps
    by (simp only: if_True put_tags_mod [of _ _ "PACK _ _"] PACK_wrapped m)
  then show ?thesis using split_puts [OF assms(1,2), of 8] assms(3) by auto
qed

lemma extend_wrapped: "extend_heap s ((2 ^ 32 + 8) div 4) = extend_heap s 2"
proof -
  have "mem_sbrk s (2 ^ 32 + 8) = mem_sbrk s 8" by (simp add: mem_sbrk_def to_int32_def)
  moreover have "PACK (2 ^ 32 + 8) 0 mod 2 ^ 32 = PACK 8 0" by (simp add: PACK_def)
  then have "put_tags s' bp (PACK (2 ^ 32 + 8) 0) = put_tags s' bp (PACK 8 0)" for s' bp
    using put_tags_mod [of s' bp "PACK (2 ^ 32 + 8) 0"] by simp
  ultimately show ?thesis by (simp add: extend_heap_def WSIZE_def Let_def split: prod.split)
qed

lemma malloc_wrapped:
  assumes "heap_ok s" "row s = us @ [(k, False)]" "mem_brk s + 8 \<le> mem_max_addr s"
  shows "\<exists>s'. mm_malloc s (2 ^ 32) = Inr (base s + bytes us, s') \<and> row s' = us @ [(8, True), (k, False)]"
proof -
  have i: "heap_inv s (row s)" "heap_lay s (row s)" "row_ok (row s)" "heap_listp s = base s" using assms(1) by (simp_all add: heap_ok_def heap_inv_def)
  have "fst b \<le> bytes (row s)" if "b \<in> set (row s)" for b using that by (auto simp: bytes_def member_le_sum_list)
  then have "carve (2 ^ 32 + 8) (row s) = None"
    unfolding carve_None list_all_iff using heap_layD(10) [OF i(2)] by fastforce
  then have "find_fit s (2 ^ 32 + 8) = Inr 0"
    using find_fit_loop_ok [of s "[]" "row s" "base s" "2 ^ 32 + 8"] i by (simp add: find_fit_def)
  moreover have "adjust (2 ^ 32) = 2 ^ 32 + 8" by (simp add: adjust_def DSIZE_def)
  ultimately have run: "mm_malloc s (2 ^ 32) = andthen (extend_heap s 2)
      (\<lambda>(bp, s). if bp = 0 then Inr (0, s) else andthen (place s bp 4294967304) (\<lambda>s. Inr (bp, s)))"
    using no_init [OF i(1)] extend_wrapped [of s] by (simp add: mm_malloc_def Let_def CHUNKSIZE_def WSIZE_def max_def)
  have adj: "no_adj (row s)" using row_ok_no_adj [OF i(3)] .
  obtain xs n m where e: "join (row s @ [(8, False)]) = xs @ [(n, False)]" "extend_heap s 2 = Inr (base s + bytes xs, s\<lparr>mem_brk := mem_brk s + 8, mem := m\<rparr>)"
      "heap_lay (s\<lparr>mem_brk := mem_brk s + 8, mem := m\<rparr>) (xs @ [(n, False)])"
    using extend_heap_ok [OF i(2) adj, of 8] assms(3) by auto
  have "join (us @ (k, False) # [(8, False)]) = us @ join ((k, False) # [(8, False)])" using adj assms(2) by (intro join_prefix) simp
  then have x: "xs = us" "n = k + 8" using e(1) assms(2) by simp_all
  have "16 \<le> n" using x(2) heap_layD(3) [OF i(2)] assms(2) by simp
  from place_wrapped [OF e(3) refl this] obtain m' where
    "place (s\<lparr>mem_brk := mem_brk s + 8, mem := m\<rparr>) (base s + bytes us) (2 ^ 32 + 8) = Inr (s\<lparr>mem_brk := mem_brk s + 8, mem := m'\<rparr>)"
    "heap_lay (s\<lparr>mem_brk := mem_brk s + 8, mem := m'\<rparr>) (us @ [(8, True), (k, False)])" using x by auto
  then show ?thesis using run e(2) x row_lay by (auto simp: base_def)
qed

section \<open>Properties\<close>

lemma start_heap:
  "\<exists>s. reach s \<and> heap_ok s \<and> row s = [(8, True), (4096, False)] \<and> base s = 16 \<and> mem_brk s = 4120 \<and> mem_max_addr s = 1048584"
proof -
  obtain s where i: "mm_init (mem_init undefined 8 1048576) = Inr (0, s)" "heap_inv s [(8, True), (4096, False)]" "base s = 16"
      "mem_max_addr s = 1048584"
    using init_ok [of 8 1048576 undefined] by auto
  have "reach s" using reach.start [OF _ _ _ _ _ i(1)] by simp
  moreover have "mem_brk s = 4120" using i(2,3) heap_layD(4) [of s "[(8, True), (4096, False)]"] by (simp add: heap_inv_def)
  ultimately show ?thesis using i heap_inv_row [OF i(2)] by blast
qed

text \<open>\<open>mm_init\<close> on the memory \<open>mem_init\<close> sets up succeeds and leaves a heap of the prologue and one
  free block of \<open>CHUNKSIZE\<close> bytes, which satisfies the invariant.\<close>

theorem mm_init_ready:
  assumes "8 \<le> p" "8 dvd p" "4112 \<le> k" "k < 2 ^ 31" "p + k < 2 ^ 63"
  shows "\<exists>s'. mm_init (mem_init s p k) = Inr (0, s') \<and> heap_ok s' \<and> row s' = [(8, True), (CHUNKSIZE, False)] \<and> blocks s' = []"
proof -
  obtain s' where "mm_init (mem_init s p k) = Inr (0, s')" "heap_inv s' [(8, True), (4096, False)]" using init_ok [OF assms] by blast
  then show ?thesis using heap_inv_row by (auto simp: CHUNKSIZE_def blocks_def)
qed

theorem mm_init_ready_witness:
  "\<forall>s. \<exists>s'. mm_init (mem_init s 4096 (20 * 2 ^ 20)) = Inr (0, s') \<and> heap_ok s' \<and> row s' = [(8, True), (CHUNKSIZE, False)] \<and> blocks s' = []"
  by (intro allI mm_init_ready) simp_all

text \<open>C5: \<open>mm_malloc\<close> of 1 to \<open>2 ^ 32 - 16\<close> bytes refines \<open>row_malloc\<close>: it carves the request, rounded up with its tags, out of the first
  free block that is large enough, or extends the heap and carves it out of its joined end, or returns
  \<open>NULL\<close> and changes nothing.  The invariant holds afterwards, exactly one block, of enough room,
  is added to those the caller holds, and the bytes in those stay as they are.\<close>

theorem mm_malloc_refines:
  assumes "heap_ok s" "0 < sz" "sz \<le> 2 ^ 32 - 16"
  shows "case row_malloc (mem_max_addr s - mem_brk s) sz (row s) of
      None \<Rightarrow> mm_malloc s sz = Inr (0, s)
    | Some (q, bs') \<Rightarrow> \<exists>s'. mm_malloc s sz = Inr (base s + q, s') \<and> heap_ok s' \<and> row s' = bs' \<and> base s' = base s \<and> undisturbed s (set (blocks s)) s' \<and>
        (\<exists>n\<ge>sz + 8. (base s + q, n) \<notin> set (blocks s) \<and> set (blocks s') = insert (base s + q, n) (set (blocks s)))"
proof (cases "row_malloc (mem_max_addr s - mem_brk s) sz (row s)")
  case None
  then show ?thesis using malloc_none [OF assms(1,3)] by simp
next
  case (Some r)
  then show ?thesis using malloc_at [OF assms(1-3), of "fst r" "snd r"] by (cases r) simp
qed

theorem mm_malloc_refines_witness:
  "\<exists>s s'. heap_ok s \<and> mm_malloc s 100 = Inr (24, s') \<and> row s' = [(8, True), (112, True), (3984, False)]"
proof -
  obtain s where s: "heap_ok s" "row s = [(8, True), (4096, False)]" "base s = 16" using start_heap by blast
  then show ?thesis using mm_malloc_refines [of s 100] by (auto simp: row_malloc_def pieces_def)
qed

text \<open>C6: \<open>mm_free\<close> of a block the caller holds refines \<open>row_free\<close>: the block is marked free and joined with
  free neighbours on either side.  The invariant holds afterwards, so no two free blocks are next to
  each other; the caller's other blocks are the same and keep their bytes.\<close>

theorem mm_free_refines:
  assumes "heap_ok s" "(p, n) \<in> set (blocks s)"
  shows "\<exists>s'. mm_free s p = Inr s' \<and> heap_ok s' \<and> no_adj (row s') \<and> row s' = row_free (p - base s) (row s) \<and>
    set (blocks s') = set (blocks s) - {(p, n)} \<and> undisturbed s (set (blocks s')) s'"
proof -
  obtain m' where m: "mm_free s p = Inr (s\<lparr>mem := m'\<rparr>)" "heap_ok (s\<lparr>mem := m'\<rparr>)" "row (s\<lparr>mem := m'\<rparr>) = row_free (p - base s) (row s)"
      "set (blocks (s\<lparr>mem := m'\<rparr>)) = set (blocks s) - {(p, n)}" "undisturbed s (set (blocks s) - {(p, n)}) (s\<lparr>mem := m'\<rparr>)"
    using free_blocks [OF assms] by blast
  moreover have "no_adj (row (s\<lparr>mem := m'\<rparr>))" using m(2) row_ok_no_adj by (simp add: heap_ok_def heap_inv_def)
  ultimately show ?thesis by auto
qed

theorem mm_free_refines_witness:
  "\<exists>s s'. heap_ok s \<and> blocks s = [(24, 112)] \<and> mm_free s 24 = Inr s' \<and> row s' = [(8, True), (4096, False)]"
proof -
  obtain s0 where s0: "heap_ok s0" "row s0 = [(8, True), (4096, False)]" "base s0 = 16" using start_heap by blast
  then obtain s where s: "heap_ok s" "row s = [(8, True), (112, True), (3984, False)]" "base s = 16"
    using malloc_at [of s0 100 8 "[(8, True), (112, True), (3984, False)]"] by (auto simp: row_malloc_def pieces_def)
  then have "blocks s = [(24, 112)]" by (simp add: blocks_def)
  then show ?thesis using mm_free_refines [of s 24 112] s by (auto simp: row_free_def)
qed

lemma reach_heap_ok: "reach s \<Longrightarrow> heap_ok s"
proof (induction rule: reach.induct)
  case (start p k s r s')
  obtain s1 where "mm_init (mem_init s p k) = Inr (0, s1)" "heap_inv s1 [(8, True), (4096, False)]"
    using init_ok [OF start.hyps(1-5), of s] by blast
  then show ?case using start.hyps(6) heap_inv_row [of s1] by simp
next
  case (malloc s n p s')
  then show ?case using malloc_blocks [OF malloc.IH malloc.hyps(2)] by auto
next
  case (free s p s')
  then show ?case using mm_alloc.free_law [OF free.IH free.hyps(2)] by auto
next
  case (realloc s p n q s')
  then show ?case using realloc_ok [OF realloc.IH realloc.hyps(2,3)] by auto
next
  case (store s p n i v)
  show ?case by (rule mm_store_ok(1) [OF store.IH store.hyps(2)]) (use store.hyps(3) in auto)
qed

text \<open>C4: Every heap that calls of the allocator, with sizes of at most \<open>2 ^ 32 - 16\<close> bytes, and writes to
  allocated blocks can bring about satisfies the invariant, and the blocks in use are aligned, inside the heap and do not overlap.\<close>

theorem mm_reach_ok:
  assumes "reach s"
  shows "heap_ok s \<and> (\<forall>(p, n)\<in>set (blocks s). 8 dvd p \<and> mem_heap s + 8 < p \<and> p + n \<le> mem_brk s) \<and>
    (\<forall>(p, n)\<in>set (blocks s). \<forall>(q, k)\<in>set (blocks s). (p, n) = (q, k) \<or> p + n \<le> q \<or> q + k \<le> p)"
proof -
  have "heap_ok s" by (rule reach_heap_ok [OF assms])
  then show ?thesis using blocks_sizes(1,4,5) [OF \<open>heap_ok s\<close>] blocks_apart [OF \<open>heap_ok s\<close>] by (auto, blast+)
qed

theorem mm_reach_ok_witness:
  "\<exists>s. reach s \<and> blocks s = [(24, 112)] \<and> heap_ok s"
proof -
  obtain s0 where s0: "reach s0" "heap_ok s0" "row s0 = [(8, True), (4096, False)]" "base s0 = 16" using start_heap by blast
  then obtain s where s: "mm_malloc s0 100 = Inr (24, s)" "row s = [(8, True), (112, True), (3984, False)]" "base s = 16"
    using malloc_at [of s0 100 8 "[(8, True), (112, True), (3984, False)]"] by (auto simp: row_malloc_def pieces_def)
  then have "reach s" "blocks s = [(24, 112)]" using reach.malloc [OF s0(1) _ s(1)] by (simp_all add: blocks_def)
  then show ?thesis using mm_reach_ok by blast
qed

text \<open>C7: A program that holds a block and whose calls are legal (it frees only blocks it holds and asks for at
  most \<open>2 ^ 32 - 16\<close> bytes), however they are ordered, never makes the allocator touch memory outside the
  heap, every call returns, and a block that it does not free stays allocated and keeps its bytes.\<close>

theorem mm_calls_keep_block:
  assumes "heap_ok s" "legal mm_malloc mm_free blocks (2 ^ 32 - 16) s cs" "(p, n) \<in> set (blocks s)" "Free p \<notin> set cs"
  shows "\<exists>s'. run mm_malloc mm_free s cs = Inr s' \<and> heap_ok s' \<and> (p, n) \<in> set (blocks s') \<and>
    (\<forall>x. p \<le> x \<longrightarrow> x + 8 < p + n \<longrightarrow> mem s' x = mem s x)"
  by (rule mm_alloc.run_keeps [OF assms])

theorem mm_calls_keep_block_witness:
  "\<exists>s s'. heap_ok s \<and> blocks s = [(24, 112)] \<and> run mm_malloc mm_free s [Malloc 200, Free 0] = Inr s' \<and> (24, 112) \<in> set (blocks s') \<and> mem s' 24 = mem s 24"
proof -
  obtain s0 where s0: "heap_ok s0" "row s0 = [(8, True), (4096, False)]" "base s0 = 16" using start_heap by blast
  then obtain s where s: "heap_ok s" "row s = [(8, True), (112, True), (3984, False)]" "base s = 16"
    using malloc_at [of s0 100 8 "[(8, True), (112, True), (3984, False)]"] by (auto simp: row_malloc_def pieces_def)
  then have b: "blocks s = [(24, 112)]" by (simp add: blocks_def)
  have "legal mm_malloc mm_free blocks (2 ^ 32 - 16) s [Malloc 200, Free 0]" by (simp split: sum.split)
  from mm_calls_keep_block [OF s(1) this, of 24 112] show ?thesis using b s(1) by auto
qed

text \<open>C24: \<open>mm_realloc\<close> of a block the caller holds to 1 to \<open>2 ^ 32 - 16\<close> bytes returns a new block with the old bytes, as many as both
  have room for, and frees the old one, or returns \<open>NULL\<close> and changes nothing.  The other blocks keep
  their bytes.\<close>

theorem mm_realloc_moves:
  assumes "heap_ok s" "(p, n) \<in> set (blocks s)" "0 < sz" "sz \<le> 2 ^ 32 - 16"
  shows "\<exists>r s'. mm_realloc s p sz = Inr (r, s') \<and> heap_ok s' \<and>
    (r = 0 \<and> s' = s \<or> r \<noteq> 0 \<and> (\<exists>k\<ge>sz + 8. (r, k) \<notin> set (blocks s) \<and> set (blocks s') = insert (r, k) (set (blocks s) - {(p, n)})) \<and>
      undisturbed s (set (blocks s) - {(p, n)}) s' \<and> (\<forall>i < sz. i + 8 < n \<longrightarrow> mem s' (r + i) = mem s (p + i)))"
  by (rule realloc_blocks [OF assms])

theorem mm_realloc_moves_witness:
  "\<exists>s r s'. heap_ok s \<and> mm_realloc s 24 500 = Inr (r, s') \<and> heap_ok s' \<and> (r = 0 \<or> mem s' (r + 99) = mem s 123)"
proof -
  obtain s0 where s0: "heap_ok s0" "row s0 = [(8, True), (4096, False)]" "base s0 = 16" using start_heap by blast
  then obtain s where s: "heap_ok s" "row s = [(8, True), (112, True), (3984, False)]" "base s = 16"
    using malloc_at [of s0 100 8 "[(8, True), (112, True), (3984, False)]"] by (auto simp: row_malloc_def pieces_def)
  then have "(24, 112) \<in> set (blocks s)" by (simp add: blocks_def)
  from mm_realloc_moves [OF s(1) this, of 500] obtain r s' where "mm_realloc s 24 500 = Inr (r, s')" "heap_ok s'"
    "r = 0 \<or> (\<forall>i < 500. i + 8 < 112 \<longrightarrow> mem s' (r + i) = mem s (24 + i))" by force
  moreover from this(3) have "r = 0 \<or> mem s' (r + 99) = mem s 123" by force
  ultimately show ?thesis using s(1) by blast
qed

text \<open>C40: A request of \<open>2 ^ 32\<close> bytes, on a heap whose last block is free, is answered with a block of eight
  bytes, which has no room between its tags: \<open>mem_sbrk\<close> takes the size as an \<open>int\<close> and the tags hold
  it in 32 bits.\<close>

theorem mm_malloc_too_small:
  assumes "heap_ok s" "row s = us @ [(k, False)]" "mem_brk s + 8 \<le> mem_max_addr s"
  shows "\<exists>s'. mm_malloc s (2 ^ 32) = Inr (base s + bytes us, s') \<and> row s' = us @ [(8, True), (k, False)]"
  by (rule malloc_wrapped [OF assms])

theorem mm_malloc_too_small_witness:
  "\<exists>s s'. heap_ok s \<and> mm_malloc s (2 ^ 32) = Inr (24, s') \<and> row s' = [(8, True), (8, True), (4096, False)]"
proof -
  obtain s where s: "heap_ok s" "row s = [(8, True), (4096, False)]" "base s = 16" "mem_brk s = 4120" "mem_max_addr s = 1048584"
    using start_heap by blast
  then show ?thesis using mm_malloc_too_small [of s "[(8, True)]" 4096] by auto
qed

end
