(* ===== verification/Mm_Check.thy ===== *)
theory Mm_Check
  imports Mm_Props
begin

text \<open>
  The consistency checker of \<^verbatim>\<open>mm.c\<close> and the remaining functions of \<^verbatim>\<open>memlib.c\<close>.  The checker prints;
  its model returns what it prints.  \<open>printblock\<close> calls \<open>checkheap(0)\<close>, which prints no blocks, so \<open>checkheap\<close> is
  built from a version that is given the function that prints a block.
\<close>

section \<open>Definitions\<close>

subsection \<open>memlib.c\<close>

definition mem_reset_brk :: "mm \<Rightarrow> mm" where
  "mem_reset_brk s = s\<lparr>mem_brk := mem_heap s\<rparr>"

definition mem_heap_lo :: "mm \<Rightarrow> nat" where
  "mem_heap_lo s = mem_heap s"

definition mem_heap_hi :: "mm \<Rightarrow> nat" where
  "mem_heap_hi s = mem_brk s - 1"

definition mem_heapsize :: "mm \<Rightarrow> nat" where
  "mem_heapsize s = mem_brk s - mem_heap s"

subsection \<open>mm.c\<close>

datatype mm_msg = Heap_at nat | Misaligned nat | Mismatch | Bad_prologue | Bad_epilogue | EOL nat

definition checkblock :: "mm \<Rightarrow> nat \<Rightarrow> mm_error + mm_msg list" where
  "checkblock s bp =
     andthen (GET s (HDRP bp)) (\<lambda>h. andthen (FTRP s bp) (\<lambda>f. andthen (GET s f) (\<lambda>v.
     Inr ((if bp mod 8 \<noteq> 0 then [Misaligned bp] else []) @ (if h \<noteq> v then [Mismatch] else [])))))"

function check_loop :: "(nat \<Rightarrow> mm_error + mm_msg list) \<Rightarrow> mm \<Rightarrow> nat \<Rightarrow> mm_error + nat \<times> mm_msg list" where
  "check_loop pr s bp =
     andthen (GET_SIZE s (HDRP bp)) (\<lambda>n.
     if n > 0 then
       andthen (pr bp) (\<lambda>o1. andthen (checkblock s bp) (\<lambda>o2.
       andthen (NEXT_BLKP s bp) (\<lambda>np. andthen (check_loop pr s np) (\<lambda>(bp, os). Inr (bp, o1 @ o2 @ os)))))
     else Inr (bp, []))"
  by pat_completeness auto
termination
proof (relation "measure (\<lambda>(pr, s, bp). mem_brk s + 4 - bp)")
  fix pr :: "nat \<Rightarrow> mm_error + mm_msg list" and s :: mm and bp n o1 o2 np
  assume n: "GET_SIZE s (HDRP bp) = Inr n" "0 < n" and "NEXT_BLKP s bp = Inr np"
  then have "bp < np" by (simp add: NEXT_BLKP_def HDRP_def)
  moreover have "bp - WSIZE + 4 \<le> mem_brk s" using GET_SIZE_in_heap [OF n(1)] by (auto simp: in_heap_def HDRP_def)
  ultimately show "((pr, s, np), pr, s, bp) \<in> measure (\<lambda>(pr, s, bp). mem_brk s + 4 - bp)"
    by (simp add: WSIZE_def)
qed simp

declare check_loop.simps [simp del]

definition checkheap_with :: "(nat \<Rightarrow> mm_error + mm_msg list) \<Rightarrow> mm \<Rightarrow> mm_error + mm_msg list" where
  "checkheap_with pr s =
     andthen (GET_SIZE s (HDRP (heap_listp s))) (\<lambda>n. andthen (GET_ALLOC s (HDRP (heap_listp s))) (\<lambda>a.
     andthen (checkblock s (heap_listp s)) (\<lambda>o1.
     andthen (check_loop pr s (heap_listp s)) (\<lambda>(bp, o2).
     andthen (pr bp) (\<lambda>o3.
     andthen (GET_SIZE s (HDRP bp)) (\<lambda>n'. andthen (GET_ALLOC s (HDRP bp)) (\<lambda>a'.
     Inr ((if n \<noteq> DSIZE \<or> a = 0 then [Bad_prologue] else []) @ o1 @ o2 @ o3 @
          (if n' \<noteq> 0 \<or> a' = 0 then [Bad_epilogue] else [])))))))))"

definition printblock :: "mm \<Rightarrow> nat \<Rightarrow> mm_error + mm_msg list" where
  "printblock s bp =
     andthen (checkheap_with (\<lambda>bp. Inr []) s) (\<lambda>os.
     andthen (GET_SIZE s (HDRP bp)) (\<lambda>hsize. andthen (GET_ALLOC s (HDRP bp)) (\<lambda>halloc.
     andthen (FTRP s bp) (\<lambda>f. andthen (GET_SIZE s f) (\<lambda>fsize. andthen (GET_ALLOC s f) (\<lambda>falloc.
     Inr (os @ (if hsize = 0 then [EOL bp] else []))))))))"

definition checkheap :: "int \<Rightarrow> mm \<Rightarrow> mm_error + mm_msg list" where
  "checkheap verbose s =
     (if verbose \<noteq> 0 then andthen (checkheap_with (printblock s) s) (\<lambda>os. Inr (Heap_at (heap_listp s) # os))
      else checkheap_with (\<lambda>bp. Inr []) s)"

section \<open>The checker on a sound heap\<close>

lemma checkblock_ok:
  assumes "heap_lay s (xs @ (n, a) # ys)" "bp = base s + bytes xs"
  shows "checkblock s bp = Inr []"
proof -
  note w = block_words(1,2) [OF assms]
  have "8 dvd bp" using heap_layD(2,3) [OF assms(1)] bytes_dvd [of xs] assms(2) by (simp add: base_def)
  then show ?thesis using w block_reads(3) [OF assms] by (simp add: checkblock_def HDRP_def WSIZE_def mod_eq_0_iff_dvd)
qed

lemma check_loop_ok:
  assumes "\<And>xs n a ys. heap_lay s (xs @ (n, a) # ys) \<Longrightarrow> pr (base s + bytes xs) = Inr []"
  shows "heap_lay s (xs @ ys) \<Longrightarrow> bp = base s + bytes xs \<Longrightarrow> check_loop pr s bp = Inr (mem_brk s, [])"
proof (induction ys arbitrary: xs bp)
  case Nil
  then show ?case using epilogue_reads(1) [of s xs bp] heap_layD(4) [of s xs] by (subst check_loop.simps) simp
next
  case (Cons c ys)
  obtain n b where c: "c = (n, b)" by (cases c)
  have l: "heap_lay s (xs @ (n, b) # ys)" using Cons.prems(1) c by simp
  note r = block_reads [OF l Cons.prems(2)] block_words(4) [OF l Cons.prems(2)]
  have "pr bp = Inr []" using assms [OF l] Cons.prems(2) by simp
  moreover have "check_loop pr s (bp + n) = Inr (mem_brk s, [])"
    using Cons.IH [of "xs @ [(n, b)]" "bp + n"] Cons.prems c by simp
  ultimately show ?case using r checkblock_ok [OF l Cons.prems(2)] by (subst check_loop.simps) simp
qed

lemma checkheap_with_ok:
  assumes "heap_ok s" "\<And>xs n a ys. heap_lay s (xs @ (n, a) # ys) \<Longrightarrow> pr (base s + bytes xs) = Inr []"
    "pr (mem_brk s) = Inr o3"
  shows "checkheap_with pr s = Inr o3"
proof -
  obtain cs where r: "row s = (8, True) # cs" "heap_lay s (row s)" "heap_listp s = base s"
    using assms(1) by (auto simp: heap_ok_def heap_inv_def row_ok_cons)
  have l: "heap_lay s ([] @ (8, True) # cs)" using r by simp
  note b = block_reads(1,2) [OF l refl] and e = epilogue_reads [OF r(2) heap_layD(4) [OF r(2)]]
  have "checkblock s (base s) = Inr []" using checkblock_ok [OF l refl] by simp
  moreover have "check_loop pr s (base s) = Inr (mem_brk s, [])" using check_loop_ok [of s pr "[]" "row s" "base s", OF assms(2)] r by simp
  ultimately show ?thesis using b e r(3) assms(3) by (simp add: checkheap_with_def DSIZE_def)
qed

lemma quiet_check: "heap_ok s \<Longrightarrow> checkheap_with (\<lambda>bp. Inr []) s = Inr []"
  by (rule checkheap_with_ok) simp_all

lemma printblock_block:
  assumes "heap_ok s" "heap_lay s (xs @ (n, a) # ys)"
  shows "printblock s (base s + bytes xs) = Inr []"
  using quiet_check [OF assms(1)] block_reads [OF assms(2) refl] block_words(4) [OF assms(2) refl] by (simp add: printblock_def)

lemma printblock_end:
  assumes "heap_ok s"
  shows "printblock s (mem_brk s) = Inr [EOL (mem_brk s)]"
proof -
  have l: "heap_lay s (row s)" using assms by (simp add: heap_ok_def heap_inv_def)
  note L = heap_layD [OF l] and e = epilogue_reads [OF l L(4)]
  have "8 \<le> bytes (row s)" using L(3) l by (cases "row s") (auto simp: heap_lay_def)
  then have "in_heap s (mem_brk s - 8)" using L(1,4) by (simp add: in_heap_def base_def)
  then show ?thesis using quiet_check [OF assms] e
    by (simp add: printblock_def FTRP_def GET_SIZE_def [of s "mem_brk s - 8"] GET_ALLOC_def [of s "mem_brk s - 8"] GET_def [of s "mem_brk s - 8"] DSIZE_def)
qed

section \<open>Properties\<close>

text \<open>C29: On every heap that calls of the allocator with sizes of at most \<open>2 ^ 32 - 16\<close> bytes can bring about, the checker finds nothing to complain about:
  \<open>checkheap(0)\<close> prints nothing, and a verbose run prints its first line and the end of the list.  The heap
  lies between \<open>mem_heap_lo\<close> and \<open>mem_heap_hi\<close> and has the size that \<open>mem_heapsize\<close> gives.\<close>

theorem mm_checkheap_silent:
  assumes "reach s"
  shows "checkheap verbose s = Inr (if verbose = 0 then [] else [Heap_at (heap_listp s), EOL (mem_brk s)]) \<and>
    mem_heapsize s = 8 + bytes (row s) \<and> (\<forall>(p, n)\<in>set (blocks s). mem_heap_lo s < p \<and> p + n \<le> Suc (mem_heap_hi s))"
proof -
  have h: "heap_ok s" by (rule reach_heap_ok [OF assms])
  have l: "heap_lay s (row s)" using h by (simp add: heap_ok_def heap_inv_def)
  have "checkheap_with (printblock s) s = Inr [EOL (mem_brk s)]"
    by (rule checkheap_with_ok [where pr = "printblock s", OF h]) (simp_all add: printblock_block [OF h] printblock_end [OF h])
  moreover have "mem_heapsize s = 8 + bytes (row s)" using heap_layD(4) [OF l] by (simp add: mem_heapsize_def base_def)
  moreover have "mem_heap_lo s < p \<and> p + n \<le> Suc (mem_heap_hi s)" if "(p, n) \<in> set (blocks s)" for p n
    using blocks_sizes(3-5) [OF h that] by (simp add: mem_heap_lo_def mem_heap_hi_def)
  ultimately show ?thesis using quiet_check [OF h] by (auto simp: checkheap_def)
qed

theorem mm_checkheap_silent_witness: "\<exists>s. reach s \<and> checkheap 0 s = Inr [] \<and> checkheap 1 s = Inr [Heap_at 16, EOL 4120]"
proof -
  obtain s where s: "reach s" "heap_ok s" "base s = 16" "mem_brk s = 4120" using start_heap by blast
  then show ?thesis using mm_checkheap_silent [OF s(1), of 0] mm_checkheap_silent [OF s(1), of 1]
    by (auto simp: heap_ok_def heap_inv_def)
qed

end
