(* ===== verification/Strcli.thy ===== *)
theory Strcli
  imports Prelude
begin

text \<open>
  The client loop of \<^verbatim>\<open>src/c_code/unp/strclinonb.c\<close>, which copies standard input to a socket and
  the socket to standard output with non-blocking calls and two buffers.  One round is one turn of
  the loop.  What the system decides in a round, the record \<open>round\<close>, is the answer of \<open>select\<close>
  (any subset of what was asked; a failed \<open>select\<close> leaves the sets as they are) and the fate of each
  of the four calls: \<open>EWOULDBLOCK\<close>, another error, or a count.  The bytes still to come on standard input
  and on the socket and those written so far are part of the state.  A write to a socket that was
  shut down for writing fails.  The reports on standard error and the calls of \<open>fcntl\<close> before the loop
  are left out.
\<close>

section \<open>Definitions\<close>

text \<open>\<open>MAXLINE\<close> of \<^verbatim>\<open>unp.h\<close>.\<close>

definition UNP_MAXLINE :: nat where "UNP_MAXLINE = 4096"

text \<open>A buffer with the offsets of its two pointers.\<close>

record pump =
  pbuf :: string
  iptr :: nat
  optr :: nat

definition stored :: "string \<Rightarrow> pump \<Rightarrow> pump" where
  "stored s p = p\<lparr>pbuf := overlay (iptr p) s (pbuf p), iptr := iptr p + length s\<rparr>"

definition taken :: "nat \<Rightarrow> pump \<Rightarrow> pump" where
  "taken k p =
     (let p = p\<lparr>optr := optr p + k\<rparr> in
      if optr p = iptr p then p\<lparr>optr := 0, iptr := 0\<rparr> else p)"

definition waiting :: "pump \<Rightarrow> string" where
  "waiting p = segment (optr p) (iptr p - optr p) (pbuf p)"

text \<open>The system calls.\<close>

datatype io = Again | Fails | Count nat

datatype 'a nb = Wouldblock | Broken | Done 'a

definition nb_read :: "io \<Rightarrow> nat \<Rightarrow> string \<Rightarrow> string nb" where
  "nb_read e n left =
     (case e of Again \<Rightarrow> Wouldblock | Fails \<Rightarrow> Broken | Count k \<Rightarrow> Done (take (min n (Suc k)) left))"

definition nb_write :: "io \<Rightarrow> bool \<Rightarrow> string \<Rightarrow> nat nb" where
  "nb_write e shut s =
     (if shut then Broken
      else case e of Again \<Rightarrow> Wouldblock | Fails \<Rightarrow> Broken | Count k \<Rightarrow> Done (min k (length s)))"

record round =
  r_in :: bool
  r_sock :: bool
  w_out :: bool
  w_sock :: bool
  io_in :: io
  io_from :: io
  io_out :: io
  io_to :: io

record cli =
  to_p :: pump
  fr_p :: pump
  stdineof :: bool
  stdin_left :: string
  sock_left :: string
  sock_sent :: string
  out_sent :: string
  shut :: bool

datatype stop = Returned | Err_sys string | Err_quit string

text \<open>The first result tells whether the write set gained a descriptor.\<close>

definition read_stdin :: "round \<Rightarrow> cli \<Rightarrow> (stop \<times> cli) + bool \<times> cli" where
  "read_stdin r c =
     (case nb_read (io_in r) (UNP_MAXLINE - iptr (to_p c)) (stdin_left c) of
        Broken \<Rightarrow> Inl (Err_sys ''read error on stdin'', c)
      | Wouldblock \<Rightarrow> Inr (False, c)
      | Done s \<Rightarrow>
          if s = [] then
            let c = c\<lparr>stdineof := True\<rparr> in
            Inr (False, if optr (to_p c) = iptr (to_p c) then c\<lparr>shut := True\<rparr> else c)
          else Inr (True, c\<lparr>to_p := stored s (to_p c), stdin_left := drop (length s) (stdin_left c)\<rparr>))"

definition read_sock :: "round \<Rightarrow> cli \<Rightarrow> (stop \<times> cli) + bool \<times> cli" where
  "read_sock r c =
     (case nb_read (io_from r) (UNP_MAXLINE - iptr (fr_p c)) (sock_left c) of
        Broken \<Rightarrow> Inl (Err_sys ''read error on socket'', c)
      | Wouldblock \<Rightarrow> Inr (False, c)
      | Done s \<Rightarrow>
          if s = [] then Inl (if stdineof c then Returned else Err_quit ''str_cli:server terminated'', c)
          else Inr (True, c\<lparr>fr_p := stored s (fr_p c), sock_left := drop (length s) (sock_left c)\<rparr>))"

definition write_out :: "round \<Rightarrow> cli \<Rightarrow> (stop \<times> cli) + cli" where
  "write_out r c =
     (case nb_write (io_out r) False (waiting (fr_p c)) of
        Broken \<Rightarrow> Inl (Err_sys ''read error on socket'', c)
      | Wouldblock \<Rightarrow> Inr c
      | Done k \<Rightarrow> Inr (c\<lparr>fr_p := taken k (fr_p c), out_sent := out_sent c @ take k (waiting (fr_p c))\<rparr>))"

definition write_sock :: "round \<Rightarrow> cli \<Rightarrow> (stop \<times> cli) + cli" where
  "write_sock r c =
     (case nb_write (io_to r) (shut c) (waiting (to_p c)) of
        Broken \<Rightarrow> Inl (Err_sys ''read error on socket'', c)
      | Wouldblock \<Rightarrow> Inr c
      | Done k \<Rightarrow>
          let c = c\<lparr>to_p := taken k (to_p c), sock_sent := sock_sent c @ take k (waiting (to_p c))\<rparr> in
          Inr (if stdineof c then c\<lparr>shut := True\<rparr> else c))"

definition str_cli_round :: "round \<Rightarrow> cli \<Rightarrow> (stop \<times> cli) + cli" where
  "str_cli_round r c =
     (let rin = (\<not> stdineof c \<and> iptr (to_p c) \<le> UNP_MAXLINE \<and> r_in r);
          rsock = (iptr (fr_p c) < UNP_MAXLINE \<and> r_sock r);
          wsock = (optr (to_p c) \<noteq> iptr (to_p c) \<and> w_sock r);
          wout = (optr (fr_p c) \<noteq> iptr (fr_p c) \<and> w_out r) in
      andthen (if rin then read_stdin r c else Inr (False, c)) (\<lambda>(b, c).
      let wsock = (wsock \<or> b) in
      andthen (if rsock then read_sock r c else Inr (False, c)) (\<lambda>(b, c).
      let wout = (wout \<or> b) in
      andthen (if wout \<and> optr (fr_p c) < iptr (fr_p c) then write_out r c else Inr c) (\<lambda>c.
      if wsock \<and> optr (to_p c) < iptr (to_p c) then write_sock r c else Inr c))))"

fun str_cli :: "round list \<Rightarrow> cli \<Rightarrow> (stop \<times> cli) + cli" where
  "str_cli [] c = Inr c"
| "str_cli (r # rs) c = andthen (str_cli_round r c) (str_cli rs)"

definition empty_pump :: "string \<Rightarrow> pump" where
  "empty_pump b = \<lparr>pbuf = b, iptr = 0, optr = 0\<rparr>"

text \<open>The buffers hold arbitrary bytes at the start.\<close>

definition str_cli_start :: "string \<Rightarrow> string \<Rightarrow> string \<Rightarrow> string \<Rightarrow> cli" where
  "str_cli_start b1 b2 inp peer =
     \<lparr>to_p = empty_pump b1, fr_p = empty_pump b2, stdineof = False, stdin_left = inp, sock_left = peer,
      sock_sent = [], out_sent = [], shut = False\<rparr>"

section \<open>The buffers are queues\<close>

definition pump_ok :: "pump \<Rightarrow> bool" where
  "pump_ok p \<longleftrightarrow> length (pbuf p) = UNP_MAXLINE \<and> optr p \<le> iptr p \<and> iptr p \<le> UNP_MAXLINE"

text \<open>What the loop relies on of a buffer.\<close>

locale byte_queue =
  fixes ok :: "'q \<Rightarrow> bool" and cont :: "'q \<Rightarrow> string" and room :: "'q \<Rightarrow> nat"
    and fill :: "string \<Rightarrow> 'q \<Rightarrow> 'q" and drain :: "nat \<Rightarrow> 'q \<Rightarrow> 'q"
  assumes fill_law: "ok q \<Longrightarrow> length s \<le> room q \<Longrightarrow> ok (fill s q) \<and> cont (fill s q) = cont q @ s"
    and drain_law: "ok q \<Longrightarrow> k \<le> length (cont q) \<Longrightarrow> ok (drain k q) \<and> cont (drain k q) = drop k (cont q)"
begin

text \<open>Moving bytes through the queue keeps the stream of what went out, what waits and what is to come.\<close>

lemma fill_stream:
  assumes "ok q" "length s \<le> room q" "left = s @ rest"
  shows "ok (fill s q) \<and> out @ cont (fill s q) @ rest = out @ cont q @ left"
  using fill_law [OF assms(1,2)] assms(3) by simp

lemma drain_stream:
  assumes "ok q" "k \<le> length (cont q)"
  shows "ok (drain k q) \<and> (out @ take k (cont q)) @ cont (drain k q) @ left = out @ cont q @ left"
  using drain_law [OF assms] by simp

end

lemma length_waiting: "pump_ok p \<Longrightarrow> length (waiting p) = iptr p - optr p"
  by (auto simp: waiting_def pump_ok_def)

lemma segment_add: "segment off (m + n) f = segment off m f @ segment (off + m) n f"
  by (simp add: segment_def take_add add.commute)

interpretation pumps: byte_queue pump_ok waiting "\<lambda>p. UNP_MAXLINE - iptr p" stored taken
proof
  fix p :: pump and s :: string
  assume p: "pump_ok p" and s: "length s \<le> UNP_MAXLINE - iptr p"
  have len: "length (overlay (iptr p) s (pbuf p)) = UNP_MAXLINE"
    using p s by (cases "s = []") (auto simp: length_overlay overlay_def pump_ok_def)
  have "segment (optr p) (iptr p - optr p) (overlay (iptr p) s (pbuf p)) = waiting p"
    using p s unfolding waiting_def by (intro segment_overlay_other) (auto simp: pump_ok_def)
  moreover have "segment (iptr p) (length s) (overlay (iptr p) s (pbuf p)) = s"
    using p s by (intro segment_overlay_same) (auto simp: pump_ok_def)
  moreover have "segment (optr p) (iptr p + length s - optr p) b =
      segment (optr p) (iptr p - optr p) b @ segment (iptr p) (length s) b" for b :: string
    using segment_add [of "optr p" "iptr p - optr p" "length s" b] p by (simp add: pump_ok_def)
  ultimately show "pump_ok (stored s p) \<and> waiting (stored s p) = waiting p @ s"
    using p s len by (auto simp: stored_def pump_ok_def waiting_def)
next
  fix p :: pump and k
  assume p: "pump_ok p" and k: "k \<le> length (waiting p)"
  then have "k \<le> iptr p - optr p" by (simp add: length_waiting)
  then show "pump_ok (taken k p) \<and> waiting (taken k p) = drop k (waiting p)"
    using p by (auto simp: taken_def Let_def pump_ok_def waiting_def segment_def drop_take add.commute)
qed

section \<open>The invariant of the loop\<close>

definition cli_ok :: "string \<Rightarrow> string \<Rightarrow> cli \<Rightarrow> bool" where
  "cli_ok inp peer c \<longleftrightarrow>
     pump_ok (to_p c) \<and> pump_ok (fr_p c) \<and> sock_sent c @ waiting (to_p c) @ stdin_left c = inp \<and>
     out_sent c @ waiting (fr_p c) @ sock_left c = peer"

text \<open>The state a run ends in or has reached.\<close>

definition final :: "(stop \<times> cli) + cli \<Rightarrow> cli" where
  "final x = (case x of Inl (e, c) \<Rightarrow> c | Inr c \<Rightarrow> c)"

lemma final_simps [simp]: "final (Inl (e, c)) = c" "final (Inr c) = c"
  by (simp_all add: final_def)

lemma nb_read_Done: "nb_read e n left = Done s \<Longrightarrow> length s \<le> n \<and> left = s @ drop (length s) left"
proof -
  assume "nb_read e n left = Done s"
  then obtain k where "s = take (min n (Suc k)) left" by (auto simp: nb_read_def split: io.splits)
  then show ?thesis by (auto simp: append_eq_conv_conj min_def)
qed

lemma nb_write_Done: "nb_write e b s = Done k \<Longrightarrow> k \<le> length s"
  by (auto simp: nb_write_def split: io.splits if_splits)

lemma read_stdin_ok:
  assumes "cli_ok inp peer c"
  shows "case read_stdin r c of Inl (e, c') \<Rightarrow> cli_ok inp peer c' | Inr (b, c') \<Rightarrow> cli_ok inp peer c'"
proof (cases "nb_read (io_in r) (UNP_MAXLINE - iptr (to_p c)) (stdin_left c)")
  case (Done s)
  note d = nb_read_Done [OF Done]
  show ?thesis
    using assms Done pumps.fill_stream [of "to_p c" s "stdin_left c" "drop (length s) (stdin_left c)" "sock_sent c"] d
    by (auto simp: read_stdin_def cli_ok_def Let_def)
qed (use assms in \<open>simp_all add: read_stdin_def\<close>)

lemma read_sock_ok:
  assumes "cli_ok inp peer c"
  shows "case read_sock r c of Inl (e, c') \<Rightarrow> cli_ok inp peer c' | Inr (b, c') \<Rightarrow> cli_ok inp peer c'"
proof (cases "nb_read (io_from r) (UNP_MAXLINE - iptr (fr_p c)) (sock_left c)")
  case (Done s)
  note d = nb_read_Done [OF Done]
  show ?thesis
    using assms Done pumps.fill_stream [of "fr_p c" s "sock_left c" "drop (length s) (sock_left c)" "out_sent c"] d
    by (auto simp: read_sock_def cli_ok_def Let_def)
qed (use assms in \<open>simp_all add: read_sock_def\<close>)

lemma write_out_ok: "cli_ok inp peer c \<Longrightarrow> cli_ok inp peer (final (write_out r c))"
  using pumps.drain_stream [of "fr_p c" _ "out_sent c" "sock_left c"] nb_write_Done [of "io_out r" False "waiting (fr_p c)"]
  by (cases "nb_write (io_out r) False (waiting (fr_p c))") (auto simp: write_out_def cli_ok_def)

lemma write_sock_ok: "cli_ok inp peer c \<Longrightarrow> cli_ok inp peer (final (write_sock r c))"
  using pumps.drain_stream [of "to_p c" _ "sock_sent c" "stdin_left c"] nb_write_Done [of "io_to r" "shut c" "waiting (to_p c)"]
  by (cases "nb_write (io_to r) (shut c) (waiting (to_p c))") (auto simp: write_sock_def cli_ok_def Let_def)

text \<open>A property kept by each of the four calls is kept by a round, and by the loop.\<close>

lemma keeps_andthen: "P (final x) \<Longrightarrow> (\<And>c. P c \<Longrightarrow> P (final (f c))) \<Longrightarrow> P (final (andthen x f))"
  by (cases x) auto

lemma keeps_pair:
  "(case x of Inl (e, c') \<Rightarrow> P c' | Inr (b, c') \<Rightarrow> P c') \<Longrightarrow> (\<And>b c. P c \<Longrightarrow> P (final (f (b, c)))) \<Longrightarrow> P (final (andthen x f))"
  by (cases x) auto

lemma round_keeps:
  assumes "P c"
    and "P c \<Longrightarrow> \<not> stdineof c \<Longrightarrow> case read_stdin r c of Inl (e, c') \<Rightarrow> P c' | Inr (b, c') \<Rightarrow> P c'"
    and "\<And>c. P c \<Longrightarrow> case read_sock r c of Inl (e, c') \<Rightarrow> P c' | Inr (b, c') \<Rightarrow> P c'"
    and "\<And>c. P c \<Longrightarrow> P (final (write_out r c))" "\<And>c. P c \<Longrightarrow> P (final (write_sock r c))"
  shows "P (final (str_cli_round r c))"
proof -
  have 1: "case (if \<not> stdineof c \<and> q then read_stdin r c else Inr (False, c)) of Inl (e, c') \<Rightarrow> P c' | Inr (b, c') \<Rightarrow> P c'" for q
    using assms(1,2) by simp
  have 2: "case (if q then read_sock r c else Inr (False, c)) of Inl (e, c') \<Rightarrow> P c' | Inr (b, c') \<Rightarrow> P c'" if "P c" for q c
    using that assms(3) by simp
  have 3: "P (final (if q then write_out r c else Inr c))" "P (final (if q then write_sock r c else Inr c))" if "P c" for q c
    using that assms(4,5) by simp_all
  show ?thesis unfolding str_cli_round_def Let_def
    by (rule keeps_pair [where P = P, OF 1], simp only: prod.case, rule keeps_pair [where P = P, OF 2], assumption, simp only: prod.case,
        rule keeps_andthen [where P = P, OF 3(1)], assumption, rule 3(2), assumption)
qed

lemma str_cli_run_keeps: "(\<And>r c. P c \<Longrightarrow> P (final (str_cli_round r c))) \<Longrightarrow> P c \<Longrightarrow> P (final (str_cli rs c))"
proof (induction rs arbitrary: c)
  case (Cons r rs)
  have "P (final (str_cli_round r c))" using Cons.prems by blast
  then show ?case using Cons.IH Cons.prems(1) by (cases "str_cli_round r c") (auto simp: final_def)
qed simp

lemma nothing_read: "stdineof c \<and> stdin_left c = l \<Longrightarrow> stdineof (final (str_cli rs c)) \<and> stdin_left (final (str_cli rs c)) = l"
proof (rule str_cli_run_keeps)
  fix r and c :: cli
  assume e: "stdineof c \<and> stdin_left c = l"
  then show "stdineof (final (str_cli_round r c)) \<and> stdin_left (final (str_cli_round r c)) = l"
    by (rule round_keeps) (auto simp: read_sock_def write_out_def write_sock_def Let_def split: nb.splits)
qed

lemma nothing_sent: "shut c \<and> sock_sent c = l \<Longrightarrow> shut (final (str_cli rs c)) \<and> sock_sent (final (str_cli rs c)) = l"
proof (rule str_cli_run_keeps)
  fix r and c :: cli
  assume "shut c \<and> sock_sent c = l"
  then show "shut (final (str_cli_round r c)) \<and> sock_sent (final (str_cli_round r c)) = l"
    by (rule round_keeps) (auto simp: read_stdin_def read_sock_def write_out_def write_sock_def nb_write_def Let_def split: nb.splits io.splits)
qed

section \<open>A patient peer\<close>

text \<open>All descriptors ready, reads and writes that transfer whatever they can, and a server that is
  silent until it has seen the end of the input.\<close>

definition eager :: "round \<Rightarrow> bool" where
  "eager r \<longleftrightarrow> r_in r \<and> (\<exists>k. io_in r = Count k \<and> UNP_MAXLINE \<le> Suc k) \<and> (\<exists>k. io_to r = Count k \<and> UNP_MAXLINE \<le> k) \<and> io_from r = Again"

text \<open>The states between the rounds: nothing waits, and the rest of the input is still to come.\<close>

definition drained :: "cli \<Rightarrow> bool" where
  "drained c \<longleftrightarrow> iptr (to_p c) = 0 \<and> optr (to_p c) = 0 \<and> length (pbuf (to_p c)) = UNP_MAXLINE \<and> iptr (fr_p c) = optr (fr_p c)"

lemma eager_round:
  assumes e: "eager r" and d: "drained c" "\<not> stdineof c" "\<not> shut c" and left: "stdin_left c \<noteq> []"
  defines "s \<equiv> take UNP_MAXLINE (stdin_left c)"
  shows "\<exists>c'. str_cli_round r c = Inr c' \<and> drained c' \<and> \<not> stdineof c' \<and> \<not> shut c' \<and>
    sock_sent c' = sock_sent c @ s \<and> stdin_left c' = drop UNP_MAXLINE (stdin_left c)"
proof -
  obtain k k' where k: "io_in r = Count k" "UNP_MAXLINE \<le> Suc k" "io_to r = Count k'" "UNP_MAXLINE \<le> k'" "r_in r" "io_from r = Again"
    using e by (auto simp: eager_def)
  have s: "s \<noteq> []" "length s \<le> UNP_MAXLINE" using left by (auto simp: s_def UNP_MAXLINE_def)
  have dr: "drop (length s) (stdin_left c) = drop UNP_MAXLINE (stdin_left c)" by (simp add: s_def min_def)
  let ?c = "c\<lparr>to_p := stored s (to_p c), stdin_left := drop UNP_MAXLINE (stdin_left c)\<rparr>"
  have rd: "read_stdin r c = Inr (True, ?c)"
    using k s(1) d(1) dr by (simp add: read_stdin_def nb_read_def drained_def min_absorb1 s_def)
  have rs: "read_sock r ?c = Inr (False, ?c)" using k(6) by (simp add: read_sock_def nb_read_def)
  have ok: "pump_ok (to_p c)" "waiting (to_p c) = []" using d(1) by (simp_all add: drained_def pump_ok_def waiting_def segment_def)
  have f: "waiting (stored s (to_p c)) = s" "pump_ok (stored s (to_p c))"
    using pumps.fill_law [OF ok(1), of s] s(2) d(1) ok(2) by (simp_all add: drained_def)
  have p: "iptr (stored s (to_p c)) = length s" "optr (stored s (to_p c)) = 0" using d(1) by (simp_all add: stored_def drained_def)
  let ?d = "?c\<lparr>to_p := taken (length s) (stored s (to_p c)), sock_sent := sock_sent c @ s\<rparr>"
  have wr: "write_sock r ?c = Inr ?d"
    using k(3,4) s(2) d(2,3) f(1) by (simp add: write_sock_def nb_write_def Let_def min_absorb2)
  have "str_cli_round r c = Inr ?d"
    using rd rs wr k(5) d s(1) p by (simp add: str_cli_round_def drained_def Let_def UNP_MAXLINE_def)
  moreover have "drained ?d" using f(2) p d(1) by (simp add: drained_def taken_def Let_def pump_ok_def)
  ultimately show ?thesis using d by auto
qed

lemma eager_end:
  assumes e: "eager r" and d: "drained c" "\<not> stdineof c" "stdin_left c = []"
  shows "str_cli_round r c = Inr (c\<lparr>stdineof := True, shut := True\<rparr>)"
  using assms by (auto simp: eager_def drained_def str_cli_round_def read_stdin_def read_sock_def nb_read_def Let_def)

lemma eager_after:
  assumes "eager r" "drained c" "stdineof c"
  shows "str_cli_round r c = Inr c"
  using assms by (auto simp: eager_def drained_def str_cli_round_def read_sock_def nb_read_def Let_def)

lemma eager_rest: "\<forall>r\<in>set rs. eager r \<Longrightarrow> drained c \<Longrightarrow> stdineof c \<Longrightarrow> str_cli rs c = Inr c"
  by (induction rs) (auto simp: eager_after)

lemma eager_run:
  assumes "\<forall>r\<in>set rs. eager r" "length (stdin_left c) + UNP_MAXLINE \<le> UNP_MAXLINE * length rs" "drained c" "\<not> stdineof c" "\<not> shut c"
  shows "\<exists>c'. str_cli rs c = Inr c' \<and> stdineof c' \<and> shut c' \<and> sock_sent c' = sock_sent c @ stdin_left c"
  using assms
proof (induction rs arbitrary: c)
  case (Cons r rs)
  show ?case
  proof (cases "stdin_left c = []")
    case True
    let ?c = "c\<lparr>stdineof := True, shut := True\<rparr>"
    have "str_cli_round r c = Inr ?c" using eager_end Cons.prems True by simp
    moreover have "str_cli rs ?c = Inr ?c" using Cons.prems by (intro eager_rest) (auto simp: drained_def)
    ultimately show ?thesis using True by simp
  next
    case False
    obtain c' where c': "str_cli_round r c = Inr c'" "drained c'" "\<not> stdineof c'" "\<not> shut c'"
        "sock_sent c' = sock_sent c @ take UNP_MAXLINE (stdin_left c)" "stdin_left c' = drop UNP_MAXLINE (stdin_left c)"
      using eager_round [OF _ Cons.prems(3-5) False] Cons.prems(1) by auto
    have "0 < length (stdin_left c)" using False by simp
    then have "length (stdin_left c') + UNP_MAXLINE \<le> UNP_MAXLINE * length rs"
      using Cons.prems(2) c'(6) by (cases "length rs") (auto simp: UNP_MAXLINE_def)
    from Cons.IH [OF _ this c'(2-4)] Cons.prems(1) c' show ?thesis by auto
  qed
qed (simp add: UNP_MAXLINE_def)

section \<open>Properties\<close>

text \<open>C12: Whatever the system decides in whatever number of rounds, the bytes sent to the socket are a
  prefix of standard input and the bytes sent to standard output a prefix of what the server sent, in
  both directions with the bytes in between in the buffer, and no pointer leaves its buffer.\<close>

theorem str_cli_copies:
  assumes "length b1 = UNP_MAXLINE" "length b2 = UNP_MAXLINE"
  shows "let c = final (str_cli rs (str_cli_start b1 b2 inp peer)) in
    pump_ok (to_p c) \<and> pump_ok (fr_p c) \<and> sock_sent c @ waiting (to_p c) @ stdin_left c = inp \<and>
    out_sent c @ waiting (fr_p c) @ sock_left c = peer"
proof -
  have "cli_ok inp peer (final (str_cli_round r c))" if "cli_ok inp peer c" for r c
    using that by (rule round_keeps) (simp_all add: read_stdin_ok read_sock_ok write_out_ok write_sock_ok)
  moreover have "cli_ok inp peer (str_cli_start b1 b2 inp peer)"
    using assms(1,2) by (simp add: cli_ok_def str_cli_start_def empty_pump_def pump_ok_def waiting_def segment_def)
  ultimately have "cli_ok inp peer (final (str_cli rs (str_cli_start b1 b2 inp peer)))" by (rule str_cli_run_keeps)
  then show ?thesis by (simp add: cli_ok_def Let_def)
qed

theorem str_cli_copies_witness:
  "\<forall>rs. let c = final (str_cli rs (str_cli_start (replicate UNP_MAXLINE NUL) (replicate UNP_MAXLINE NUL) ''hello'' ''world'')) in
     sock_sent c @ waiting (to_p c) @ stdin_left c = ''hello'' \<and> out_sent c @ waiting (fr_p c) @ sock_left c = ''world''"
  using str_cli_copies [of "replicate UNP_MAXLINE NUL" "replicate UNP_MAXLINE NUL" _ "''hello''" "''world''"] by (simp add: Let_def)

text \<open>C27: With descriptors that are ready, calls that transfer what they can and a server that waits for the
  end of the input, the loop sends all of standard input and then shuts the socket down, in one round
  more than the input has buffers.\<close>

theorem str_cli_delivers:
  assumes "length b1 = UNP_MAXLINE" "\<forall>r\<in>set rs. eager r" "length inp + UNP_MAXLINE \<le> UNP_MAXLINE * length rs"
  shows "\<exists>c. str_cli rs (str_cli_start b1 b2 inp peer) = Inr c \<and> stdineof c \<and> shut c \<and> sock_sent c = inp"
  using eager_run [OF assms(2), of "str_cli_start b1 b2 inp peer"] assms(1,3) by (simp add: str_cli_start_def empty_pump_def drained_def)

definition eager_one :: round where
  "eager_one = \<lparr>r_in = True, r_sock = False, w_out = True, w_sock = True, io_in = Count 5000, io_from = Again, io_out = Again, io_to = Count 5000\<rparr>"

theorem str_cli_delivers_witness:
  "\<exists>c. str_cli [eager_one, eager_one] (str_cli_start (replicate UNP_MAXLINE NUL) [] ''hello'' []) = Inr c \<and> stdineof c \<and> shut c \<and> sock_sent c = ''hello''"
  by (rule str_cli_delivers) (simp_all add: eager_def eager_one_def UNP_MAXLINE_def)

text \<open>When the buffer for the socket is full, standard input is still polled; reading zero bytes counts as
  the end of the input, and what is left of the input is never read.\<close>

theorem str_cli_full_buffer_ends_input:
  assumes "\<not> stdineof c" "iptr (to_p c) = UNP_MAXLINE" "r_in r" "io_in r = Count k"
  shows "stdineof (final (str_cli (r # rs) c)) \<and> stdin_left (final (str_cli (r # rs) c)) = stdin_left c"
proof -
  have rd: "read_stdin r c = Inr (False, if optr (to_p c) = iptr (to_p c) then c\<lparr>stdineof := True, shut := True\<rparr> else c\<lparr>stdineof := True\<rparr>)"
    using assms by (simp add: read_stdin_def nb_read_def Let_def)
  let ?P = "\<lambda>d. stdineof d \<and> stdin_left d = stdin_left c"
  have io: "case (if q then read_sock r d else Inr (False, d)) of Inl (e, c') \<Rightarrow> ?P c' | Inr (b, c') \<Rightarrow> ?P c'"
    "?P (final (if q then write_out r d else Inr d))" "?P (final (if q then write_sock r d else Inr d))" if "?P d" for d q
    using that by (auto simp: read_sock_def write_out_def write_sock_def Let_def split: nb.splits)
  have "?P (final (str_cli_round r c))" unfolding str_cli_round_def Let_def
  proof (rule keeps_pair [where P = ?P], goal_cases)
    case 1
    then show ?case using rd assms(1-3) by simp
  next
    case (2 b d)
    show ?case by (simp only: prod.case, rule keeps_pair [where P = ?P, OF io(1) [OF 2]], simp only: prod.case,
        rule keeps_andthen [where P = ?P, OF io(2)], assumption, rule io(3), assumption)
  qed
  then show ?thesis using nothing_read [where l = "stdin_left c"] by (cases "str_cli_round r c") (auto simp: final_def)
qed

definition stalled :: round where
  "stalled = \<lparr>r_in = True, r_sock = False, w_out = False, w_sock = True, io_in = Count 5000, io_from = Again, io_out = Again, io_to = Again\<rparr>"

theorem str_cli_full_buffer_ends_input_witness:
  "\<forall>rs. stdin_left (final (str_cli (stalled # stalled # rs)
     (str_cli_start (replicate UNP_MAXLINE NUL) [] (replicate 5000 (CHR ''x'')) []))) = replicate 904 (CHR ''x'')"
proof
  fix rs
  let ?c = "str_cli_start (replicate UNP_MAXLINE NUL) [] (replicate 5000 (CHR ''x'')) []"
  obtain d where d: "str_cli_round stalled ?c = Inr d" "\<not> stdineof d" "iptr (to_p d) = UNP_MAXLINE" "stdin_left d = replicate 904 (CHR ''x'')"
    by (simp add: str_cli_round_def read_stdin_def write_sock_def nb_read_def nb_write_def stalled_def str_cli_start_def empty_pump_def
        stored_def Let_def UNP_MAXLINE_def)
  then have "stdin_left (final (str_cli (stalled # rs) d)) = replicate 904 (CHR ''x'')"
    using str_cli_full_buffer_ends_input [of d stalled 5000 rs] by (simp add: stalled_def)
  then show "stdin_left (final (str_cli (stalled # stalled # rs) ?c)) = replicate 904 (CHR ''x'')" using d(1) by simp
qed

text \<open>Once standard input has ended, the first write that leaves bytes in the buffer shuts the socket down
  all the same, and the rest of the input is never sent.\<close>

theorem str_cli_shuts_down_early:
  assumes "stdineof c" "\<not> shut c" "pump_ok (to_p c)" "\<not> r_sock r" "w_sock r" "io_to r = Count k" "k < length (waiting (to_p c))" "io_out r = Again"
  shows "sock_sent (final (str_cli (r # rs) c)) = sock_sent c @ take k (waiting (to_p c))"
proof -
  have p: "optr (to_p c) < iptr (to_p c)" using assms(7) length_waiting [OF assms(3)] by simp
  let ?c = "c\<lparr>to_p := taken k (to_p c), sock_sent := sock_sent c @ take k (waiting (to_p c)), shut := True\<rparr>"
  have "str_cli_round r c = Inr ?c"
    using assms p by (simp add: str_cli_round_def write_sock_def write_out_def nb_write_def Let_def)
  then show ?thesis using nothing_sent [of ?c "sock_sent c @ take k (waiting (to_p c))" rs] by simp
qed

theorem str_cli_shuts_down_early_witness:
  "\<forall>rs. sock_sent (final (str_cli (stalled # stalled # stalled\<lparr>io_to := Count 2\<rparr> # rs)
     (str_cli_start (replicate UNP_MAXLINE NUL) (replicate UNP_MAXLINE NUL) ''hello'' []))) = ''he''"
proof
  fix rs
  let ?c = "str_cli_start (replicate UNP_MAXLINE NUL) (replicate UNP_MAXLINE NUL) ''hello'' []"
  obtain d where d: "str_cli [stalled, stalled] ?c = Inr d" "stdineof d" "\<not> shut d" "pump_ok (to_p d)" "waiting (to_p d) = ''hello''" "sock_sent d = []"
    by (simp add: str_cli_round_def read_stdin_def write_sock_def nb_read_def nb_write_def stalled_def str_cli_start_def empty_pump_def
        stored_def Let_def UNP_MAXLINE_def overlay_def pump_ok_def waiting_def segment_def)
  have "sock_sent (final (str_cli (stalled\<lparr>io_to := Count 2\<rparr> # rs) d)) = ''he''"
    using str_cli_shuts_down_early [of d "stalled\<lparr>io_to := Count 2\<rparr>" 2 rs] d by (simp add: stalled_def)
  then show "sock_sent (final (str_cli (stalled # stalled # stalled\<lparr>io_to := Count 2\<rparr> # rs) ?c)) = ''he''"
    using d(1) by (auto simp: andthen_Inr_iff)
qed

end
