(* ===== verification/Web.thy ===== *)
theory Web
  imports Prelude
begin

text \<open>
  The web client of \<^verbatim>\<open>src/c_code/unp/web/web.c\<close>: it fetches a home page and then up to twenty files over
  at most \<open>maxnconn\<close> connections at a time, with non-blocking connects and one loop around \<open>select\<close>.
  A turn of the loop is a \<open>wround\<close>: what \<open>socket\<close> and \<open>connect\<close> answer to the connections it starts, what
  \<open>select\<close> reports (any part of what was asked; a failed \<open>select\<close> leaves the sets as they are), which
  sockets carry an error and what \<open>read\<close> returns on a descriptor.  What the program prints and does with
  its connections is recorded in \<open>wlog\<close>.  The resolution of the host name is left out; the result of
  \<open>writen\<close> is ignored, as the program does.
\<close>

unbundle bit_operations_syntax

section \<open>Definitions\<close>

definition F_CONNECTING :: nat where "F_CONNECTING = 1"
definition F_READING :: nat where "F_READING = 2"
definition F_DONE :: nat where "F_DONE = 4"
definition MAXFILES :: nat where "MAXFILES = 20"
definition WEB_MAXLINE :: nat where "WEB_MAXLINE = 4096"

record wfile =
  f_name :: string
  f_fd :: int
  f_flags :: nat

datatype wevent =
    Home string
  | HomeRead int
  | HomeEof
  | Started nat int
  | Wrote nat int string
  | Failed nat
  | Established nat
  | Eof nat
  | ReadBytes nat int

text \<open>\<open>Blocked\<close> is a read that never returns, \<open>Crash\<close> the use of an argument that was not given.\<close>

datatype werror = Connect_error | Nothing_found | Overread | Blocked | Crash

record web =
  files :: "wfile list"
  nconn :: int
  nlefttoconn :: int
  nlefttoread :: int
  maxfd :: int
  rset :: "int set"
  wset :: "int set"
  wlog :: "wevent list"

datatype connection = Connected | InProgress | Refused

record wround =
  conns :: "nat \<Rightarrow> int \<times> connection"
  rs_ready :: "int set"
  ws_ready :: "int set"
  sock_error :: "int \<Rightarrow> bool"
  got :: "int \<Rightarrow> int"

definition CRNL :: string where "CRNL = [CHR 0x0D, NL]"

definition GET_CMD :: "string \<Rightarrow> string" where
  "GET_CMD name = ''GET '' @ name @ '' HTTP/1.0'' @ CRNL @ CRNL"

definition logged :: "wevent \<Rightarrow> web \<Rightarrow> web" where
  "logged e w = w\<lparr>wlog := wlog w @ [e]\<rparr>"

text \<open>\<open>snprintf\<close> returns the length the text would have had, and \<open>writen\<close> reads that many bytes of \<open>line\<close>.\<close>

definition write_get_cmd :: "nat \<Rightarrow> web \<Rightarrow> werror + web" where
  "write_get_cmd i w =
     (let f = files w ! i; line = GET_CMD (f_name f) in
      if WEB_MAXLINE \<le> length line then Inl Overread
      else
        let w = logged (Wrote i (f_fd f) line) w in
        Inr (w\<lparr>files := (files w)[i := f\<lparr>f_flags := F_READING\<rparr>], rset := insert (f_fd f) (rset w), maxfd := max (maxfd w) (f_fd f)\<rparr>))"

definition start_connect :: "nat \<Rightarrow> int \<times> connection \<Rightarrow> web \<Rightarrow> werror + web" where
  "start_connect i a w =
     (let fd = fst a;
          w = logged (Started i fd) (w\<lparr>files := (files w)[i := (files w ! i)\<lparr>f_fd := fd\<rparr>]\<rparr>) in
      case snd a of
        Refused \<Rightarrow> Inl Connect_error
      | InProgress \<Rightarrow>
          Inr (w\<lparr>files := (files w)[i := (files w ! i)\<lparr>f_flags := F_CONNECTING\<rparr>], rset := insert fd (rset w), wset := insert fd (wset w),
                 maxfd := max (maxfd w) fd\<rparr>)
      | Connected \<Rightarrow> write_get_cmd i w)"

text \<open>The index of the first file without connection, or their number.\<close>

fun first_idle :: "wfile list \<Rightarrow> nat" where
  "first_idle [] = 0"
| "first_idle (f # fs) = (if f_flags f = 0 then 0 else Suc (first_idle fs))"

text \<open>\<open>k\<close> counts the connections started in this turn.\<close>

function connect_loop :: "int \<Rightarrow> wround \<Rightarrow> nat \<Rightarrow> web \<Rightarrow> werror + web" where
  "connect_loop maxnconn r k w =
     (if nconn w < maxnconn \<and> 0 < nlefttoconn w then
        let i = first_idle (files w) in
        if i = length (files w) then Inl Nothing_found
        else
          andthen (start_connect i (conns r k) w) (\<lambda>w'.
          connect_loop maxnconn r (Suc k) (w'\<lparr>nconn := nconn w + 1, nlefttoconn := nlefttoconn w - 1\<rparr>))
      else Inr w)"
  by pat_completeness auto
termination by (relation "measure (\<lambda>(_, _, _, w). nat (nlefttoconn w))") auto

declare connect_loop.simps [simp del]

definition check_file :: "wround \<Rightarrow> int set \<Rightarrow> int set \<Rightarrow> nat \<Rightarrow> web \<Rightarrow> werror + web" where
  "check_file r rs ws i w =
     (let f = files w ! i; fd = f_fd f in
      if f_flags f = 0 \<or> f_flags f AND F_DONE \<noteq> 0 then Inr w
      else if f_flags f AND F_CONNECTING \<noteq> 0 \<and> (fd \<in> rs \<or> fd \<in> ws) then
        let w = (if sock_error r fd then logged (Failed i) w else w);
            w = logged (Established i) w in
        write_get_cmd i (w\<lparr>wset := wset w - {fd}\<rparr>)
      else if f_flags f AND F_READING \<noteq> 0 \<and> fd \<in> rs then
        if got r fd = 0 then
          Inr (logged (Eof i) (w\<lparr>files := (files w)[i := f\<lparr>f_flags := F_DONE\<rparr>], rset := rset w - {fd}, nconn := nconn w - 1,
                                nlefttoread := nlefttoread w - 1\<rparr>))
        else Inr (logged (ReadBytes i (got r fd)) w)
      else Inr w)"

fun check_files :: "wround \<Rightarrow> int set \<Rightarrow> int set \<Rightarrow> nat list \<Rightarrow> web \<Rightarrow> werror + web" where
  "check_files r rs ws [] w = Inr w"
| "check_files r rs ws (i # is) w = andthen (check_file r rs ws i w) (check_files r rs ws is)"

definition web_round :: "int \<Rightarrow> wround \<Rightarrow> web \<Rightarrow> werror + web" where
  "web_round maxnconn r w =
     andthen (connect_loop maxnconn r 0 w) (\<lambda>w.
     check_files r (rset w \<inter> rs_ready r) (wset w \<inter> ws_ready r) [0..<length (files w)] w)"

text \<open>The loop of \<open>main\<close> for the turns listed: the first component tells whether it has ended.\<close>

fun web_loop :: "int \<Rightarrow> wround list \<Rightarrow> web \<Rightarrow> werror + bool \<times> web" where
  "web_loop maxnconn [] w = Inr (\<not> 0 < nlefttoread w, w)"
| "web_loop maxnconn (r # rs) w =
     (if 0 < nlefttoread w then andthen (web_round maxnconn r w) (web_loop maxnconn rs) else Inr (True, w))"

text \<open>What \<open>read\<close> returns for the home page, up to the end of file; an error is reported like a count.\<close>

fun home_reads :: "int list \<Rightarrow> werror + wevent list" where
  "home_reads [] = Inl Blocked"
| "home_reads (n # ns) =
     (if n = 0 then Inr [HomeEof] else andthen (home_reads ns) (\<lambda>es. Inr (HomeRead n # es)))"

definition home_page :: "string \<Rightarrow> int list \<Rightarrow> werror + wevent list" where
  "home_page fname ns =
     (let line = GET_CMD fname in
      if WEB_MAXLINE \<le> length line then Inl Overread
      else andthen (home_reads ns) (\<lambda>es. Inr (Home line # es)))"

definition web_init :: "string list \<Rightarrow> wevent list \<Rightarrow> web" where
  "web_init names es =
     \<lparr>files = map (\<lambda>s. \<lparr>f_name = s, f_fd = 0, f_flags = 0\<rparr>) names, nconn = 0, nlefttoconn = int (length names),
      nlefttoread = int (length names), maxfd = - 1, rset = {}, wset = {}, wlog = es\<rparr>"

definition maxnconn_arg :: "string list \<Rightarrow> int" where
  "maxnconn_arg argv = atoi (argv ! 1)"

definition web_main :: "string list \<Rightarrow> int list \<Rightarrow> wround list \<Rightarrow> werror + bool \<times> web" where
  "web_main argv home rounds =
     (if length argv < 4 then Inl Crash
      else
        andthen (home_page (argv ! 3) home) (\<lambda>es.
        web_loop (maxnconn_arg argv) rounds (web_init (take MAXFILES (drop 4 argv)) es)))"

section \<open>The counters\<close>

definition number :: "(nat \<Rightarrow> bool) \<Rightarrow> wfile list \<Rightarrow> int" where
  "number P fs = int (length (filter (\<lambda>f. P (f_flags f)) fs))"

text \<open>Every file is in one of four states, and the counters count them.\<close>

definition web_ok :: "int \<Rightarrow> web \<Rightarrow> bool" where
  "web_ok maxnconn w \<longleftrightarrow>
     (\<forall>f\<in>set (files w). f_flags f \<in> {0, F_CONNECTING, F_READING, F_DONE}) \<and>
     nlefttoconn w = number (\<lambda>n. n = 0) (files w) \<and> nconn w = number (\<lambda>n. n = F_CONNECTING \<or> n = F_READING) (files w) \<and>
     nlefttoread w = number (\<lambda>n. n \<noteq> F_DONE) (files w) \<and> nconn w \<le> max 0 maxnconn"

text \<open>The requests written and the ends of file seen for the file \<open>i\<close>.\<close>

definition requests :: "nat \<Rightarrow> wevent list \<Rightarrow> (int \<times> string) list" where
  "requests i es = concat (map (\<lambda>e. case e of Wrote j fd s \<Rightarrow> if j = i then [(fd, s)] else [] | _ \<Rightarrow> []) es)"

definition eofs :: "nat \<Rightarrow> wevent list \<Rightarrow> nat" where
  "eofs i es = length (filter (\<lambda>e. e = Eof i) es)"

definition log_ok :: "web \<Rightarrow> bool" where
  "log_ok w \<longleftrightarrow>
     (\<forall>i < length (files w). let f = files w ! i in
        requests i (wlog w) = (if f_flags f = F_READING \<or> f_flags f = F_DONE then [(f_fd f, GET_CMD (f_name f))] else []) \<and>
        eofs i (wlog w) = of_bool (f_flags f = F_DONE))"

lemma number_update:
  "i < length fs \<Longrightarrow> number P (fs[i := f]) = number P fs - of_bool (P (f_flags (fs ! i))) + of_bool (P (f_flags f))"
  by (simp add: number_def length_filter_update)

lemma number_pos: "0 < number P fs \<longleftrightarrow> (\<exists>f\<in>set fs. P (f_flags f))"
  by (auto simp: number_def filter_empty_conv simp flip: length_greater_0_conv)

lemma number_nonneg: "0 \<le> number P fs"
  by (simp add: number_def)

lemma first_idle_less: "first_idle fs < length fs \<longleftrightarrow> (\<exists>f\<in>set fs. f_flags f = 0)" "first_idle fs \<le> length fs"
  by (induction fs) auto

lemma first_idle_flags: "first_idle fs < length fs \<Longrightarrow> f_flags (fs ! first_idle fs) = 0"
  by (induction fs) auto

lemma requests_simps [simp]:
  "requests i [] = []" "requests i (es @ es') = requests i es @ requests i es'"
  "requests i [Wrote j fd s] = (if j = i then [(fd, s)] else [])"
  "requests i [Started j fd] = []" "requests i [Failed j] = []" "requests i [Established j] = []" "requests i [Eof j] = []"
  "requests i [ReadBytes j n] = []"
  by (simp_all add: requests_def)

lemma eofs_simps [simp]:
  "eofs i [] = 0" "eofs i (es @ es') = eofs i es + eofs i es'"
  "eofs i [Wrote j fd s] = 0" "eofs i [Started j fd] = 0" "eofs i [Failed j] = 0" "eofs i [Established j] = 0"
  "eofs i [Eof j] = of_bool (j = i)" "eofs i [ReadBytes j n] = 0"
  by (auto simp: eofs_def)

lemmas flags = F_CONNECTING_def F_READING_def F_DONE_def

text \<open>What a step does to the files, the counters and the log, in one place: file \<open>i\<close> goes from the state
  \<open>a\<close> to the state \<open>b\<close>.\<close>

definition moves :: "nat \<Rightarrow> nat \<Rightarrow> nat \<Rightarrow> web \<Rightarrow> web \<Rightarrow> bool" where
  "moves i a b w w' \<longleftrightarrow> i < length (files w) \<and> f_flags (files w ! i) = a \<and>
     (\<exists>fd. files w' = (files w)[i := (files w ! i)\<lparr>f_fd := fd, f_flags := b\<rparr>]) \<and>
     (log_ok w \<longrightarrow> log_ok w')"

lemma moves_ok:
  assumes "web_ok m w" "moves i a b w w'" "b \<in> {0, F_CONNECTING, F_READING, F_DONE}"
    "nlefttoconn w' = nlefttoconn w - of_bool (a = 0) + of_bool (b = 0)"
    "nconn w' = nconn w - of_bool (a = F_CONNECTING \<or> a = F_READING) + of_bool (b = F_CONNECTING \<or> b = F_READING)"
    "nlefttoread w' = nlefttoread w - of_bool (a \<noteq> F_DONE) + of_bool (b \<noteq> F_DONE)" "nconn w' \<le> max 0 m"
  shows "web_ok m w'"
proof -
  obtain fd where f: "i < length (files w)" "f_flags (files w ! i) = a"
      "files w' = (files w)[i := (files w ! i)\<lparr>f_fd := fd, f_flags := b\<rparr>]"
    using assms(2) by (auto simp: moves_def)
  have "\<forall>g\<in>set (files w'). f_flags g \<in> {0, F_CONNECTING, F_READING, F_DONE}"
    using assms(1,3) f(3) set_update_subset_insert [of "files w" i] by (fastforce simp: web_ok_def)
  then show ?thesis using assms(1,4-7) f by (simp add: web_ok_def number_update)
qed

lemma files_logged [simp]: "files (logged e w) = files w" "nconn (logged e w) = nconn w" "nlefttoconn (logged e w) = nlefttoconn w"
  "nlefttoread (logged e w) = nlefttoread w" "wlog (logged e w) = wlog w @ [e]" "rset (logged e w) = rset w" "wset (logged e w) = wset w"
  by (simp_all add: logged_def)

definition same_counts :: "web \<Rightarrow> web \<Rightarrow> bool" where
  "same_counts w w' \<longleftrightarrow> nconn w' = nconn w \<and> nlefttoconn w' = nlefttoconn w \<and> nlefttoread w' = nlefttoread w"

lemma log_ok_update:
  assumes "log_ok w" "i < length (files w)" "files w' = (files w)[i := f]"
    "\<And>j. j \<noteq> i \<Longrightarrow> requests j (wlog w') = requests j (wlog w) \<and> eofs j (wlog w') = eofs j (wlog w)"
    "requests i (wlog w') = (if f_flags f = F_READING \<or> f_flags f = F_DONE then [(f_fd f, GET_CMD (f_name f))] else [])"
    "eofs i (wlog w') = of_bool (f_flags f = F_DONE)"
  shows "log_ok w'"
  unfolding log_ok_def Let_def
proof (intro allI impI)
  fix j assume "j < length (files w')"
  then show "requests j (wlog w') = (if f_flags (files w' ! j) = F_READING \<or> f_flags (files w' ! j) = F_DONE
         then [(f_fd (files w' ! j), GET_CMD (f_name (files w' ! j)))] else []) \<and>
      eofs j (wlog w') = of_bool (f_flags (files w' ! j) = F_DONE)"
    using assms by (cases "j = i") (auto simp: log_ok_def Let_def)
qed

lemma log_okD:
  "log_ok w \<Longrightarrow> i < length (files w) \<Longrightarrow>
     requests i (wlog w) = (if f_flags (files w ! i) = F_READING \<or> f_flags (files w ! i) = F_DONE
       then [(f_fd (files w ! i), GET_CMD (f_name (files w ! i)))] else []) \<and>
     eofs i (wlog w) = of_bool (f_flags (files w ! i) = F_DONE)"
  by (simp add: log_ok_def Let_def)

lemma write_get_cmd_moves:
  assumes "write_get_cmd i w = Inr w'" "i < length (files w)" "f_flags (files w ! i) = a" "a = 0 \<or> a = F_CONNECTING"
  shows "moves i a F_READING w w' \<and> same_counts w w'"
proof -
  let ?f = "(files w ! i)\<lparr>f_flags := F_READING\<rparr>"
  have w': "files w' = (files w)[i := ?f]" "wlog w' = wlog w @ [Wrote i (f_fd ?f) (GET_CMD (f_name ?f))]" "same_counts w w'"
    using assms(1) by (auto simp: write_get_cmd_def Let_def same_counts_def split: if_splits)
  have "log_ok w'" if "log_ok w"
    using that assms(2,3,4) w' log_okD [OF that assms(2)] by (intro log_ok_update [OF that assms(2) w'(1)]) (auto simp: flags)
  moreover have "?f = (files w ! i)\<lparr>f_fd := f_fd (files w ! i), f_flags := F_READING\<rparr>" by simp
  ultimately show ?thesis using assms(2,3) w' unfolding moves_def by metis
qed

lemma start_connect_moves:
  assumes "start_connect i a w = Inr w'" "i < length (files w)" "f_flags (files w ! i) = 0"
  shows "\<exists>b. (b = F_CONNECTING \<or> b = F_READING) \<and> moves i 0 b w w' \<and> same_counts w w'"
proof -
  let ?w = "logged (Started i (fst a)) (w\<lparr>files := (files w)[i := (files w ! i)\<lparr>f_fd := fst a\<rparr>]\<rparr>)"
  have len: "i < length (files ?w)" and fl: "f_flags (files ?w ! i) = 0" using assms(2,3) by simp_all
  have lg: "log_ok ?w" if "log_ok w"
    using that assms(2,3) log_okD [OF that assms(2)] by (intro log_ok_update [OF that assms(2)]) (auto simp: flags)
  show ?thesis
  proof (cases "snd a")
    case Connected
    then have "write_get_cmd i ?w = Inr w'" using assms(1) by (simp add: start_connect_def Let_def)
    from write_get_cmd_moves [OF this len fl] show ?thesis
      using lg assms(2,3) by (auto simp: moves_def same_counts_def)
  next
    case InProgress
    let ?f = "(files w ! i)\<lparr>f_fd := fst a, f_flags := F_CONNECTING\<rparr>"
    have w': "files w' = (files w)[i := ?f]" "wlog w' = wlog w @ [Started i (fst a)]" "same_counts w w'"
      using assms(1,2) InProgress by (auto simp: start_connect_def Let_def same_counts_def)
    have "log_ok w'" if "log_ok w"
      using that assms(2,3) w' log_okD [OF that assms(2)] by (intro log_ok_update [OF that assms(2) w'(1)]) (auto simp: flags)
    then show ?thesis using assms(2,3) w' by (auto simp: moves_def)
  qed (use assms(1) in \<open>simp add: start_connect_def Let_def\<close>)
qed

text \<open>The outcome of a step from a state with files of the names \<open>ns\<close>.\<close>

definition fine :: "int \<Rightarrow> string list \<Rightarrow> werror + web \<Rightarrow> bool" where
  "fine m ns x \<longleftrightarrow> (case x of Inl e \<Rightarrow> e \<noteq> Nothing_found | Inr w \<Rightarrow> web_ok m w \<and> log_ok w \<and> map f_name (files w) = ns)"

lemma moves_names: "moves i a b w w' \<Longrightarrow> map f_name (files w') = map f_name (files w)"
proof -
  assume "moves i a b w w'"
  then obtain fd where "i < length (files w)" "files w' = (files w)[i := (files w ! i)\<lparr>f_fd := fd, f_flags := b\<rparr>]" by (auto simp: moves_def)
  then have "map f_name (files w') = (map f_name (files w))[i := map f_name (files w) ! i]" by (simp add: map_update)
  then show ?thesis by simp
qed

lemma same_names: "map f_name (files w) = map f_name (files v) \<Longrightarrow> length (files w) = length (files v)"
  by (rule map_eq_imp_length_eq)

lemma fine_simps [simp]: "fine m ns (Inl e) \<longleftrightarrow> e \<noteq> Nothing_found" "fine m ns (Inr w) \<longleftrightarrow> web_ok m w \<and> log_ok w \<and> map f_name (files w) = ns"
  by (simp_all add: fine_def)

lemma fine_andthen: "fine m ns x \<Longrightarrow> (\<And>w. web_ok m w \<and> log_ok w \<Longrightarrow> map f_name (files w) = ns \<Longrightarrow> fine m ns (f w)) \<Longrightarrow> fine m ns (andthen x f)"
  by (cases x) auto

lemma connect_loop_stop: "\<not> (nconn w < m \<and> 0 < nlefttoconn w) \<Longrightarrow> connect_loop m r k w = Inr w"
  by (subst connect_loop.simps) (simp only: if_False)

lemma connect_loop_go:
  "nconn w < m \<and> 0 < nlefttoconn w \<Longrightarrow> first_idle (files w) < length (files w) \<Longrightarrow>
   connect_loop m r k w = andthen (start_connect (first_idle (files w)) (conns r k) w) (\<lambda>w'.
     connect_loop m r (Suc k) (w'\<lparr>nconn := nconn w + 1, nlefttoconn := nlefttoconn w - 1\<rparr>))"
  by (subst connect_loop.simps) (simp add: Let_def)

lemma connect_loop_ok:
  "web_ok m w \<and> log_ok w \<Longrightarrow> fine m (map f_name (files w)) (connect_loop m r k w)"
proof (induction m r k w rule: connect_loop.induct)
  case (1 m r k w)
  let ?i = "first_idle (files w)"
  show ?case
  proof (cases "nconn w < m \<and> 0 < nlefttoconn w")
    case False
    then show ?thesis using 1(2) by (simp add: connect_loop_stop)
  next
    case True
    have i: "?i < length (files w)" "f_flags (files w ! ?i) = 0"
      using True 1(2) first_idle_less(1) first_idle_flags by (auto simp: web_ok_def number_pos)
    show ?thesis
    proof (cases "start_connect ?i (conns r k) w")
      case (Inl e)
      then have "e \<noteq> Nothing_found"
        by (auto simp: start_connect_def write_get_cmd_def Let_def split: connection.splits if_splits)
      then show ?thesis using Inl connect_loop_go [OF True i(1)] by simp
    next
      case (Inr w1)
      let ?w = "w1\<lparr>nconn := nconn w + 1, nlefttoconn := nlefttoconn w - 1\<rparr>"
      obtain b where b: "b = F_CONNECTING \<or> b = F_READING" "moves ?i 0 b w w1" "same_counts w w1"
        using start_connect_moves [OF Inr i] by blast
      have mv: "moves ?i 0 b w ?w" using b(2) by (simp add: moves_def log_ok_def)
      have "web_ok m ?w"
        by (rule moves_ok [OF _ mv]) (use 1(2) True b in \<open>auto simp: flags same_counts_def\<close>)
      moreover have "log_ok ?w" "map f_name (files ?w) = map f_name (files w)" using mv 1(2) moves_names [OF mv] by (auto simp: moves_def)
      ultimately show ?thesis
        using 1(1) [OF True refl _ Inr] i(1) Inr connect_loop_go [OF True i(1), of r k] by simp
    qed
  qed
qed

lemma check_file_ok:
  assumes "web_ok m w \<and> log_ok w" "i < length (files w)"
  shows "fine m (map f_name (files w)) (check_file r rs ws i w)"
proof -
  let ?f = "files w ! i"
  have "f_flags ?f \<in> {0, F_CONNECTING, F_READING, F_DONE}" using assms by (simp add: web_ok_def)
  then consider "f_flags ?f = 0 \<or> f_flags ?f = F_DONE \<or> f_flags ?f = F_CONNECTING \<and> f_fd ?f \<notin> rs \<union> ws \<or> f_flags ?f = F_READING \<and> f_fd ?f \<notin> rs"
    | "f_flags ?f = F_CONNECTING" "f_fd ?f \<in> rs \<union> ws" | "f_flags ?f = F_READING" "f_fd ?f \<in> rs" "got r (f_fd ?f) \<noteq> 0"
    | "f_flags ?f = F_READING" "f_fd ?f \<in> rs" "got r (f_fd ?f) = 0" by auto
  then show ?thesis
  proof cases
    case 1
    then have "check_file r rs ws i w = Inr w" by (auto simp: check_file_def Let_def flags)
    then show ?thesis using assms by simp
  next
    case 2
    let ?w = "logged (Established i) (if sock_error r (f_fd ?f) then logged (Failed i) w else w)"
    let ?v = "?w\<lparr>wset := wset w - {f_fd ?f}\<rparr>"
    have eq: "check_file r rs ws i w = write_get_cmd i ?v" using 2 by (auto simp: check_file_def Let_def flags)
    have v: "files ?v = files w" "same_counts w ?v" "log_ok ?v"
      using assms by (auto simp: same_counts_def log_ok_def)
    show ?thesis
    proof (cases "write_get_cmd i ?v")
      case (Inl e)
      then show ?thesis using eq by (auto simp: write_get_cmd_def Let_def split: if_splits)
    next
      case (Inr w')
      have mv: "moves i F_CONNECTING F_READING ?v w'" "same_counts ?v w'"
        using write_get_cmd_moves [OF Inr] v(1) assms(2) 2(1) by simp_all
      have "web_ok m ?v" using assms(1) v(1,2) by (simp add: web_ok_def same_counts_def)
      then have "web_ok m w'" using mv assms(1) v(2)
        by (intro moves_ok [OF _ mv(1)]) (auto simp: flags same_counts_def web_ok_def)
      moreover have "log_ok w'" "map f_name (files w') = map f_name (files w)" using mv(1) v(1,3) moves_names [OF mv(1)] by (auto simp: moves_def)
      ultimately show ?thesis using eq Inr by simp
    qed
  next
    case 3
    then have "check_file r rs ws i w = Inr (logged (ReadBytes i (got r (f_fd ?f))) w)" by (auto simp: check_file_def Let_def flags)
    then show ?thesis using assms by (auto simp: web_ok_def log_ok_def)
  next
    case 4
    let ?w = "logged (Eof i) (w\<lparr>files := (files w)[i := ?f\<lparr>f_flags := F_DONE\<rparr>], rset := rset w - {f_fd ?f}, nconn := nconn w - 1,
                                nlefttoread := nlefttoread w - 1\<rparr>)"
    have eq: "check_file r rs ws i w = Inr ?w" using 4 by (auto simp: check_file_def Let_def flags)
    have lg: "log_ok ?w" using assms 4(1) log_okD [of w i]
      by (intro log_ok_update [of w i ?w "?f\<lparr>f_flags := F_DONE\<rparr>"]) (auto simp: flags)
    have "files ?w = (files w)[i := ?f\<lparr>f_fd := f_fd ?f, f_flags := F_DONE\<rparr>]" by simp
    then have mv: "moves i F_READING F_DONE w ?w" unfolding moves_def using assms(2) 4(1) lg by blast
    have "web_ok m ?w" using assms(1) by (intro moves_ok [OF _ mv]) (auto simp: flags web_ok_def)
    then show ?thesis using eq lg moves_names [OF mv] by simp
  qed
qed

lemma check_files_ok:
  "web_ok m w \<and> log_ok w \<Longrightarrow> \<forall>i\<in>set is. i < length (files w) \<Longrightarrow>
   fine m (map f_name (files w)) (check_files r rs ws is w)"
proof (induction "is" arbitrary: w)
  case (Cons i "is")
  have "fine m (map f_name (files w)) (check_file r rs ws i w)" using Cons.prems by (intro check_file_ok) auto
  then have "fine m (map f_name (files w)) (andthen (check_file r rs ws i w) (check_files r rs ws is))"
  proof (rule fine_andthen)
    fix v assume v: "web_ok m v \<and> log_ok v" "map f_name (files v) = map f_name (files w)"
    have "\<forall>i\<in>set is. i < length (files v)" using Cons.prems(2) same_names [OF v(2)] by simp
    from Cons.IH [OF v(1) this] show "fine m (map f_name (files w)) (check_files r rs ws is v)" using v(2) by simp
  qed
  then show ?case by simp
qed simp

lemma web_round_ok:
  assumes "web_ok m w \<and> log_ok w"
  shows "fine m (map f_name (files w)) (web_round m r w)"
  unfolding web_round_def
proof (rule fine_andthen [OF connect_loop_ok [OF assms]])
  fix v assume v: "web_ok m v \<and> log_ok v" "map f_name (files v) = map f_name (files w)"
  have "fine m (map f_name (files v)) (check_files r (rset v \<inter> rs_ready r) (wset v \<inter> ws_ready r) [0..<length (files v)] v)"
    by (rule check_files_ok [OF v(1)]) simp
  then show "fine m (map f_name (files w)) (check_files r (rset v \<inter> rs_ready r) (wset v \<inter> ws_ready r) [0..<length (files v)] v)"
    using v(2) by simp
qed

lemma web_loop_ok:
  "web_ok m w \<and> log_ok w \<Longrightarrow> web_loop m rs w \<noteq> Inl Nothing_found \<and>
   (\<forall>b w'. web_loop m rs w = Inr (b, w') \<longrightarrow> web_ok m w' \<and> log_ok w' \<and> map f_name (files w') = map f_name (files w) \<and> b = (nlefttoread w' \<le> 0))"
proof (induction rs arbitrary: w)
  case Nil
  then show ?case by auto
next
  case (Cons r rs)
  show ?case
  proof (cases "0 < nlefttoread w")
    case False
    then show ?thesis using Cons.prems by auto
  next
    case True
    show ?thesis
    proof (cases "web_round m r w")
      case (Inl e)
      then show ?thesis using True web_round_ok [OF Cons.prems, of r] by simp
    next
      case (Inr w1)
      have eq: "web_loop m (r # rs) w = web_loop m rs w1" using True Inr by simp
      have w1: "web_ok m w1 \<and> log_ok w1" "map f_name (files w1) = map f_name (files w)" using web_round_ok [OF Cons.prems, of r] Inr by simp_all
      show ?thesis using Cons.IH [OF w1(1)] unfolding eq w1(2) .
    qed
  qed
qed

lemma web_init_ok: "\<forall>i. requests i es = [] \<and> eofs i es = 0 \<Longrightarrow> web_ok m (web_init names es) \<and> log_ok (web_init names es)"
  by (auto simp: web_ok_def log_ok_def web_init_def number_def flags filter_map o_def)

lemma home_page_log: "home_page fname ns = Inr es \<Longrightarrow> requests i es = [] \<and> eofs i es = 0"
proof -
  have "home_reads ns = Inr es \<Longrightarrow> requests i es = [] \<and> eofs i es = 0" for es
    by (induction ns arbitrary: es) (auto simp: andthen_Inr_iff requests_def eofs_def split: if_splits)
  then show "home_page fname ns = Inr es \<Longrightarrow> requests i es = [] \<and> eofs i es = 0"
    by (auto simp: home_page_def andthen_Inr_iff Let_def requests_def eofs_def split: if_splits)
qed

section \<open>Properties\<close>

lemma home_page_error: "home_page fname ns \<noteq> Inl Nothing_found"
proof -
  have "home_reads ns \<noteq> Inl Nothing_found" for ns
    by (induction ns) (auto simp: andthen_def split: sum.split)
  then show ?thesis by (auto simp: home_page_def andthen_def Let_def split: sum.split)
qed

lemma web_main_ok:
  "web_main argv home rounds \<noteq> Inl Nothing_found \<and>
   (\<forall>b w. web_main argv home rounds = Inr (b, w) \<longrightarrow> web_ok (maxnconn_arg argv) w \<and> log_ok w \<and>
      map f_name (files w) = take MAXFILES (drop 4 argv) \<and> b = (nlefttoread w \<le> 0))"
proof (cases "length argv < 4")
  case False
  show ?thesis
  proof (cases "home_page (argv ! 3) home")
    case (Inl e)
    then show ?thesis using False home_page_error [of "argv ! 3" home] by (simp add: web_main_def)
  next
    case (Inr es)
    let ?w = "web_init (take MAXFILES (drop 4 argv)) es"
    have "web_ok (maxnconn_arg argv) ?w \<and> log_ok ?w" using home_page_log [OF Inr] by (intro web_init_ok) blast
    note l = web_loop_ok [OF this, of rounds]
    have n: "map f_name (files ?w) = take MAXFILES (drop 4 argv)" by (simp add: web_init_def o_def)
    have eq: "web_main argv home rounds = web_loop (maxnconn_arg argv) rounds ?w" using False Inr by (simp add: web_main_def)
    show ?thesis unfolding eq using l unfolding n .
  qed
qed (simp add: web_main_def)

definition quick :: wround where
  "quick = \<lparr>conns = \<lambda>k. (3, Connected), rs_ready = {3}, ws_ready = {}, sock_error = \<lambda>fd. False, got = \<lambda>fd. 0\<rparr>"

lemma quick_run:
  "\<exists>w. web_main [''web'', ''1'', ''host'', ''/'', ''/a''] [7, 0] [quick] = Inr (True, w) \<and> length (files w) = 1 \<and> f_fd (files w ! 0) = 3"
  by (simp add: web_main_def home_page_def GET_CMD_def CRNL_def WEB_MAXLINE_def MAXFILES_def web_init_def web_round_def connect_loop.simps
        start_connect_def write_get_cmd_def check_file_def quick_def atoi_def atol_def Let_def flags to_int32_def clamp_long_def cstr_def isspace_def uchar_def
        maxnconn_arg_def isdigit_def digit_val_def)

text \<open>C14: At every turn, whatever the system answers, each file is idle, connecting, reading or done, the three
  counters are the numbers of files in these states, and no more connections are open than the first
  argument allows; the program never gives up because it finds no file to connect.\<close>

theorem web_counters:
  "case web_main argv home rounds of
     Inl e \<Rightarrow> e \<noteq> Nothing_found
   | Inr (b, w) \<Rightarrow> (\<forall>f\<in>set (files w). f_flags f \<in> {0, F_CONNECTING, F_READING, F_DONE}) \<and>
       nlefttoconn w = number (\<lambda>n. n = 0) (files w) \<and> nconn w = number (\<lambda>n. n = F_CONNECTING \<or> n = F_READING) (files w) \<and>
       nlefttoread w = number (\<lambda>n. n \<noteq> F_DONE) (files w) \<and> nconn w \<le> max 0 (maxnconn_arg argv)"
  using web_main_ok [of argv home rounds] by (auto simp: web_ok_def split: sum.split)

theorem web_counters_witness:
  "\<exists>w. web_main [''web'', ''1'', ''host'', ''/'', ''/a''] [7, 0] [quick] = Inr (True, w) \<and> length (files w) = 1 \<and>
     (\<forall>f\<in>set (files w). f_flags f \<in> {0, F_CONNECTING, F_READING, F_DONE}) \<and> nconn w \<le> 1"
proof -
  have "maxnconn_arg [''web'', ''1'', ''host'', ''/'', ''/a''] = 1"
    by (simp add: maxnconn_arg_def atoi_def atol_def to_int32_def clamp_long_def cstr_def isspace_def isdigit_def digit_val_def uchar_def Let_def)
  then show ?thesis
    using quick_run web_counters [of "[''web'', ''1'', ''host'', ''/'', ''/a'']" "[7, 0]" "[quick]"] by auto
qed

text \<open>C15: When the loop ends, every file given on the command line, up to twenty, has been asked for exactly
  once, on its own connection, and read to its end exactly once.\<close>

theorem web_exit_complete:
  assumes "web_main argv home rounds = Inr (True, w)"
  shows "length (files w) = min MAXFILES (length argv - 4) \<and>
    (\<forall>i < length (files w). requests i (wlog w) = [(f_fd (files w ! i), GET_CMD (argv ! (4 + i)))] \<and> eofs i (wlog w) = 1)"
proof -
  have ok: "web_ok (maxnconn_arg argv) w" "log_ok w" "map f_name (files w) = take MAXFILES (drop 4 argv)" "nlefttoread w \<le> 0"
    using web_main_ok [of argv home rounds] assms by auto
  have len: "length (files w) = min MAXFILES (length argv - 4)" using arg_cong [OF ok(3), of length] by (simp add: min.commute)
  have "\<not> 0 < number (\<lambda>n. n \<noteq> F_DONE) (files w)" using ok(1,4) by (simp add: web_ok_def)
  then have "f_flags (files w ! i) = F_DONE" if "i < length (files w)" for i using that by (simp add: number_pos)
  moreover have "f_name (files w ! i) = argv ! (4 + i)" if "i < length (files w)" for i
    using that arg_cong [OF ok(3), of "\<lambda>l. l ! i"] len by (simp add: min_def split: if_splits)
  ultimately show ?thesis using len log_okD [OF ok(2)] by (simp add: flags)
qed

theorem web_exit_complete_witness:
  "\<exists>w. web_main [''web'', ''1'', ''host'', ''/'', ''/a''] [7, 0] [quick] = Inr (True, w) \<and> requests 0 (wlog w) = [(3, GET_CMD ''/a'')]"
proof -
  obtain w where w: "web_main [''web'', ''1'', ''host'', ''/'', ''/a''] [7, 0] [quick] = Inr (True, w)" "length (files w) = 1" "f_fd (files w ! 0) = 3"
    using quick_run by blast
  then show ?thesis using web_exit_complete [OF w(1)] by auto
qed

text \<open>With a first argument that is no positive number the program starts no connection and never ends.\<close>

theorem web_never_ends:
  assumes "maxnconn_arg argv \<le> 0" "4 < length argv" "home_page (argv ! 3) home = Inr es"
  shows "web_main argv home rounds = Inr (False, web_init (take MAXFILES (drop 4 argv)) es)"
proof -
  let ?w = "web_init (take MAXFILES (drop 4 argv)) es"
  have cf: "check_files r A B is ?w = Inr ?w" if "\<forall>i\<in>set is. i < length (files ?w)" for r A B "is"
    using that by (induction "is") (auto simp: check_file_def web_init_def Let_def)
  have "connect_loop (maxnconn_arg argv) r 0 ?w = Inr ?w" for r
    using assms(1) by (intro connect_loop_stop) (simp add: web_init_def)
  then have rd: "web_round (maxnconn_arg argv) r ?w = Inr ?w" for r using cf by (simp add: web_round_def)
  have pos: "0 < nlefttoread ?w" using assms(2) by (simp add: web_init_def MAXFILES_def)
  have "web_loop (maxnconn_arg argv) rounds ?w = Inr (False, ?w)" by (induction rounds) (simp_all add: rd pos)
  then show ?thesis using assms(2,3) by (simp add: web_main_def)
qed

theorem web_never_ends_witness:
  "\<forall>rounds. web_main [''web'', ''x'', ''host'', ''/'', ''/a''] [0] rounds = Inr (False, web_init [''/a''] [Home (GET_CMD ''/''), HomeEof])"
proof
  fix rounds
  show "web_main [''web'', ''x'', ''host'', ''/'', ''/a''] [0] rounds = Inr (False, web_init [''/a''] [Home (GET_CMD ''/''), HomeEof])"
    using web_never_ends [of "[''web'', ''x'', ''host'', ''/'', ''/a'']" "[0]" "[Home (GET_CMD ''/''), HomeEof]" rounds]
    by (simp add: home_page_def GET_CMD_def CRNL_def WEB_MAXLINE_def MAXFILES_def maxnconn_arg_def atoi_def atol_def to_int32_def clamp_long_def cstr_def isspace_def isdigit_def uchar_def Let_def)
qed

end
