(* ===== verification/Pollsrv.thy ===== *)
theory Pollsrv
  imports Prelude
begin

text \<open>
  The echo server of \<^verbatim>\<open>src/c_code/unp/tcpsrvpoll.c\<close>, one turn of its loop around \<open>poll\<close> after the other.  The
  table of descriptors is the list \<open>client\<close>; \<open>OPEN_MAX\<close> is a parameter.  A turn is what the system answers:
  the number of ready descriptors, the events \<open>poll\<close> reports for each entry, the descriptor \<open>accept\<close> returns and
  what \<open>read\<close> gives on each entry.  \<open>poll\<close> reports no event for an entry whose descriptor is negative; this is
  the hypothesis \<open>poll_legal\<close>.
\<close>

unbundle bit_operations_syntax

section \<open>Definitions\<close>

definition POLLRDNORM :: nat where "POLLRDNORM = 64"
definition POLLERR :: nat where "POLLERR = 8"

record pollfd =
  pfd :: int
  pevents :: nat
  prevents :: nat

datatype pevent = Accepted nat int | Echoed nat string | Hungup nat

record srv =
  client :: "pollfd list"
  maxi :: nat
  plog :: "pevent list"

datatype pread = Reset | Read_failed | Bytes string

datatype perror = Too_many | Read_error

record pturn =
  nready :: int
  revs :: "nat \<Rightarrow> nat"
  connfd :: int
  preads :: "nat \<Rightarrow> pread"

text \<open>The table before the loop over it, and the loop, which starts at 0.\<close>

definition srv_start :: "nat \<Rightarrow> int \<Rightarrow> pollfd list \<Rightarrow> srv" where
  "srv_start open_max listenfd garbage =
     (let c = garbage[0 := (garbage ! 0)\<lparr>pfd := listenfd, pevents := POLLRDNORM\<rparr>] in
      \<lparr>client = map (\<lambda>i. (c ! i)\<lparr>pfd := - 1\<rparr>) [0..<open_max], maxi = 0, plog = []\<rparr>)"

fun free_entry :: "pollfd list \<Rightarrow> nat \<Rightarrow> nat option" where
  "free_entry [] i = None"
| "free_entry (c # cs) i = (if pfd c < 0 then Some i else free_entry cs (Suc i))"

definition polled :: "pturn \<Rightarrow> srv \<Rightarrow> srv" where
  "polled t s = s\<lparr>client := map (\<lambda>i. if i \<le> maxi s then (client s ! i)\<lparr>prevents := revs t i\<rparr> else client s ! i) [0..<length (client s)]\<rparr>"

definition accept_client :: "pturn \<Rightarrow> srv \<Rightarrow> perror + srv" where
  "accept_client t s =
     (case free_entry (drop 1 (client s)) 1 of
        None \<Rightarrow> Inl Too_many
      | Some i \<Rightarrow>
          Inr (s\<lparr>client := (client s)[i := (client s ! i)\<lparr>pfd := connfd t, pevents := POLLRDNORM\<rparr>], maxi := max (maxi s) i,
                 plog := plog s @ [Accepted i (connfd t)]\<rparr>))"

definition serve :: "pturn \<Rightarrow> nat \<Rightarrow> srv \<Rightarrow> perror + srv" where
  "serve t i s =
     (case preads t i of
        Reset \<Rightarrow> Inr (s\<lparr>client := (client s)[i := (client s ! i)\<lparr>pfd := - 1\<rparr>], plog := plog s @ [Hungup i]\<rparr>)
      | Read_failed \<Rightarrow> Inl Read_error
      | Bytes b \<Rightarrow>
          if b = [] then Inr (s\<lparr>client := (client s)[i := (client s ! i)\<lparr>pfd := - 1\<rparr>], plog := plog s @ [Hungup i]\<rparr>)
          else Inr (s\<lparr>plog := plog s @ [Echoed i b]\<rparr>))"

fun serve_loop :: "pturn \<Rightarrow> nat list \<Rightarrow> int \<Rightarrow> srv \<Rightarrow> perror + srv" where
  "serve_loop t [] n s = Inr s"
| "serve_loop t (i # is) n s =
     (if pfd (client s ! i) < 0 then serve_loop t is n s
      else if prevents (client s ! i) AND (POLLRDNORM OR POLLERR) \<noteq> 0 then
        andthen (serve t i s) (\<lambda>s. if n - 1 \<le> 0 then Inr s else serve_loop t is (n - 1) s)
      else serve_loop t is n s)"

definition srv_turn :: "pturn \<Rightarrow> srv \<Rightarrow> perror + srv" where
  "srv_turn t s =
     (let s = polled t s in
      if prevents (client s ! 0) AND POLLRDNORM \<noteq> 0 then
        andthen (accept_client t s) (\<lambda>s.
        if nready t - 1 \<le> 0 then Inr s else serve_loop t [1..<Suc (maxi s)] (nready t - 1) s)
      else serve_loop t [1..<Suc (maxi s)] (nready t) s)"

fun srv_run :: "pturn list \<Rightarrow> srv \<Rightarrow> perror + srv" where
  "srv_run [] s = Inr s"
| "srv_run (t # ts) s = andthen (srv_turn t s) (srv_run ts)"

text \<open>What \<open>poll\<close> promises.\<close>

definition poll_ok :: "pturn \<Rightarrow> srv \<Rightarrow> bool" where
  "poll_ok t s \<longleftrightarrow> (\<forall>i\<le>maxi s. pfd (client s ! i) < 0 \<longrightarrow> revs t i = 0)"

fun poll_legal :: "pturn list \<Rightarrow> srv \<Rightarrow> bool" where
  "poll_legal [] s \<longleftrightarrow> True"
| "poll_legal (t # ts) s \<longleftrightarrow> poll_ok t s \<and> (case srv_turn t s of Inl e \<Rightarrow> True | Inr s' \<Rightarrow> poll_legal ts s')"

section \<open>Properties\<close>

definition deaf :: "srv \<Rightarrow> bool" where
  "deaf s \<longleftrightarrow> client s \<noteq> [] \<and> maxi s = 0 \<and> pfd (client s ! 0) < 0 \<and> plog s = []"

lemma deaf_turn: "deaf s \<Longrightarrow> poll_ok t s \<Longrightarrow> \<exists>s'. srv_turn t s = Inr s' \<and> deaf s'"
  by (auto simp: deaf_def poll_ok_def srv_turn_def polled_def Let_def)

lemma deaf_run: "deaf s \<Longrightarrow> poll_legal ts s \<Longrightarrow> \<exists>s'. srv_run ts s = Inr s' \<and> plog s' = []"
proof (induction ts arbitrary: s)
  case Nil
  then show ?case by (simp add: deaf_def)
next
  case (Cons t ts)
  obtain s1 where "srv_turn t s = Inr s1" "deaf s1" using deaf_turn [of s t] Cons.prems by auto
  then show ?case using Cons by auto
qed

text \<open>C39: The loop that marks the entries of the table as free starts at 0 and so drops the listening descriptor:
  as long as \<open>poll\<close> reports nothing for negative descriptors, the server never accepts a connection and never
  echoes a byte, in any number of turns.\<close>

theorem pollsrv_never_accepts:
  assumes "0 < open_max" "poll_legal ts (srv_start open_max listenfd garbage)"
  shows "\<exists>s. srv_run ts (srv_start open_max listenfd garbage) = Inr s \<and> plog s = []"
proof -
  have "deaf (srv_start open_max listenfd garbage)" using assms(1) by (simp add: deaf_def srv_start_def Let_def)
  then show ?thesis using deaf_run assms(2) by blast
qed

definition quiet :: pturn where
  "quiet = \<lparr>nready = 0, revs = \<lambda>i. 0, connfd = 5, preads = \<lambda>i. Reset\<rparr>"

theorem pollsrv_never_accepts_witness:
  "\<exists>s. srv_run [quiet, quiet] (srv_start 2 3 (replicate 2 \<lparr>pfd = 0, pevents = 0, prevents = 0\<rparr>)) = Inr s \<and> plog s = []"
  by (rule pollsrv_never_accepts)
    (simp_all add: quiet_def srv_start_def poll_ok_def srv_turn_def polled_def Let_def numeral_2_eq_2)

end
