(* ===== verification/Sbuf.thy ===== *)
theory Sbuf
  imports Prelude
begin

text \<open>
  The bounded buffer of \<^verbatim>\<open>src/c_code/csapp/code/conc/sbuf.c\<close>, shared by threads and protected by three
  semaphores.  A call of \<open>sbuf_insert\<close> or \<open>sbuf_remove\<close> is five atomic steps, and the steps of
  different threads interleave in any order: \<open>thread_step\<close> is the next step of a thread at a program
  counter, and \<open>buf_run\<close> are the states that a number of threads can bring about.  \<open>P\<close> on a semaphore
  that is zero waits.  Counting beyond the largest \<open>int\<close> is undefined.  What was inserted and what was
  removed, in order, is recorded beside the state.
\<close>

section \<open>Definitions\<close>

definition INT_MAX :: int where "INT_MAX = 2 ^ 31 - 1"

record sbuf_t =
  sb_buf :: "int list"
  sb_n :: int
  front :: int
  rear :: int
  mutex :: nat
  slots :: nat
  items :: nat

definition sbuf_init :: "nat \<Rightarrow> sbuf_t" where
  "sbuf_init n = \<lparr>sb_buf = replicate n 0, sb_n = int n, front = 0, rear = 0, mutex = 1, slots = n, items = 0\<rparr>"

text \<open>The next statement of a thread; a thread without a call is idle.\<close>

datatype pc =
    Idle
  | I_slots int | I_mutex int | I_store int | I_unlock | I_items
  | R_items | R_mutex | R_load | R_unlock int | R_slots int

datatype outcome = Waits | Undefined | Goes pc sbuf_t

definition P :: "nat \<Rightarrow> nat option" where
  "P v = (if v = 0 then None else Some (v - 1))"

definition V :: "nat \<Rightarrow> nat" where
  "V v = v + 1"

fun thread_step :: "pc \<Rightarrow> sbuf_t \<Rightarrow> outcome" where
  "thread_step Idle s = Waits"
| "thread_step (I_slots x) s = (case P (slots s) of None \<Rightarrow> Waits | Some v \<Rightarrow> Goes (I_mutex x) (s\<lparr>slots := v\<rparr>))"
| "thread_step (I_mutex x) s = (case P (mutex s) of None \<Rightarrow> Waits | Some v \<Rightarrow> Goes (I_store x) (s\<lparr>mutex := v\<rparr>))"
| "thread_step (I_store x) s =
     (if INT_MAX \<le> rear s \<or> sb_n s = 0 then Undefined
      else let r = rear s + 1 in Goes I_unlock (s\<lparr>rear := r, sb_buf := (sb_buf s)[nat (r mod sb_n s) := x]\<rparr>))"
| "thread_step I_unlock s = Goes I_items (s\<lparr>mutex := V (mutex s)\<rparr>)"
| "thread_step I_items s = Goes Idle (s\<lparr>items := V (items s)\<rparr>)"
| "thread_step R_items s = (case P (items s) of None \<Rightarrow> Waits | Some v \<Rightarrow> Goes R_mutex (s\<lparr>items := v\<rparr>))"
| "thread_step R_mutex s = (case P (mutex s) of None \<Rightarrow> Waits | Some v \<Rightarrow> Goes R_load (s\<lparr>mutex := v\<rparr>))"
| "thread_step R_load s =
     (if INT_MAX \<le> front s \<or> sb_n s = 0 then Undefined
      else let f = front s + 1 in Goes (R_unlock (sb_buf s ! nat (f mod sb_n s))) (s\<lparr>front := f\<rparr>))"
| "thread_step (R_unlock x) s = Goes (R_slots x) (s\<lparr>mutex := V (mutex s)\<rparr>)"
| "thread_step (R_slots x) s = Goes Idle (s\<lparr>slots := V (slots s)\<rparr>)"

record buf_sys =
  sb :: sbuf_t
  pcs :: "pc list"
  inserted :: "int list"
  removed :: "int list"

text \<open>The records beside the state.\<close>

definition put_of :: "pc \<Rightarrow> int list" where
  "put_of p = (case p of I_store x \<Rightarrow> [x] | _ \<Rightarrow> [])"

definition got_of :: "pc \<Rightarrow> pc \<Rightarrow> int list" where
  "got_of p p' = (case p of R_load \<Rightarrow> (case p' of R_unlock x \<Rightarrow> [x] | _ \<Rightarrow> []) | _ \<Rightarrow> [])"

inductive buf_run :: "nat \<Rightarrow> nat \<Rightarrow> buf_sys \<Rightarrow> bool" for n threads where
  start: "buf_run n threads \<lparr>sb = sbuf_init n, pcs = replicate threads Idle, inserted = [], removed = []\<rparr>"
| insert: "buf_run n threads s \<Longrightarrow> t < threads \<Longrightarrow> pcs s ! t = Idle \<Longrightarrow> buf_run n threads (s\<lparr>pcs := (pcs s)[t := I_slots x]\<rparr>)"
| remove: "buf_run n threads s \<Longrightarrow> t < threads \<Longrightarrow> pcs s ! t = Idle \<Longrightarrow> buf_run n threads (s\<lparr>pcs := (pcs s)[t := R_items]\<rparr>)"
| step: "buf_run n threads s \<Longrightarrow> t < threads \<Longrightarrow> thread_step (pcs s ! t) (sb s) = Goes p b \<Longrightarrow>
    buf_run n threads (s\<lparr>sb := b, pcs := (pcs s)[t := p], inserted := inserted s @ put_of (pcs s ! t),
      removed := removed s @ got_of (pcs s ! t) p\<rparr>)"

section \<open>The invariant\<close>

definition count_pcs :: "(pc \<Rightarrow> bool) \<Rightarrow> pc list \<Rightarrow> int" where
  "count_pcs Q ps = int (length (filter Q ps))"

fun reserved :: "pc \<Rightarrow> bool" where
  "reserved (I_mutex x) = True" | "reserved (I_store x) = True" | "reserved _ = False"

fun unannounced :: "pc \<Rightarrow> bool" where
  "unannounced I_unlock = True" | "unannounced I_items = True" | "unannounced _ = False"

fun claimed :: "pc \<Rightarrow> bool" where
  "claimed R_mutex = True" | "claimed R_load = True" | "claimed _ = False"

fun unreleased :: "pc \<Rightarrow> bool" where
  "unreleased (R_unlock x) = True" | "unreleased (R_slots x) = True" | "unreleased _ = False"

fun critical :: "pc \<Rightarrow> bool" where
  "critical (I_store x) = True" | "critical I_unlock = True" | "critical R_load = True" | "critical (R_unlock x) = True"
| "critical _ = False"

definition buf_inv :: "nat \<Rightarrow> buf_sys \<Rightarrow> bool" where
  "buf_inv n s \<longleftrightarrow>
     (let b = sb s; ps = pcs s in
      sb_n b = int n \<and> length (sb_buf b) = n \<and> 0 \<le> front b \<and>
      rear b - front b = int (items b) + count_pcs unannounced ps + count_pcs claimed ps \<and>
      int n = int (slots b) + count_pcs reserved ps + (rear b - front b) + count_pcs unreleased ps \<and>
      int (mutex b) + count_pcs critical ps = 1 \<and>
      int (length (inserted s)) = rear b \<and> removed s = take (nat (front b)) (inserted s) \<and>
      (\<forall>k. front b < k \<longrightarrow> k \<le> rear b \<longrightarrow> sb_buf b ! nat (k mod int n) = inserted s ! nat (k - 1)))"

lemma count_update:
  "t < length ps \<Longrightarrow> count_pcs Q (ps[t := p]) = count_pcs Q ps - of_bool (Q (ps ! t)) + of_bool (Q p)"
proof (induction ps arbitrary: t)
  case (Cons q ps)
  then show ?case by (cases t) (auto simp: count_pcs_def)
qed simp

lemma count_nonneg: "0 \<le> count_pcs Q ps"
  by (simp add: count_pcs_def)

lemma count_pos: "t < length ps \<Longrightarrow> Q (ps ! t) \<Longrightarrow> 1 \<le> count_pcs Q ps"
proof -
  assume "t < length ps" "Q (ps ! t)"
  then have "filter Q ps \<noteq> []" by (auto simp: filter_empty_conv)
  then show ?thesis by (cases "filter Q ps") (simp_all add: count_pcs_def)
qed

lemma buf_invD:
  assumes "buf_inv n s"
  shows "sb_n (sb s) = int n" "length (sb_buf (sb s)) = n" "0 \<le> front (sb s)"
    "rear (sb s) - front (sb s) = int (items (sb s)) + count_pcs unannounced (pcs s) + count_pcs claimed (pcs s)"
    "int n = int (slots (sb s)) + count_pcs reserved (pcs s) + (rear (sb s) - front (sb s)) + count_pcs unreleased (pcs s)"
    "int (mutex (sb s)) + count_pcs critical (pcs s) = 1"
    "int (length (inserted s)) = rear (sb s)" "removed s = take (nat (front (sb s))) (inserted s)"
    "\<And>k. front (sb s) < k \<Longrightarrow> k \<le> rear (sb s) \<Longrightarrow> sb_buf (sb s) ! nat (k mod int n) = inserted s ! nat (k - 1)"
  using assms unfolding buf_inv_def Let_def by blast+

text \<open>Steps that touch the semaphores only.\<close>

lemma inv_counts:
  assumes i: "buf_inv n s" and t: "t < length (pcs s)"
    and b: "sb_n b = sb_n (sb s)" "sb_buf b = sb_buf (sb s)" "front b = front (sb s)" "rear b = rear (sb s)"
    and c: "int (items b) = int (items (sb s)) + of_bool (unannounced (pcs s ! t)) - of_bool (unannounced p) + of_bool (claimed (pcs s ! t)) - of_bool (claimed p)"
      "int (slots b) = int (slots (sb s)) + of_bool (reserved (pcs s ! t)) - of_bool (reserved p) + of_bool (unreleased (pcs s ! t)) - of_bool (unreleased p)"
      "int (mutex b) = int (mutex (sb s)) + of_bool (critical (pcs s ! t)) - of_bool (critical p)"
  shows "buf_inv n (s\<lparr>sb := b, pcs := (pcs s)[t := p]\<rparr>)"
proof -
  note I = buf_invD [OF i]
  have "rear b - front b = int (items b) + count_pcs unannounced ((pcs s)[t := p]) + count_pcs claimed ((pcs s)[t := p])"
    "int n = int (slots b) + count_pcs reserved ((pcs s)[t := p]) + (rear b - front b) + count_pcs unreleased ((pcs s)[t := p])"
    "int (mutex b) + count_pcs critical ((pcs s)[t := p]) = 1"
    using I(4-6) b c by (simp_all add: count_update [OF t])
  then show ?thesis using I(1-3,7-9) b by (simp add: buf_inv_def)
qed

lemma mod_apart: "0 < r - k \<Longrightarrow> r - k < n \<Longrightarrow> r mod n \<noteq> k mod (n :: int)"
  by (metis diff_gt_0_iff_gt less_irrefl mod_eq_dvd_iff zdvd_imp_le linorder_not_le)

lemma inv_store:
  assumes i: "buf_inv n s" and t: "t < length (pcs s)" "pcs s ! t = I_store x"
  defines "r \<equiv> rear (sb s) + 1"
  shows "buf_inv n (s\<lparr>sb := (sb s)\<lparr>rear := r, sb_buf := (sb_buf (sb s))[nat (r mod sb_n (sb s)) := x]\<rparr>,
    pcs := (pcs s)[t := I_unlock], inserted := inserted s @ [x]\<rparr>)"
proof -
  note I = buf_invD [OF i]
  have c: "1 \<le> count_pcs reserved (pcs s)" using count_pos [OF t(1)] t(2) by simp
  note nn = count_nonneg [of unannounced "pcs s"] count_nonneg [of claimed "pcs s"] count_nonneg [of unreleased "pcs s"]
  have rf: "0 \<le> rear (sb s) - front (sb s)" "r - front (sb s) \<le> int n" "0 < int n" using I(4,5) c nn by (simp_all add: r_def)
  let ?b = "(sb_buf (sb s))[nat (r mod int n) := x]"
  have "?b ! nat (k mod int n) = (inserted s @ [x]) ! nat (k - 1)" if k: "front (sb s) < k" "k \<le> r" for k
  proof (cases "k = r")
    case True
    have "nat (r mod int n) < n" using rf(3) by (simp add: nat_less_iff)
    moreover have "nat (r - 1) = length (inserted s)" using I(7) by (simp add: r_def)
    ultimately show ?thesis using True I(2) by (simp add: nth_append)
  next
    case False
    then have "r mod int n \<noteq> k mod int n" using k rf(2) by (intro mod_apart) auto
    then have "nat (r mod int n) \<noteq> nat (k mod int n)" using rf(3) by (simp add: eq_nat_nat_iff)
    moreover have "nat (k - 1) < length (inserted s)" using False k I(3,7) by (simp add: r_def)
    ultimately show ?thesis using I(9) [of k] k False by (simp add: r_def nth_append)
  qed
  moreover have "nat (front (sb s)) \<le> length (inserted s)" using I(7) rf(1) by simp
  ultimately show ?thesis
    using I t(2) by (simp add: buf_inv_def count_update [OF t(1)] r_def)
qed

lemma inv_load:
  assumes i: "buf_inv n s" and t: "t < length (pcs s)" "pcs s ! t = R_load"
  defines "f \<equiv> front (sb s) + 1"
  shows "buf_inv n (s\<lparr>sb := (sb s)\<lparr>front := f\<rparr>, pcs := (pcs s)[t := R_unlock (sb_buf (sb s) ! nat (f mod sb_n (sb s)))],
    removed := removed s @ [sb_buf (sb s) ! nat (f mod sb_n (sb s))]\<rparr>)"
proof -
  note I = buf_invD [OF i]
  have c: "1 \<le> count_pcs claimed (pcs s)" using count_pos [OF t(1)] t(2) by simp
  have rf: "f \<le> rear (sb s)" using I(4) c count_nonneg [of unannounced "pcs s"] by (simp add: f_def)
  have x: "sb_buf (sb s) ! nat (f mod int n) = inserted s ! nat (front (sb s))" using I(9) [of f] rf by (simp add: f_def)
  have "nat (front (sb s)) < length (inserted s)" "nat f = Suc (nat (front (sb s)))" using I(3,7) rf by (simp_all add: f_def)
  then have "take (nat f) (inserted s) = removed s @ [sb_buf (sb s) ! nat (f mod int n)]"
    using x I(8) by (simp add: take_Suc_conv_app_nth)
  then show ?thesis using I t(2) by (simp add: buf_inv_def count_update [OF t(1)] f_def)
qed

lemma inv_step:
  assumes i: "buf_inv n s" and t: "t < length (pcs s)" "thread_step (pcs s ! t) (sb s) = Goes p b"
  shows "buf_inv n (s\<lparr>sb := b, pcs := (pcs s)[t := p], inserted := inserted s @ put_of (pcs s ! t), removed := removed s @ got_of (pcs s ! t) p\<rparr>)"
proof (cases "pcs s ! t = R_load \<or> (\<exists>x. pcs s ! t = I_store x)")
  case True
  then show ?thesis
    using t inv_store [OF i t(1)] inv_load [OF i t(1)] by (auto simp: put_of_def got_of_def Let_def split: if_splits)
next
  case False
  have 1: "1 \<le> count_pcs critical (pcs s)" if "critical (pcs s ! t)" using that by (rule count_pos [OF t(1)])
  have "put_of (pcs s ! t) = []" "got_of (pcs s ! t) p = []" using False by (auto simp: put_of_def got_of_def split: pc.splits)
  moreover have "buf_inv n (s\<lparr>sb := b, pcs := (pcs s)[t := p]\<rparr>)"
    by (rule inv_counts [OF i t(1)]) (use t(2) False in \<open>cases "pcs s ! t"; auto simp: P_def V_def split: if_splits\<close>)+
  ultimately show ?thesis by simp
qed

lemma buf_run_inv: "buf_run n threads s \<Longrightarrow> buf_inv n s \<and> length (pcs s) = threads"
proof (induction rule: buf_run.induct)
  case start
  then show ?case by (auto simp: buf_inv_def sbuf_init_def count_pcs_def)
next
  case (insert s t x)
  then show ?case using inv_counts [of n s t "sb s" "I_slots x"] by simp
next
  case (remove s t)
  then show ?case using inv_counts [of n s t "sb s" R_items] by simp
next
  case (step s t p b)
  then show ?case using inv_step [of n s t p b] by simp
qed

lemma sbuf_safe_bounds: "buf_run n threads s \<Longrightarrow> 0 \<le> rear (sb s) - front (sb s) \<and> rear (sb s) - front (sb s) \<le> int n"
  using buf_run_inv [of n threads s] buf_invD(4,5) [of n s] count_nonneg [of unannounced "pcs s"] count_nonneg [of claimed "pcs s"]
    count_nonneg [of reserved "pcs s"] count_nonneg [of unreleased "pcs s"] by simp

text \<open>One thread that has filled the only slot and starts to insert again.\<close>

definition full_one :: buf_sys where
  "full_one = \<lparr>sb = \<lparr>sb_buf = [7], sb_n = 1, front = 0, rear = 1, mutex = 1, slots = 0, items = 1\<rparr>, pcs = [I_slots 8], inserted = [7], removed = []\<rparr>"

lemma buf_run_full_one: "buf_run 1 1 full_one"
proof -
  let ?s = "\<lambda>mx sl it r b p i. \<lparr>sb = \<lparr>sb_buf = [b], sb_n = 1, front = 0, rear = r, mutex = mx, slots = sl, items = it\<rparr>, pcs = [p], inserted = i, removed = []\<rparr>"
  have "buf_run 1 1 (?s 1 1 0 0 0 Idle [])" using buf_run.start [of 1 1] by (simp add: sbuf_init_def)
  from buf_run.insert [OF this, of 0 7] have "buf_run 1 1 (?s 1 1 0 0 0 (I_slots 7) [])" by simp
  from buf_run.step [OF this, of 0] have "buf_run 1 1 (?s 1 0 0 0 0 (I_mutex 7) [])" by (simp add: P_def put_of_def got_of_def)
  from buf_run.step [OF this, of 0] have "buf_run 1 1 (?s 0 0 0 0 0 (I_store 7) [])" by (simp add: P_def put_of_def got_of_def)
  from buf_run.step [OF this, of 0] have "buf_run 1 1 (?s 0 0 0 1 7 I_unlock [7])" by (simp add: put_of_def got_of_def INT_MAX_def)
  from buf_run.step [OF this, of 0] have "buf_run 1 1 (?s 1 0 0 1 7 I_items [7])" by (simp add: V_def put_of_def got_of_def)
  from buf_run.step [OF this, of 0] have "buf_run 1 1 (?s 1 0 1 1 7 Idle [7])" by (simp add: V_def put_of_def got_of_def)
  from buf_run.insert [OF this, of 0 8] show ?thesis by (simp add: full_one_def)
qed

section \<open>Properties\<close>

text \<open>C9: However the threads interleave, at most one of them is in a critical section, the number of items between
  \<open>front\<close> and \<open>rear\<close> stays between 0 and \<open>n\<close>, and the semaphores count the free and the filled slots that no
  thread has claimed.\<close>

theorem sbuf_safe:
  assumes "buf_run n threads s"
  shows "count_pcs critical (pcs s) \<le> 1 \<and> 0 \<le> rear (sb s) - front (sb s) \<and> rear (sb s) - front (sb s) \<le> int n \<and>
    int (items (sb s)) = (rear (sb s) - front (sb s)) - count_pcs unannounced (pcs s) - count_pcs claimed (pcs s) \<and>
    int (slots (sb s)) = int n - (rear (sb s) - front (sb s)) - count_pcs reserved (pcs s) - count_pcs unreleased (pcs s)"
proof -
  have "buf_inv n s" using buf_run_inv [OF assms] by simp
  note I = buf_invD(4-6) [OF this]
  show ?thesis using I count_nonneg [of unannounced "pcs s"] count_nonneg [of claimed "pcs s"] count_nonneg [of reserved "pcs s"]
      count_nonneg [of unreleased "pcs s"] by (auto simp del: of_nat_add)
qed

theorem sbuf_safe_witness: "buf_run 1 1 full_one \<and> count_pcs critical (pcs full_one) \<le> 1 \<and> rear (sb full_one) - front (sb full_one) \<le> 1"
  using buf_run_full_one sbuf_safe [OF buf_run_full_one] by simp

text \<open>C8: The buffer is first in, first out: what has been removed is the beginning of what has been inserted, in
  the same order, and what is missing is what the slots hold, at most \<open>n\<close> items.\<close>

theorem sbuf_fifo:
  assumes "buf_run n threads s"
  shows "inserted s = removed s @ map (\<lambda>k. sb_buf (sb s) ! nat (k mod int n)) [front (sb s) + 1..rear (sb s)] \<and>
    length (inserted s) \<le> length (removed s) + n"
proof -
  have "buf_inv n s" using buf_run_inv [OF assms] by simp
  note I = buf_invD [OF this]
  have le: "front (sb s) \<le> rear (sb s)" "rear (sb s) \<le> front (sb s) + int n"
    using sbuf_safe_bounds [OF assms] by simp_all
  have "drop (nat (front (sb s))) (inserted s) = map (\<lambda>k. sb_buf (sb s) ! nat (k mod int n)) [front (sb s) + 1..rear (sb s)]"
  proof (rule nth_equalityI)
    show "length (drop (nat (front (sb s))) (inserted s)) = length (map (\<lambda>k. sb_buf (sb s) ! nat (k mod int n)) [front (sb s) + 1..rear (sb s)])"
      using I(3,7) le(1) by (simp add: nat_diff_distrib')
  next
    fix j assume j: "j < length (drop (nat (front (sb s))) (inserted s))"
    let ?k = "front (sb s) + 1 + int j"
    have k: "?k \<le> rear (sb s)" "nat (?k - 1) = nat (front (sb s)) + j" using j I(3,7) by (simp_all add: nat_add_distrib)
    have "[front (sb s) + 1..rear (sb s)] ! j = ?k" using k(1) by (simp add: nth_upto)
    then show "drop (nat (front (sb s))) (inserted s) ! j = map (\<lambda>k. sb_buf (sb s) ! nat (k mod int n)) [front (sb s) + 1..rear (sb s)] ! j"
      using j I(3,7) I(9) [of ?k] k by simp
  qed
  then have "inserted s = removed s @ map (\<lambda>k. sb_buf (sb s) ! nat (k mod int n)) [front (sb s) + 1..rear (sb s)]"
    using I(8) append_take_drop_id [of "nat (front (sb s))" "inserted s"] by simp
  moreover have "length (inserted s) \<le> length (removed s) + n" using I(3,7,8) le by simp
  ultimately show ?thesis by blast
qed

theorem sbuf_fifo_witness: "buf_run 1 1 full_one \<and> [7] = removed full_one @ map (\<lambda>k. sb_buf (sb full_one) ! nat (k mod 1)) [1..1]"
  using buf_run_full_one sbuf_fifo [OF buf_run_full_one] by (simp add: full_one_def)

text \<open>C25: The threads do not block each other for ever: when none of the calls in progress can take a step, and
  the counters are within the range of \<open>int\<close>, then all of them insert into a full buffer, or all of them remove from an
  empty one.\<close>

theorem sbuf_no_deadlock:
  assumes "buf_run n threads s" "0 < n" "rear (sb s) < INT_MAX" "\<forall>t < threads. thread_step (pcs s ! t) (sb s) = Waits"
  shows "(\<forall>t < threads. pcs s ! t = Idle \<or> (\<exists>x. pcs s ! t = I_slots x) \<and> rear (sb s) - front (sb s) = int n) \<or>
    (\<forall>t < threads. pcs s ! t = Idle \<or> pcs s ! t = R_items \<and> rear (sb s) = front (sb s))"
proof -
  have i: "buf_inv n s" "length (pcs s) = threads" using buf_run_inv [OF assms(1)] by simp_all
  note I = buf_invD [OF i(1)]
  have le: "front (sb s) \<le> rear (sb s)" using sbuf_safe_bounds [OF assms(1)] by simp
  have w: "pcs s ! t = Idle \<or> (\<exists>x. pcs s ! t = I_slots x) \<and> slots (sb s) = 0 \<or> (\<exists>x. pcs s ! t = I_mutex x) \<and> mutex (sb s) = 0 \<or>
      pcs s ! t = R_items \<and> items (sb s) = 0 \<or> pcs s ! t = R_mutex \<and> mutex (sb s) = 0" if "t < threads" for t
    using assms(2-4) that le I(1) by (cases "pcs s ! t") (auto simp: P_def Let_def split: if_splits)
  have zero: "count_pcs Q (pcs s) = 0" if "\<And>t. t < threads \<Longrightarrow> \<not> Q (pcs s ! t)" for Q
    using that i(2) by (auto simp: count_pcs_def filter_empty_conv in_set_conv_nth)
  have "count_pcs critical (pcs s) = 0" by (rule zero) (use w in fastforce)
  then have m: "mutex (sb s) = 1" using I(6) by simp
  then have w': "pcs s ! t = Idle \<or> (\<exists>x. pcs s ! t = I_slots x) \<and> slots (sb s) = 0 \<or> pcs s ! t = R_items \<and> items (sb s) = 0" if "t < threads" for t
    using w [OF that] by auto
  have "count_pcs unannounced (pcs s) = 0" "count_pcs claimed (pcs s) = 0" "count_pcs reserved (pcs s) = 0" "count_pcs unreleased (pcs s) = 0"
    by (rule zero, use w' in fastforce)+
  then have "rear (sb s) - front (sb s) = int (items (sb s))" "int n = int (slots (sb s)) + int (items (sb s))" using I(4,5) by simp_all
  then show ?thesis using w' assms(2) by (cases "items (sb s) = 0") auto
qed

theorem sbuf_no_deadlock_witness:
  "buf_run 1 1 full_one \<and> thread_step (pcs full_one ! 0) (sb full_one) = Waits \<and> rear (sb full_one) - front (sb full_one) = 1"
proof -
  have "(\<forall>t<1. pcs full_one ! t = Idle \<or> (\<exists>x. pcs full_one ! t = I_slots x) \<and> rear (sb full_one) - front (sb full_one) = int 1) \<or>
      (\<forall>t<1. pcs full_one ! t = Idle \<or> pcs full_one ! t = R_items \<and> rear (sb full_one) = front (sb full_one))"
    by (rule sbuf_no_deadlock [OF buf_run_full_one]) (simp_all add: full_one_def P_def INT_MAX_def)
  then show ?thesis using buf_run_full_one by (simp add: full_one_def P_def)
qed

end
