(* ===== verification/Popen.thy ===== *)
theory Popen
  imports Prelude
begin

text \<open>
  The \<open>popen\<close> and \<open>pclose\<close> of \<^verbatim>\<open>src/c_code/apue/popen_close.c\<close>.  The state of the process is its table
  \<open>childpid\<close> with its length \<open>maxfd\<close>, its open descriptors, the children it has not waited for, and what
  each child executed with which descriptors.  A stream is known by its descriptor.  What the system answers to
  one call is a record; \<open>popen_legal\<close> states what the manual promises of \<open>pipe\<close> and \<open>fork\<close>.  Waiting for a child
  may be interrupted again and again, so the loop is a partial function.  The table is shown to refine a finite
  map from streams to children, and the descriptors of a child are given exactly.
\<close>

section \<open>Definitions\<close>

datatype fobj = Pipe_read nat | Pipe_write nat | Other_file nat

type_synonym fdtable = "int \<rightharpoonup> fobj"

datatype popen_error = Out_of_table | Waits_for_ever

record process =
  childpid :: "int list option"
  maxfd :: int
  p_errno :: int
  fdtab :: fdtable
  npipes :: nat
  kids :: "int set"
  execs :: "(int \<times> string list \<times> fdtable) list"

record popen_answers =
  open_max :: int
  calloc_ok :: bool
  pipe_fds :: "(int \<times> int) option"
  fork_pid :: int
  fdopen_ok :: bool
  popen_errno :: int

datatype waited = W_status int | W_error int

record pclose_answers =
  fclose_ok :: bool
  waits :: "nat \<Rightarrow> waited"
  pclose_errno :: int

definition EINTR :: int where "EINTR = 4"
definition EINVAL :: int where "EINVAL = 22"
definition EMFILE :: int where "EMFILE = 24"

abbreviation (input) STDIN_FILENO :: int where "STDIN_FILENO \<equiv> 0"
abbreviation (input) STDOUT_FILENO :: int where "STDOUT_FILENO \<equiv> 1"

definition fd_close :: "int \<Rightarrow> fdtable \<Rightarrow> fdtable" where
  "fd_close fd t = t(fd := None)"

definition fd_dup2 :: "int \<Rightarrow> int \<Rightarrow> fdtable \<Rightarrow> fdtable" where
  "fd_dup2 fd fd2 t = (if t fd = None then t else t(fd2 := t fd))"

text \<open>The check of the argument \<open>type\<close>, and the table allocated by the first call.\<close>

definition type_ok :: "string \<Rightarrow> bool" where
  "type_ok type = (type = ''r'' \<or> type = ''w'')"

definition init_table :: "popen_answers \<Rightarrow> process \<Rightarrow> bool \<times> process" where
  "init_table e s = (case childpid s of
       Some _ \<Rightarrow> (True, s)
     | None \<Rightarrow>
         let s1 = s\<lparr>maxfd := to_int32 (open_max e)\<rparr> in
         if calloc_ok e \<and> 0 \<le> maxfd s1 then (True, s1\<lparr>childpid := Some (replicate (nat (maxfd s1)) 0)\<rparr>)
         else (False, s1\<lparr>p_errno := popen_errno e\<rparr>))"

text \<open>The child: its end of the pipe becomes a standard stream, and the loop closes the streams of the parent.\<close>

function close_streams :: "int list \<Rightarrow> int \<Rightarrow> int \<Rightarrow> fdtable \<Rightarrow> popen_error + fdtable" where
  "close_streams pids i m t =
     (if i < m
      then if i < 0 \<or> int (length pids) \<le> i then Inl Out_of_table
           else close_streams pids (i + 1) m (if pids ! nat i > 0 then fd_close i t else t)
      else Inr t)"
  by auto
termination by (relation "measure (\<lambda>(pids, i, m, t). nat (m - i))") auto

declare close_streams.simps [simp del]

definition child_pipe :: "string \<Rightarrow> int \<Rightarrow> int \<Rightarrow> fdtable \<Rightarrow> fdtable" where
  "child_pipe type p0 p1 t =
     (if type = ''r''
      then let t1 = fd_close p0 t in
           if p1 \<noteq> STDOUT_FILENO then fd_close p1 (fd_dup2 p1 STDOUT_FILENO t1) else t1
      else let t1 = fd_close p1 t in
           if p0 \<noteq> STDIN_FILENO then fd_close p0 (fd_dup2 p0 STDIN_FILENO t1) else t1)"

text \<open>The parent after \<open>fork\<close>.\<close>

definition popen_parent :: "popen_answers \<Rightarrow> string \<Rightarrow> int \<Rightarrow> int \<Rightarrow> process \<Rightarrow> popen_error + int option \<times> process" where
  "popen_parent e type p0 p1 s =
     (let (fd, other) = (if type = ''r'' then (p0, p1) else (p1, p0));
          s1 = s\<lparr>fdtab := fd_close other (fdtab s)\<rparr> in
      if \<not> fdopen_ok e then Inr (None, s1\<lparr>p_errno := popen_errno e\<rparr>)
      else case childpid s1 of
          None \<Rightarrow> Inl Out_of_table
        | Some pids \<Rightarrow>
            if fd < 0 \<or> int (length pids) \<le> fd then Inl Out_of_table
            else Inr (Some fd, s1\<lparr>childpid := Some (pids[nat fd := fork_pid e])\<rparr>))"

definition popen :: "popen_answers \<Rightarrow> string \<Rightarrow> string \<Rightarrow> process \<Rightarrow> popen_error + int option \<times> process" where
  "popen e cmdstring type s =
     (if \<not> type_ok type then Inr (None, s\<lparr>p_errno := EINVAL\<rparr>)
      else let (ok, s1) = init_table e s in
      if \<not> ok then Inr (None, s1)
      else case pipe_fds e of
        None \<Rightarrow> Inr (None, s1\<lparr>p_errno := popen_errno e\<rparr>)
      | Some (p0, p1) \<Rightarrow>
          let s2 = s1\<lparr>fdtab := (fdtab s1)(p0 \<mapsto> Pipe_read (npipes s1), p1 \<mapsto> Pipe_write (npipes s1)),
                      npipes := npipes s1 + 1\<rparr> in
          if p0 \<ge> maxfd s2 \<or> p1 \<ge> maxfd s2
          then Inr (None, s2\<lparr>fdtab := fd_close p1 (fd_close p0 (fdtab s2)), p_errno := EMFILE\<rparr>)
          else if fork_pid e < 0 then Inr (None, s2\<lparr>p_errno := popen_errno e\<rparr>)
          else andthen (close_streams (the (childpid s2)) 0 (maxfd s2) (child_pipe type p0 p1 (fdtab s2)))
            (\<lambda>t. popen_parent e type p0 p1
                   (s2\<lparr>kids := insert (fork_pid e) (kids s2),
                       execs := execs s2 @ [(fork_pid e, [''sh'', ''-c'', cmdstring], t)]\<rparr>)))"

text \<open>Closing: the loop around \<open>waitpid\<close> starts again after an interrupt.\<close>

partial_function (option) wait_loop :: "(nat \<Rightarrow> waited) \<Rightarrow> nat \<Rightarrow> (int + int) option" where
  "wait_loop w i = (case w i of
       W_status stat \<Rightarrow> Some (Inr stat)
     | W_error n \<Rightarrow> if n \<noteq> EINTR then Some (Inl n) else wait_loop w (Suc i))"

definition pclose :: "pclose_answers \<Rightarrow> int \<Rightarrow> process \<Rightarrow> popen_error + int \<times> process" where
  "pclose e fd s = (case childpid s of
       None \<Rightarrow> Inr (- 1, s\<lparr>p_errno := EINVAL\<rparr>)
     | Some pids \<Rightarrow>
         if fd \<ge> maxfd s then Inr (- 1, s\<lparr>p_errno := EINVAL\<rparr>)
         else if fd < 0 \<or> int (length pids) \<le> fd then Inl Out_of_table
         else let pid = pids ! nat fd in
         if pid = 0 then Inr (- 1, s\<lparr>p_errno := EINVAL\<rparr>)
         else let s1 = s\<lparr>childpid := Some (pids[nat fd := 0]), fdtab := fd_close fd (fdtab s)\<rparr> in
         if \<not> fclose_ok e then Inr (- 1, s1\<lparr>p_errno := pclose_errno e\<rparr>)
         else case wait_loop (waits e) 0 of
             None \<Rightarrow> Inl Waits_for_ever
           | Some (Inl n) \<Rightarrow> Inr (- 1, s1\<lparr>p_errno := n\<rparr>)
           | Some (Inr stat) \<Rightarrow> Inr (stat, s1\<lparr>kids := kids s1 - {pid}\<rparr>))"

definition process_start :: "fdtable \<Rightarrow> process" where
  "process_start t = \<lparr>childpid = None, maxfd = 0, p_errno = 0, fdtab = t, npipes = 0, kids = {}, execs = []\<rparr>"

section \<open>Specification\<close>

text \<open>The streams that are open and the children behind them; what the manual promises of \<open>pipe\<close> and \<open>fork\<close>; the
  invariant: the table has the length it was allocated with, every entry is a child that was not waited for behind
  an open descriptor, and no two streams share a child.\<close>

definition streams :: "process \<Rightarrow> int \<rightharpoonup> int" where
  "streams s fd = (case childpid s of
       None \<Rightarrow> None
     | Some pids \<Rightarrow> if 0 \<le> fd \<and> fd < int (length pids) \<and> pids ! nat fd > 0 then Some (pids ! nat fd) else None)"

definition popen_legal :: "process \<Rightarrow> popen_answers \<Rightarrow> bool" where
  "popen_legal s e \<longleftrightarrow>
     (\<forall>p0 p1. pipe_fds e = Some (p0, p1) \<longrightarrow> 0 \<le> p0 \<and> 0 \<le> p1 \<and> p0 \<noteq> p1 \<and> fdtab s p0 = None \<and> fdtab s p1 = None) \<and>
     fork_pid e \<noteq> 0 \<and> fork_pid e \<notin> kids s"

definition popen_ok :: "process \<Rightarrow> bool" where
  "popen_ok s \<longleftrightarrow>
     (\<forall>pids. childpid s = Some pids \<longrightarrow> int (length pids) = maxfd s \<and> (\<forall>pid\<in>set pids. 0 \<le> pid)) \<and>
     ran (streams s) \<subseteq> kids s \<and> dom (streams s) \<subseteq> dom (fdtab s) \<and> inj_on (streams s) (dom (streams s))"

record stream_table =
  limit :: "int option"
  opened :: "int \<rightharpoonup> int"
  unwaited :: "int set"

datatype stream_call = Popen popen_answers string string | Pclose pclose_answers int
datatype stream_reply = Opened "int option" | Closed int

definition first_answer :: "(nat \<Rightarrow> waited) \<Rightarrow> waited" where
  "first_answer w = w (LEAST i. w i \<noteq> W_error EINTR)"

definition new_limit :: "popen_answers \<Rightarrow> int option \<Rightarrow> int option" where
  "new_limit e l = (if l = None \<and> calloc_ok e \<and> 0 \<le> to_int32 (open_max e) then Some (to_int32 (open_max e)) else l)"

fun table_step :: "stream_table \<Rightarrow> stream_call \<Rightarrow> stream_reply \<times> stream_table" where
  "table_step m (Popen e cmd type) =
     (if \<not> type_ok type then (Opened None, m)
      else case (new_limit e (limit m), pipe_fds e) of
        (Some l, Some (p0, p1)) \<Rightarrow>
          let fd = (if type = ''r'' then p0 else p1);
              m1 = m\<lparr>limit := Some l\<rparr>;
              m2 = m1\<lparr>unwaited := insert (fork_pid e) (unwaited m)\<rparr> in
          if l \<le> p0 \<or> l \<le> p1 \<or> fork_pid e < 0 then (Opened None, m1)
          else if \<not> fdopen_ok e then (Opened None, m2)
          else (Opened (Some fd), m2\<lparr>opened := (opened m)(fd \<mapsto> fork_pid e)\<rparr>)
      | (l, _) \<Rightarrow> (Opened None, m\<lparr>limit := l\<rparr>))"
| "table_step m (Pclose e fd) =
     (case opened m fd of
        None \<Rightarrow> (Closed (- 1), m)
      | Some pid \<Rightarrow>
          let m1 = m\<lparr>opened := (opened m)(fd := None)\<rparr> in
          if \<not> fclose_ok e then (Closed (- 1), m1)
          else case first_answer (waits e) of
              W_status stat \<Rightarrow> (Closed stat, m1\<lparr>unwaited := unwaited m - {pid}\<rparr>)
            | W_error n \<Rightarrow> (Closed (- 1), m1))"

fun proc_step :: "process \<Rightarrow> stream_call \<Rightarrow> popen_error + stream_reply \<times> process" where
  "proc_step s (Popen e cmd type) = andthen (popen e cmd type s) (\<lambda>(r, s'). Inr (Opened r, s'))"
| "proc_step s (Pclose e fd) = andthen (pclose e fd s) (\<lambda>(r, s'). Inr (Closed r, s'))"

fun stream_call_ok :: "process \<Rightarrow> stream_call \<Rightarrow> bool" where
  "stream_call_ok s (Popen e cmd type) = popen_legal s e"
| "stream_call_ok s (Pclose e fd) = (0 \<le> fd \<and> (\<exists>i. waits e i \<noteq> W_error EINTR))"

definition stream_rep :: "process \<Rightarrow> stream_table \<Rightarrow> bool" where
  "stream_rep s m \<longleftrightarrow> popen_ok s \<and> limit m = map_option (\<lambda>_. maxfd s) (childpid s) \<and> opened m = streams s \<and> unwaited m = kids s"

section \<open>Lemmas\<close>

subsection \<open>The loop around \<open>waitpid\<close>\<close>

lemma wait_loop_skip: "(\<forall>j. i \<le> j \<and> j < k \<longrightarrow> w j = W_error EINTR) \<Longrightarrow> i \<le> k \<Longrightarrow> wait_loop w i = wait_loop w k"
proof (induction "k - i" arbitrary: i)
  case (Suc d)
  then have "wait_loop w i = wait_loop w (Suc i)" by (subst wait_loop.simps) simp
  with Suc show ?case by simp
qed simp

lemma wait_loop_first:
  assumes "\<exists>i. w i \<noteq> W_error EINTR"
  shows "wait_loop w 0 = Some (case first_answer w of W_status stat \<Rightarrow> Inr stat | W_error n \<Rightarrow> Inl n)"
proof -
  let ?k = "LEAST i. w i \<noteq> W_error EINTR"
  have k: "w ?k \<noteq> W_error EINTR" using assms by (rule LeastI_ex)
  have "wait_loop w 0 = wait_loop w ?k" by (rule wait_loop_skip) (auto dest: not_less_Least)
  with k show ?thesis by (subst (asm) (2) wait_loop.simps) (auto simp: first_answer_def split: waited.splits)
qed

subsection \<open>The descriptors of the child\<close>

lemma close_streams_eq:
  assumes "0 \<le> i" "m = int (length pids)"
  shows "close_streams pids i m t = Inr (\<lambda>fd. if i \<le> fd \<and> fd < m \<and> pids ! nat fd > 0 then None else t fd)"
  using assms
proof (induction pids i m t rule: close_streams.induct)
  case (1 pids i m t)
  show ?case
  proof (cases "i < m")
    case True
    with 1 have "close_streams pids i m t =
      Inr (\<lambda>fd. if i + 1 \<le> fd \<and> fd < m \<and> pids ! nat fd > 0 then None else (if pids ! nat i > 0 then fd_close i t else t) fd)"
      by (subst close_streams.simps) simp
    also have "\<dots> = Inr (\<lambda>fd. if i \<le> fd \<and> fd < m \<and> pids ! nat fd > 0 then None else t fd)"
    proof -
      have "i \<le> fd \<longleftrightarrow> fd = i \<or> i + 1 \<le> fd" for fd by auto
      with True show ?thesis by (auto simp: fun_eq_iff fd_close_def)
    qed
    finally show ?thesis .
  qed (subst close_streams.simps, auto simp: fun_eq_iff)
qed

lemma child_pipe_eq:
  assumes "p0 \<noteq> p1" "t p0 = Some a" "t p1 = Some b"
  shows "child_pipe type p0 p1 t =
    (\<lambda>fd. if fd = (if type = ''r'' then STDOUT_FILENO else STDIN_FILENO) then Some (if type = ''r'' then b else a)
          else if fd = p0 \<or> fd = p1 then None else t fd)"
  using assms by (auto simp: child_pipe_def fd_close_def fd_dup2_def fun_eq_iff Let_def)

subsection \<open>Every call refines its specification\<close>

lemma streams_None [simp]: "childpid s = None \<Longrightarrow> streams s = Map.empty"
  by (simp add: streams_def fun_eq_iff)

lemma streams_Some: "childpid s = Some pids \<Longrightarrow>
  streams s = (\<lambda>fd. if 0 \<le> fd \<and> fd < int (length pids) \<and> pids ! nat fd > 0 then Some (pids ! nat fd) else None)"
  by (simp add: streams_def fun_eq_iff)

text \<open>Writing an entry of the table is an update of the map.\<close>

lemma streams_update:
  assumes "childpid s = Some pids" "0 \<le> fd" "fd < int (length pids)" "childpid s' = Some (pids[nat fd := pid])"
  shows "streams s' = (streams s)(fd := if 0 < pid then Some pid else None)"
proof
  fix x
  have "nat fd = nat x \<longleftrightarrow> fd = x" if "0 \<le> x" using that assms(2) by auto
  with assms show "streams s' x = ((streams s)(fd := if 0 < pid then Some pid else None)) x"
    by (auto simp: streams_def nth_list_update nat_less_iff)
qed

lemma streams_cong: "childpid s = childpid s' \<Longrightarrow> streams s = streams s'"
  by (simp add: streams_def fun_eq_iff)

lemma popen_okD:
  assumes "popen_ok s" "childpid s = Some pids"
  shows "int (length pids) = maxfd s" "pid \<in> set pids \<Longrightarrow> 0 \<le> pid"
  using assms by (auto simp: popen_ok_def)

lemma entry_stream: "popen_ok s \<Longrightarrow> childpid s = Some pids \<Longrightarrow> 0 \<le> fd \<Longrightarrow> fd < maxfd s \<Longrightarrow>
  streams s fd = (if pids ! nat fd = 0 then None else Some (pids ! nat fd))"
  using popen_okD(1) [of s pids] popen_okD(2) [of s pids "pids ! nat fd"] by (force simp: streams_def)

lemma popen_ok_mono:
  assumes "popen_ok s" "childpid s' = childpid s" "maxfd s' = maxfd s" "kids s \<subseteq> kids s'" "dom (fdtab s) \<subseteq> dom (fdtab s')"
  shows "popen_ok s'"
  using assms streams_cong [of s' s] unfolding popen_ok_def by (simp, blast)

lemma close_entry_ok:
  assumes "popen_ok s" "childpid s = Some pids" "streams s fd = Some pid"
    and "childpid s' = Some (pids[nat fd := 0])" "maxfd s' = maxfd s" "fdtab s' = fd_close fd (fdtab s)" "kids s - {pid} \<subseteq> kids s'"
  shows "popen_ok s' \<and> streams s' = (streams s)(fd := None)"
proof -
  have upd: "streams s' = (streams s)(fd := None)"
    using assms(3) streams_update [OF assms(2) _ _ assms(4)] by (auto simp: streams_Some [OF assms(2)] split: if_splits)
  have inj: "inj_on (streams s) (dom (streams s))" and ran: "ran (streams s) \<subseteq> kids s" and dom: "dom (streams s) \<subseteq> dom (fdtab s)"
    using assms(1) by (simp_all add: popen_ok_def)
  have "ran ((streams s)(fd := None)) \<subseteq> kids s - {pid}"
  proof
    fix q assume "q \<in> ran ((streams s)(fd := None))"
    then obtain x where "x \<noteq> fd" "streams s x = Some q" by (auto simp: ran_def split: if_splits)
    with inj ran assms(3) show "q \<in> kids s - {pid}" by (auto simp: inj_on_def dom_def intro: ranI)
  qed
  moreover have "inj_on ((streams s)(fd := None)) (dom (streams s) - {fd})"
    using inj by (auto simp: inj_on_def)
  moreover have "\<forall>q\<in>set (pids[nat fd := 0]). 0 \<le> q"
    using popen_okD(2) [OF assms(1,2)] set_update_subset_insert by fastforce
  ultimately show ?thesis
    using popen_okD(1) [OF assms(1,2)] dom assms(4-7) unfolding popen_ok_def upd by (auto simp: fd_close_def)
qed

lemma open_entry_ok:
  assumes "popen_ok s" "childpid s = Some pids" "0 \<le> fd" "fd < maxfd s" "0 < pid" "pid \<notin> kids s"
    and "childpid s' = Some (pids[nat fd := pid])" "maxfd s' = maxfd s" "insert fd (dom (fdtab s)) \<subseteq> dom (fdtab s')" "kids s' = insert pid (kids s)"
  shows "popen_ok s' \<and> streams s' = (streams s)(fd \<mapsto> pid)"
proof -
  have upd: "streams s' = (streams s)(fd \<mapsto> pid)"
    using streams_update [OF assms(2) assms(3) _ assms(7)] popen_okD(1) [OF assms(1,2)] assms(4,5) by simp
  have inj: "inj_on (streams s) (dom (streams s))" and ran: "ran (streams s) \<subseteq> kids s" and dom: "dom (streams s) \<subseteq> dom (fdtab s)"
    using assms(1) by (simp_all add: popen_ok_def)
  have "ran ((streams s)(fd \<mapsto> pid)) \<subseteq> insert pid (kids s)"
    using ran by (auto simp: ran_def split: if_splits)
  moreover have "inj_on ((streams s)(fd \<mapsto> pid)) (dom ((streams s)(fd \<mapsto> pid)))"
    using inj ran assms(6) by (auto simp: inj_on_def dom_def ran_def)
  moreover have "\<forall>q\<in>set (pids[nat fd := pid]). 0 \<le> q"
    using popen_okD(2) [OF assms(1,2)] assms(5) set_update_subset_insert by fastforce
  moreover have "dom ((streams s)(fd \<mapsto> pid)) \<subseteq> dom (fdtab s')"
    using dom assms(9) by (simp, blast)
  ultimately show ?thesis
    using popen_okD(1) [OF assms(1,2)] assms(7,8,10) unfolding popen_ok_def upd by simp
qed

lemma pclose_no_stream:
  assumes "popen_ok s" "0 \<le> fd" "streams s fd = None"
  shows "pclose e fd s = Inr (- 1, s\<lparr>p_errno := EINVAL\<rparr>)"
  using assms entry_stream [of s _ fd] popen_okD(1) [of s]
  by (cases "childpid s") (auto simp: pclose_def Let_def split: if_splits)

lemma pclose_stream:
  assumes "popen_ok s" "childpid s = Some pids" "streams s fd = Some pid" "\<exists>i. waits e i \<noteq> W_error EINTR"
  shows "pclose e fd s =
    (let s1 = s\<lparr>childpid := Some (pids[nat fd := 0]), fdtab := fd_close fd (fdtab s)\<rparr> in
     if \<not> fclose_ok e then Inr (- 1, s1\<lparr>p_errno := pclose_errno e\<rparr>)
     else case first_answer (waits e) of
         W_status stat \<Rightarrow> Inr (stat, s1\<lparr>kids := kids s - {pid}\<rparr>)
       | W_error n \<Rightarrow> Inr (- 1, s1\<lparr>p_errno := n\<rparr>))"
proof -
  have "0 \<le> fd" "fd < maxfd s" "fd < int (length pids)" "pids ! nat fd = pid" "pid \<noteq> 0"
    using assms(3) popen_okD(1) [OF assms(1,2)] by (auto simp: streams_Some [OF assms(2)] split: if_splits)
  then show ?thesis
    by (simp add: pclose_def assms(2) wait_loop_first [OF assms(4)] Let_def split: waited.split)
qed

lemma stream_rep_closed:
  assumes "stream_rep s m" "childpid s = Some pids" "streams s fd = Some pid"
    and "childpid s' = Some (pids[nat fd := 0])" "maxfd s' = maxfd s" "fdtab s' = fd_close fd (fdtab s)" "kids s - {pid} \<subseteq> kids s'"
    and "limit m' = limit m" "opened m' = (opened m)(fd := None)" "unwaited m' = kids s'"
  shows "stream_rep s' m'"
  using assms(1) close_entry_ok [OF _ assms(2-7)] assms(2,4,5,8-10) by (simp add: stream_rep_def)

lemma pclose_step_ok:
  assumes rep: "stream_rep s m" and adm: "stream_call_ok s (Pclose e fd)"
  shows "\<exists>s'. proc_step s (Pclose e fd) = Inr (fst (table_step m (Pclose e fd)), s') \<and> stream_rep s' (snd (table_step m (Pclose e fd)))"
proof (cases "streams s fd")
  case None
  with rep adm have "pclose e fd s = Inr (- 1, s\<lparr>p_errno := EINVAL\<rparr>)" "opened m fd = None"
    using pclose_no_stream by (simp_all add: stream_rep_def)
  with rep show ?thesis
    using streams_cong [of "s\<lparr>p_errno := EINVAL\<rparr>" s] by (simp add: andthen_def stream_rep_def popen_ok_def)
next
  case (Some pid)
  then obtain pids where pids: "childpid s = Some pids" by (cases "childpid s") auto
  have *: "opened m fd = Some pid" "unwaited m = kids s" "popen_ok s" using rep Some by (simp_all add: stream_rep_def)
  show ?thesis
    using * pclose_stream [OF *(3) pids Some, of e] adm stream_rep_closed [OF rep pids Some]
    by (simp add: subset_iff andthen_def Let_def split: waited.split)
qed

lemma init_table_ok:
  assumes "popen_ok s" "init_table e s = (ok, s1)"
  shows "popen_ok s1" "streams s1 = streams s" "kids s1 = kids s" "fdtab s1 = fdtab s" "npipes s1 = npipes s" "execs s1 = execs s"
    and "ok \<longleftrightarrow> childpid s1 \<noteq> None"
    and "map_option (\<lambda>_. maxfd s1) (childpid s1) = new_limit e (map_option (\<lambda>_. maxfd s) (childpid s))"
proof -
  have "streams s1 = streams s"
    using assms(2) by (auto simp: init_table_def streams_def fun_eq_iff nth_replicate Let_def split: option.splits if_splits)
  then show "streams s1 = streams s" "popen_ok s1"
    using assms by (auto simp: init_table_def popen_ok_def Let_def split: option.splits if_splits)
qed (use assms in \<open>auto simp: init_table_def new_limit_def Let_def split: option.splits if_splits\<close>)

text \<open>A call of \<open>popen\<close> that gets as far as \<open>fork\<close>: the descriptors of the child, and the parent.\<close>

definition child_fds :: "string \<Rightarrow> int \<Rightarrow> int \<Rightarrow> process \<Rightarrow> fdtable" where
  "child_fds type p0 p1 s = (\<lambda>fd.
     if streams s fd \<noteq> None then None
     else if fd = (if type = ''r'' then STDOUT_FILENO else STDIN_FILENO)
     then Some (if type = ''r'' then Pipe_write (npipes s) else Pipe_read (npipes s))
     else if fd = p0 \<or> fd = p1 then None else fdtab s fd)"

lemma child_fds_eq:
  assumes "childpid s = Some pids" "m = int (length pids)" "p0 \<noteq> p1"
  shows "close_streams pids 0 m (child_pipe type p0 p1 ((fdtab s)(p0 \<mapsto> Pipe_read (npipes s), p1 \<mapsto> Pipe_write (npipes s)))) =
    Inr (child_fds type p0 p1 s)"
proof -
  let ?t = "(fdtab s)(p0 \<mapsto> Pipe_read (npipes s), p1 \<mapsto> Pipe_write (npipes s))"
  have "?t p0 = Some (Pipe_read (npipes s))" "?t p1 = Some (Pipe_write (npipes s))" using assms(3) by simp_all
  note pipe = child_pipe_eq [OF assms(3) this, of type]
  show ?thesis
    unfolding close_streams_eq [OF order_refl assms(2)] pipe child_fds_def streams_Some [OF assms(1)]
    using assms(2) by (auto simp: fun_eq_iff)
qed

lemma popen_forks:
  assumes s: "popen_ok s" "popen_legal s e" "type_ok type" and init: "init_table e s = (True, s1)" "childpid s1 = Some pids"
    and pipe: "pipe_fds e = Some (p0, p1)" "p0 < maxfd s1" "p1 < maxfd s1" and fork: "0 \<le> fork_pid e"
    and fd: "fd = (if type = ''r'' then p0 else p1)"
  shows "popen e cmd type s =
    (let s2 = s1\<lparr>fdtab := (fdtab s)(fd \<mapsto> if type = ''r'' then Pipe_read (npipes s) else Pipe_write (npipes s)), npipes := npipes s + 1,
                 kids := insert (fork_pid e) (kids s), execs := execs s @ [(fork_pid e, [''sh'', ''-c'', cmd], child_fds type p0 p1 s)]\<rparr> in
     if fdopen_ok e then Inr (Some fd, s2\<lparr>childpid := Some (pids[nat fd := fork_pid e])\<rparr>)
     else Inr (None, s2\<lparr>p_errno := popen_errno e\<rparr>))"
proof -
  note s1 = init_table_ok [OF s(1) init(1)]
  have p: "0 \<le> p0" "0 \<le> p1" "p0 \<noteq> p1" "fdtab s p0 = None" "fdtab s p1 = None"
    using s(2) pipe(1) by (simp_all add: popen_legal_def)
  have len: "maxfd s1 = int (length pids)" using popen_okD(1) [OF s1(1) init(2)] by simp
  have fds: "child_fds type p0 p1 s1 = child_fds type p0 p1 s" by (simp only: child_fds_def s1(2,4,5))
  have child: "close_streams pids 0 (int (length pids)) (child_pipe type p0 p1 ((fdtab s)(p0 \<mapsto> Pipe_read (npipes s), p1 \<mapsto> Pipe_write (npipes s)))) =
    Inr (child_fds type p0 p1 s)"
    using child_fds_eq [OF init(2) refl p(3), of type] by (simp only: s1(4,5) fds)
  have close: "fd_close p1 ((fdtab s)(p0 \<mapsto> a, p1 \<mapsto> b)) = (fdtab s)(p0 \<mapsto> a)"
    "fd_close p0 ((fdtab s)(p0 \<mapsto> a, p1 \<mapsto> b)) = (fdtab s)(p1 \<mapsto> b)" for a b
    using p by (auto simp: fd_close_def fun_eq_iff)
  have no: "\<not> (maxfd s1 \<le> p0 \<or> maxfd s1 \<le> p1)" "\<not> fork_pid e < 0" "\<not> (fd < 0 \<or> int (length pids) \<le> fd)"
    using pipe fork fd p(1,2) len by auto
  show ?thesis
  proof (cases "type = ''r''")
    case True
    with fd have "fd = p0" by simp
    with True no len child s(3) show ?thesis
      by (simp add: popen_def init pipe(1) s1(3-6) close andthen_def popen_parent_def Let_def)
  next
    case False
    with fd have "fd = p1" by simp
    with False no len child s(3) show ?thesis
      by (simp add: popen_def init pipe(1) s1(3-6) close andthen_def popen_parent_def Let_def)
  qed
qed

text \<open>The calls that end before.\<close>

lemma popen_no_child:
  assumes "popen_ok s" "popen_legal s e" "type_ok type" "init_table e s = (ok, s1)"
  shows "\<not> ok \<Longrightarrow> popen e cmd type s = Inr (None, s1)"
    and "ok \<Longrightarrow> pipe_fds e = None \<Longrightarrow> popen e cmd type s = Inr (None, s1\<lparr>p_errno := popen_errno e\<rparr>)"
    and "ok \<Longrightarrow> pipe_fds e = Some (p0, p1) \<Longrightarrow> maxfd s1 \<le> p0 \<or> maxfd s1 \<le> p1 \<Longrightarrow>
      popen e cmd type s = Inr (None, s1\<lparr>fdtab := fdtab s, npipes := npipes s + 1, p_errno := EMFILE\<rparr>)"
    and "ok \<Longrightarrow> pipe_fds e = Some (p0, p1) \<Longrightarrow> \<not> (maxfd s1 \<le> p0 \<or> maxfd s1 \<le> p1) \<Longrightarrow> fork_pid e < 0 \<Longrightarrow>
      popen e cmd type s = Inr (None, s1\<lparr>fdtab := (fdtab s)(p0 \<mapsto> Pipe_read (npipes s), p1 \<mapsto> Pipe_write (npipes s)),
        npipes := npipes s + 1, p_errno := popen_errno e\<rparr>)"
proof -
  note s1 = init_table_ok(3-6) [OF assms(1,4)]
  have close: "fd_close p1 (fd_close p0 ((fdtab s)(p0 \<mapsto> a, p1 \<mapsto> b))) = fdtab s" if "pipe_fds e = Some (p0, p1)" for a b
    using assms(2) that by (auto simp: popen_legal_def fd_close_def fun_eq_iff)
  show "\<not> ok \<Longrightarrow> popen e cmd type s = Inr (None, s1)"
    and "ok \<Longrightarrow> pipe_fds e = None \<Longrightarrow> popen e cmd type s = Inr (None, s1\<lparr>p_errno := popen_errno e\<rparr>)"
    and "ok \<Longrightarrow> pipe_fds e = Some (p0, p1) \<Longrightarrow> \<not> (maxfd s1 \<le> p0 \<or> maxfd s1 \<le> p1) \<Longrightarrow> fork_pid e < 0 \<Longrightarrow>
      popen e cmd type s = Inr (None, s1\<lparr>fdtab := (fdtab s)(p0 \<mapsto> Pipe_read (npipes s), p1 \<mapsto> Pipe_write (npipes s)),
        npipes := npipes s + 1, p_errno := popen_errno e\<rparr>)"
    using assms(3,4) by (simp_all add: popen_def s1 Let_def)
  show "ok \<Longrightarrow> pipe_fds e = Some (p0, p1) \<Longrightarrow> maxfd s1 \<le> p0 \<or> maxfd s1 \<le> p1 \<Longrightarrow>
      popen e cmd type s = Inr (None, s1\<lparr>fdtab := fdtab s, npipes := npipes s + 1, p_errno := EMFILE\<rparr>)"
    using assms(3,4) close by (simp add: popen_def s1 Let_def)
qed

lemma stream_rep_unchanged:
  assumes "stream_rep s m" "popen_ok s'" "streams s' = streams s"
    and "limit m' = map_option (\<lambda>_. maxfd s') (childpid s')" "opened m' = opened m" "unwaited m' = kids s'"
  shows "stream_rep s' m'"
  using assms by (simp add: stream_rep_def)

lemma popen_forks_rep:
  assumes rep: "stream_rep s m" and legal: "popen_legal s e" and type: "type_ok type" and init: "init_table e s = (True, s1)"
    and pipe: "pipe_fds e = Some (p0, p1)" "p0 < maxfd s1" "p1 < maxfd s1" and fork: "0 \<le> fork_pid e"
    and m2: "m2 = m\<lparr>limit := Some (maxfd s1), unwaited := insert (fork_pid e) (unwaited m)\<rparr>" and fd: "fd = (if type = ''r'' then p0 else p1)"
  shows "\<exists>s'. popen e cmd type s = Inr (if fdopen_ok e then Some fd else None, s') \<and>
    stream_rep s' (if fdopen_ok e then m2\<lparr>opened := (opened m)(fd \<mapsto> fork_pid e)\<rparr> else m2)"
proof -
  have s: "popen_ok s" using rep by (simp add: stream_rep_def)
  note s1 = init_table_ok [OF s init]
  from s1(7) obtain pids where pids: "childpid s1 = Some pids" by auto
  let ?s2 = "s1\<lparr>fdtab := (fdtab s)(fd \<mapsto> if type = ''r'' then Pipe_read (npipes s) else Pipe_write (npipes s)), npipes := npipes s + 1,
     kids := insert (fork_pid e) (kids s), execs := execs s @ [(fork_pid e, [''sh'', ''-c'', cmd], child_fds type p0 p1 s)]\<rparr>"
  note forks = popen_forks [OF s legal type init pids pipe fork fd, of cmd, unfolded Let_def]
  have m: "opened m = streams s" "unwaited m = kids s" using rep by (simp_all add: stream_rep_def)
  show ?thesis
  proof (cases "fdopen_ok e")
    case True
    have "0 \<le> fd" "fd < maxfd s1" "0 < fork_pid e" "fork_pid e \<notin> kids s"
      using fd pipe fork legal by (auto simp: popen_legal_def less_le)
    then have "popen_ok (?s2\<lparr>childpid := Some (pids[nat fd := fork_pid e])\<rparr>) \<and>
        streams (?s2\<lparr>childpid := Some (pids[nat fd := fork_pid e])\<rparr>) = (streams s1)(fd \<mapsto> fork_pid e)"
      by (intro open_entry_ok [OF s1(1) pids]) (auto simp: s1(3,4))
    with True forks show ?thesis by (simp add: stream_rep_def m m2 s1(2,3))
  next
    case False
    have "popen_ok (?s2\<lparr>p_errno := popen_errno e\<rparr>)" "streams (?s2\<lparr>p_errno := popen_errno e\<rparr>) = streams s1"
      by (auto intro!: popen_ok_mono [OF s1(1)] streams_cong simp: s1(3,4))
    with False forks show ?thesis by (simp add: stream_rep_def m m2 s1(2,3) pids)
  qed
qed

lemma popen_step_ok:
  assumes rep: "stream_rep s m" and adm: "stream_call_ok s (Popen e cmd type)"
  shows "\<exists>s'. proc_step s (Popen e cmd type) = Inr (fst (table_step m (Popen e cmd type)), s') \<and> stream_rep s' (snd (table_step m (Popen e cmd type)))"
proof (cases "type_ok type")
  case False
  then show ?thesis
    using rep streams_cong [of "s\<lparr>p_errno := EINVAL\<rparr>" s] by (simp add: popen_def andthen_def stream_rep_def popen_ok_def)
next
  case type: True
  have s: "popen_ok s" "popen_legal s e" using rep adm by (simp_all add: stream_rep_def)
  have m: "limit m = map_option (\<lambda>_. maxfd s) (childpid s)" "opened m = streams s" "unwaited m = kids s"
    using rep by (simp_all add: stream_rep_def)
  obtain ok s1 where init: "init_table e s = (ok, s1)" by fastforce
  note s1 = init_table_ok [OF s(1) init]
  note no_child = popen_no_child [OF s type init, where cmd = cmd]
  have frame: "stream_rep s' m'" if "childpid s' = childpid s1" "maxfd s' = maxfd s1" "kids s \<subseteq> kids s'" "dom (fdtab s) \<subseteq> dom (fdtab s')"
    "limit m' = new_limit e (limit m)" "opened m' = opened m" "unwaited m' = kids s'" for s' m'
    by (rule stream_rep_unchanged [OF rep])
      (use that s1 m popen_ok_mono [OF s1(1), of s'] streams_cong [of s' s1] in simp_all)
  show ?thesis
  proof (cases "childpid s1")
    case None
    with s1(7,8) have "\<not> ok" "new_limit e (limit m) = None" by (simp_all add: m)
    with no_child(1) type frame [of s1 "m\<lparr>limit := None\<rparr>"] s1(3,4) m None show ?thesis by (simp add: andthen_def)
  next
    case (Some pids)
    with s1(7,8) have ok: "ok" "new_limit e (limit m) = Some (maxfd s1)" by (simp_all add: m)
    show ?thesis
    proof (cases "pipe_fds e")
      case None
      with no_child(2) ok type frame [of "s1\<lparr>p_errno := popen_errno e\<rparr>" "m\<lparr>limit := Some (maxfd s1)\<rparr>"] s1(3,4) m
      show ?thesis by (simp add: andthen_def)
    next
      case pipe: (Some q)
      obtain p0 p1 where q: "q = (p0, p1)" by fastforce
      show ?thesis
      proof (cases "maxfd s1 \<le> p0 \<or> maxfd s1 \<le> p1 \<or> fork_pid e < 0")
        case True
        then obtain s' where "popen e cmd type s = Inr (None, s')" "childpid s' = childpid s1" "maxfd s' = maxfd s1" "kids s' = kids s"
          "dom (fdtab s) \<subseteq> dom (fdtab s')"
          using no_child(3) [OF ok(1) pipe [unfolded q]] no_child(4) [OF ok(1) pipe [unfolded q]] s1(3)
          by (cases "maxfd s1 \<le> p0 \<or> maxfd s1 \<le> p1") auto
        with True ok pipe q type frame [of s' "m\<lparr>limit := Some (maxfd s1)\<rparr>"] m show ?thesis by (auto simp: andthen_def Let_def)
      next
        case False
        then have lt: "p0 < maxfd s1" "p1 < maxfd s1" "0 \<le> fork_pid e" by auto
        from popen_forks_rep [OF rep s(2) type init [unfolded ok(1) [THEN eqTrueI]] pipe [unfolded q] lt refl refl, of cmd]
        show ?thesis using False ok(2) pipe q type by (cases "fdopen_ok e") (auto simp: andthen_def Let_def)
      qed
    qed
  qed
qed

interpretation popen_table: simulation stream_rep stream_call_ok proc_step table_step
proof
  fix s m c
  assume "stream_rep s m" "stream_call_ok s c"
  then show "\<exists>s'. proc_step s c = Inr (fst (table_step m c), s') \<and> stream_rep s' (snd (table_step m c))"
    using popen_step_ok pclose_step_ok by (cases c) blast+
qed

subsection \<open>When \<open>popen\<close> reaches \<open>fork\<close>\<close>

definition table_limit :: "process \<Rightarrow> int option" where
  "table_limit s = map_option (\<lambda>_. maxfd s) (childpid s)"

text \<open>The pipe of a call, when its descriptors fit the table.\<close>

definition pipe_fits :: "popen_answers \<Rightarrow> string \<Rightarrow> process \<Rightarrow> int \<Rightarrow> int \<Rightarrow> bool" where
  "pipe_fits e type s p0 p1 \<longleftrightarrow> type_ok type \<and> pipe_fds e = Some (p0, p1) \<and>
     (\<exists>l. new_limit e (table_limit s) = Some l \<and> p0 < l \<and> p1 < l)"

lemma pipe_fitsE:
  assumes "popen_ok s" "pipe_fits e type s p0 p1"
  obtains s1 pids where "type_ok type" "pipe_fds e = Some (p0, p1)" "init_table e s = (True, s1)" "childpid s1 = Some pids"
    "p0 < maxfd s1" "p1 < maxfd s1"
proof -
  obtain ok s1 where init: "init_table e s = (ok, s1)" by fastforce
  note s1 = init_table_ok(7,8) [OF assms(1) init]
  from assms(2) s1(2) obtain pids where "childpid s1 = Some pids" "p0 < maxfd s1" "p1 < maxfd s1"
    by (auto simp: pipe_fits_def table_limit_def)
  with that init s1(1) assms(2) show thesis by (auto simp: pipe_fits_def)
qed

lemma popen_without_pipe:
  assumes "popen_ok s" "popen_legal s e" "\<nexists>p0 p1. pipe_fits e type s p0 p1"
  shows "\<exists>s'. popen e cmd type s = Inr (None, s') \<and> fdtab s' = fdtab s \<and> kids s' = kids s \<and> execs s' = execs s"
proof (cases "type_ok type")
  case True
  obtain ok s1 where init: "init_table e s = (ok, s1)" by fastforce
  note s1 = init_table_ok [OF assms(1) init]
  note no_child = popen_no_child [OF assms(1,2) True init, where cmd = cmd]
  show ?thesis
  proof (cases "ok \<and> pipe_fds e \<noteq> None")
    case True
    then obtain p0 p1 where pipe: "pipe_fds e = Some (p0, p1)" by auto
    from True s1(7,8) have "new_limit e (table_limit s) = Some (maxfd s1)" by (auto simp: table_limit_def)
    with assms(3) \<open>type_ok type\<close> pipe have "maxfd s1 \<le> p0 \<or> maxfd s1 \<le> p1" by (auto simp: pipe_fits_def not_less)
    with no_child(3) True pipe s1(3,6) show ?thesis by simp
  qed (use no_child(1,2) s1(3,4,6) in \<open>cases ok; cases \<open>pipe_fds e\<close>; auto\<close>)
qed (simp add: popen_def)

lemma popen_with_pipe:
  assumes "popen_ok s" "popen_legal s e" "pipe_fits e type s p0 p1" "fd = (if type = ''r'' then p0 else p1)"
  shows "fork_pid e < 0 \<Longrightarrow> \<exists>s'. popen e cmd type s = Inr (None, s') \<and> kids s' = kids s \<and> execs s' = execs s \<and>
      fdtab s' = (fdtab s)(p0 \<mapsto> Pipe_read (npipes s), p1 \<mapsto> Pipe_write (npipes s))"
    and "0 < fork_pid e \<Longrightarrow> \<exists>s'. popen e cmd type s = Inr (if fdopen_ok e then Some fd else None, s') \<and> kids s' = insert (fork_pid e) (kids s) \<and>
      execs s' = execs s @ [(fork_pid e, [''sh'', ''-c'', cmd], child_fds type p0 p1 s)] \<and>
      fdtab s' = (fdtab s)(fd \<mapsto> if type = ''r'' then Pipe_read (npipes s) else Pipe_write (npipes s))"
proof -
  obtain s1 pids where fit: "type_ok type" "pipe_fds e = Some (p0, p1)" "init_table e s = (True, s1)" "childpid s1 = Some pids"
    "p0 < maxfd s1" "p1 < maxfd s1" using assms(1,3) by (rule pipe_fitsE)
  note s1 = init_table_ok(3-6) [OF assms(1) fit(3)]
  show "fork_pid e < 0 \<Longrightarrow> \<exists>s'. popen e cmd type s = Inr (None, s') \<and> kids s' = kids s \<and> execs s' = execs s \<and>
      fdtab s' = (fdtab s)(p0 \<mapsto> Pipe_read (npipes s), p1 \<mapsto> Pipe_write (npipes s))"
    using popen_no_child(4) [OF assms(1,2) fit(1,3) TrueI fit(2)] fit(5,6) s1(1,4) by simp
  show "0 < fork_pid e \<Longrightarrow> \<exists>s'. popen e cmd type s = Inr (if fdopen_ok e then Some fd else None, s') \<and> kids s' = insert (fork_pid e) (kids s) \<and>
      execs s' = execs s @ [(fork_pid e, [''sh'', ''-c'', cmd], child_fds type p0 p1 s)] \<and>
      fdtab s' = (fdtab s)(fd \<mapsto> if type = ''r'' then Pipe_read (npipes s) else Pipe_write (npipes s))"
    using popen_forks [OF assms(1,2) fit(1,3,4,2,5,6) _ assms(4), of cmd] by (simp add: Let_def)
qed

lemma table_step_null: "fst (table_step m (Popen e cmd type)) = Opened None \<Longrightarrow> opened (snd (table_step m (Popen e cmd type))) = opened m"
  by (auto simp: Let_def split: if_splits option.splits)

lemma popen_null_streams:
  assumes "popen_ok s" "popen_legal s e" "popen e cmd type s = Inr (None, s')"
  shows "streams s' = streams s"
proof -
  let ?m = "\<lparr>limit = table_limit s, opened = streams s, unwaited = kids s\<rparr>"
  have "stream_rep s ?m" using assms(1) by (simp add: stream_rep_def table_limit_def)
  from popen_step_ok [OF this, of e cmd type] assms(2,3)
  have "fst (table_step ?m (Popen e cmd type)) = Opened None" "stream_rep s' (snd (table_step ?m (Popen e cmd type)))"
    by (auto simp: andthen_def simp del: table_step.simps)
  with table_step_null [of ?m e cmd type] show ?thesis by (simp add: stream_rep_def del: table_step.simps)
qed

section \<open>Properties\<close>

text \<open>C13: for every sequence of calls of \<open>popen\<close> and \<open>pclose\<close>, whatever the system answers, no access leaves the
  table \<open>childpid\<close>, every call returns, and the replies are those of a finite map from streams to children: \<open>popen\<close>
  adds a stream exactly when every system call succeeds and the pipe fits the table, \<open>pclose\<close> removes it and returns
  the status of its child, and the children that were not waited for are those the specification lists.\<close>

theorem popen_calls_refine:
  assumes "stream_rep s m" "adm_run stream_call_ok proc_step s cs"
  shows "\<exists>s'. run_steps proc_step s cs = Inr (fst (run_spec table_step m cs), s') \<and> stream_rep s' (snd (run_spec table_step m cs))"
  using assms by (rule popen_table.run_refines)

definition good_open :: popen_answers where
  "good_open = \<lparr>open_max = 16, calloc_ok = True, pipe_fds = Some (3, 4), fork_pid = 100, fdopen_ok = True, popen_errno = 0\<rparr>"

definition good_close :: pclose_answers where
  "good_close = \<lparr>fclose_ok = True, waits = (\<lambda>i. if i < 2 then W_error EINTR else W_status 7), pclose_errno = 0\<rparr>"

definition std_fds :: fdtable where
  "std_fds = [0 \<mapsto> Other_file 0, 1 \<mapsto> Other_file 1, 2 \<mapsto> Other_file 2]"

lemma process_start_ok: "popen_ok (process_start t)"
  by (simp add: popen_ok_def process_start_def)

lemma good_close_answer: "first_answer (waits good_close) = W_status 7"
proof -
  have "(LEAST i. waits good_close i \<noteq> W_error EINTR) = 2"
    by (rule Least_equality) (auto simp: good_close_def split: if_splits)
  then show ?thesis by (simp add: first_answer_def good_close_def)
qed

theorem popen_calls_refine_witness:
  "\<exists>s'. run_steps proc_step (process_start std_fds) [Popen good_open ''ls'' ''r'', Pclose good_close 3] =
      Inr ([Opened (Some 3), Closed 7], s') \<and> streams s' = Map.empty \<and> kids s' = {}"
proof -
  let ?m = "\<lparr>limit = None, opened = Map.empty, unwaited = {}\<rparr>"
  let ?cs = "[Popen good_open ''ls'' ''r'', Pclose good_close 3]"
  have "stream_rep (process_start std_fds) ?m"
    by (simp add: stream_rep_def process_start_ok) (simp add: process_start_def)
  moreover have "stream_call_ok s1 (Pclose good_close 3)" for s1
    by (simp add: good_close_def) (rule exI [of _ 2], simp)
  moreover have "stream_call_ok (process_start std_fds) (Popen good_open ''ls'' ''r'')"
    by (simp add: popen_legal_def good_open_def process_start_def std_fds_def)
  ultimately have pre: "stream_rep (process_start std_fds) ?m" "adm_run stream_call_ok proc_step (process_start std_fds) ?cs"
    by (simp_all del: proc_step.simps stream_call_ok.simps split: sum.split)
  have "run_spec table_step ?m ?cs = ([Opened (Some 3), Closed 7], \<lparr>limit = Some 16, opened = Map.empty, unwaited = {}\<rparr>)"
    using good_close_answer
    by (simp add: good_open_def type_ok_def new_limit_def to_int32_def Let_def) (simp add: good_close_def)
  then show ?thesis
    using popen_calls_refine [OF pre] by (auto simp: stream_rep_def)
qed

text \<open>C22: the descriptors of the command that a successful \<open>popen\<close> starts, exactly: its standard output (for reading,
  its standard input for writing) is the other end of the new pipe, it holds no other end of that pipe and no stream
  opened before, and it inherits everything else.  The loop that closes the streams comes last: when an earlier
  stream has the descriptor of that standard stream, the command runs with it closed.\<close>

theorem popen_child_descriptors:
  assumes "popen_ok s" "popen_legal s e" "popen e cmd type s = Inr (Some fd, s')"
  shows "\<exists>p0 p1 t. pipe_fds e = Some (p0, p1) \<and> fd = (if type = ''r'' then p0 else p1) \<and>
    execs s' = execs s @ [(fork_pid e, [''sh'', ''-c'', cmd], t)] \<and>
    fdtab s' = (fdtab s)(fd \<mapsto> if type = ''r'' then Pipe_read (npipes s) else Pipe_write (npipes s)) \<and>
    (\<forall>x. t x =
      (if streams s x \<noteq> None then None
       else if x = (if type = ''r'' then STDOUT_FILENO else STDIN_FILENO)
       then Some (if type = ''r'' then Pipe_write (npipes s) else Pipe_read (npipes s))
       else if x = p0 \<or> x = p1 then None else fdtab s x))"
proof -
  obtain p0 p1 where fits: "pipe_fits e type s p0 p1"
    using popen_without_pipe [OF assms(1,2), of type cmd] assms(3) by auto
  note pipe = popen_with_pipe [OF assms(1,2) fits refl, of cmd]
  have pid: "0 < fork_pid e" using pipe(1) assms(2,3) by (force simp: popen_legal_def)
  have "fd = (if type = ''r'' then p0 else p1)" "execs s' = execs s @ [(fork_pid e, [''sh'', ''-c'', cmd], child_fds type p0 p1 s)]"
    "fdtab s' = (fdtab s)(fd \<mapsto> if type = ''r'' then Pipe_read (npipes s) else Pipe_write (npipes s))"
    using pipe(2) [OF pid] assms(3) by (auto split: if_splits)
  then show ?thesis using fits
    by (intro exI [of _ p0] exI [of _ p1] exI [of _ "child_fds type p0 p1 s"]) (simp add: pipe_fits_def child_fds_def)
qed

text \<open>A process whose standard output is a stream opened before.\<close>

definition stdout_stream :: process where
  "stdout_stream = \<lparr>childpid = Some [0, 50, 0, 0, 0, 0], maxfd = 6, p_errno = 0,
     fdtab = [0 \<mapsto> Other_file 0, 1 \<mapsto> Pipe_write 0, 2 \<mapsto> Other_file 2], npipes = 1, kids = {50}, execs = []\<rparr>"

lemma stdout_streams: "streams stdout_stream = [1 \<mapsto> 50]"
proof
  fix fd :: int
  consider "fd < 0" | "fd = 0" | "fd = 1" | "fd = 2" | "fd = 3" | "fd = 4" | "fd = 5" | "6 \<le> fd" by linarith
  then show "streams stdout_stream fd = [1 \<mapsto> 50] fd" by cases (simp_all add: streams_def stdout_stream_def)
qed

lemma stdout_stream_legal: "popen_legal stdout_stream good_open"
  by (simp add: popen_legal_def good_open_def stdout_stream_def)

lemma stdout_stream_ok: "popen_ok stdout_stream"
  unfolding popen_ok_def stdout_streams by (simp add: stdout_stream_def)

lemma stdout_stream_fits: "pipe_fits (good_open\<lparr>fork_pid := pid, fdopen_ok := b\<rparr>) ''r'' stdout_stream 3 4"
  by (simp add: pipe_fits_def type_ok_def table_limit_def new_limit_def good_open_def stdout_stream_def)

theorem popen_child_descriptors_witness:
  "\<exists>s' t. popen good_open ''ls'' ''r'' stdout_stream = Inr (Some 3, s') \<and> execs s' = [(100, [''sh'', ''-c'', ''ls''], t)] \<and> t 1 = None"
proof -
  have "pipe_fits good_open ''r'' stdout_stream 3 4"
    using stdout_stream_fits [of True 100] by (simp add: good_open_def)
  from popen_with_pipe(2) [OF stdout_stream_ok stdout_stream_legal this refl, of "''ls''"]
  obtain s' where s': "popen good_open ''ls'' ''r'' stdout_stream = Inr (Some 3, s')" by (auto simp: good_open_def)
  from popen_child_descriptors [OF stdout_stream_ok stdout_stream_legal this]
  obtain t where t: "execs s' = execs stdout_stream @ [(fork_pid good_open, [''sh'', ''-c'', ''ls''], t)]"
    "t 1 = (if streams stdout_stream 1 \<noteq> None then None else Some (Pipe_write (npipes stdout_stream)))" by auto
  show ?thesis
    using s' t by (intro exI [of _ s'] exI [of _ t]) (simp add: stdout_streams, simp add: good_open_def stdout_stream_def)
qed

text \<open>What a \<open>popen\<close> that returns \<open>NULL\<close> leaves behind: the open descriptors are those before the call unless the
  pipe was made and fits the table; then \<open>fork\<close> or \<open>fdopen\<close> has failed, both ends of the pipe or one stay open, and
  after \<open>fdopen\<close> failed a child runs that no stream leads to.\<close>

theorem popen_null_leaks:
  assumes "popen_ok s" "popen_legal s e" "popen e cmd type s = Inr (None, s')"
  shows "(\<nexists>p0 p1. pipe_fits e type s p0 p1) \<and> fdtab s' = fdtab s \<and> kids s' = kids s \<or>
    (\<exists>p0 p1. pipe_fits e type s p0 p1 \<and> fdtab s p0 = None \<and> fdtab s p1 = None \<and>
      (fork_pid e < 0 \<and> fdtab s' = (fdtab s)(p0 \<mapsto> Pipe_read (npipes s), p1 \<mapsto> Pipe_write (npipes s)) \<and> kids s' = kids s \<or>
       0 < fork_pid e \<and> \<not> fdopen_ok e \<and> kids s' = insert (fork_pid e) (kids s) \<and> fork_pid e \<notin> ran (streams s') \<and>
       fdtab s' = (if type = ''r'' then (fdtab s)(p0 \<mapsto> Pipe_read (npipes s)) else (fdtab s)(p1 \<mapsto> Pipe_write (npipes s)))))"
proof (cases "\<exists>p0 p1. pipe_fits e type s p0 p1")
  case False
  then show ?thesis using popen_without_pipe [OF assms(1,2), of type cmd] assms(3) by auto
next
  case True
  then obtain p0 p1 where fits: "pipe_fits e type s p0 p1" by auto
  note pipe = popen_with_pipe [OF assms(1,2) fits refl, of cmd]
  have free: "fdtab s p0 = None" "fdtab s p1 = None" "fork_pid e \<noteq> 0" "fork_pid e \<notin> ran (streams s')"
    using fits assms(1,2) popen_null_streams [OF assms] by (auto simp: popen_legal_def pipe_fits_def popen_ok_def)
  have "fork_pid e < 0 \<and> fdtab s' = (fdtab s)(p0 \<mapsto> Pipe_read (npipes s), p1 \<mapsto> Pipe_write (npipes s)) \<and> kids s' = kids s \<or>
       0 < fork_pid e \<and> \<not> fdopen_ok e \<and> kids s' = insert (fork_pid e) (kids s) \<and>
       fdtab s' = (if type = ''r'' then (fdtab s)(p0 \<mapsto> Pipe_read (npipes s)) else (fdtab s)(p1 \<mapsto> Pipe_write (npipes s)))"
    using pipe assms(3) free(3) by (cases "fork_pid e < 0") (auto split: if_splits)
  with fits free show ?thesis by blast
qed

theorem popen_null_leaks_witness:
  "\<exists>s'. popen (good_open\<lparr>fdopen_ok := False\<rparr>) ''ls'' ''r'' stdout_stream = Inr (None, s') \<and>
     fdtab s' 3 = Some (Pipe_read 1) \<and> 100 \<in> kids s' \<and> 100 \<notin> ran (streams s')"
proof -
  let ?e = "good_open\<lparr>fdopen_ok := False\<rparr>"
  have fits: "pipe_fits ?e ''r'' stdout_stream 3 4"
    using stdout_stream_fits [of False 100] by (simp add: good_open_def)
  have legal: "popen_legal stdout_stream ?e" using stdout_stream_legal by (simp add: popen_legal_def)
  from popen_with_pipe(2) [OF stdout_stream_ok legal fits refl, of "''ls''"]
  obtain s' where s': "popen ?e ''ls'' ''r'' stdout_stream = Inr (None, s')" by (auto simp: good_open_def)
  from popen_null_leaks [OF stdout_stream_ok legal this] fits s' show ?thesis
    by (auto simp: pipe_fits_def good_open_def stdout_stream_def)
qed

end
