(* ===== verification/Asyncio.thy ===== *)
theory Asyncio
  imports Prelude
begin

text \<open>
  The copying program of \<^verbatim>\<open>src/c_code/asyncio.c\<close>: eight buffers read blocks of a file by asynchronous
  requests, exchange every letter for the one thirteen places on, and write the blocks at their offsets.  The
  system decides in every turn of the loop which requests are still in progress, which failed and which are
  complete, and how many bytes a complete one lacks.  A request takes its effect when it is found complete; the
  input file does not change, and no two requests touch the same bytes.  Shown: in whatever order the requests
  complete, the output of a run that ends is the translated input, cut at most by a short read of the last block;
  the program ends when \<open>aio_suspend\<close> keeps its promise; the translation is its own inverse.
\<close>

section \<open>Definitions\<close>

definition BSZ :: nat where "BSZ = 4096"
definition NBUF :: nat where "NBUF = 8"

type_synonym bytes = "8 word list"

datatype rwop = UNUSED | READ_PENDING | WRITE_PENDING

datatype fildes = Ifd | Ofd

record buf =
  op :: rwop
  last_block :: bool
  aio_fildes :: fildes
  aio_offset :: nat
  aio_nbytes :: nat
  buf_data :: bytes

record aio =
  bufs :: "buf list"
  off :: nat
  numop :: int
  aiolist :: "bool list"
  ofile :: bytes

datatype polled_request = In_progress | Failed | Done nat

datatype aio_error = Usage | Open_error | Aio_read_failed | Aio_write_failed | Aio_failed | Short_read nat | Short_write nat | Suspend_failed | Fsync_failed

record aio_turn =
  aio_read_ok :: "nat \<Rightarrow> bool"
  aio_write_ok :: "nat \<Rightarrow> bool"
  request :: "nat \<Rightarrow> polled_request"
  suspend_ok :: bool

definition is_alpha :: "8 word \<Rightarrow> bool" where
  "is_alpha c \<longleftrightarrow> 65 \<le> c \<and> c \<le> 90 \<or> 97 \<le> c \<and> c \<le> 122"

definition translate :: "8 word \<Rightarrow> 8 word" where
  "translate c =
     (if is_alpha c
      then if c \<ge> 110 then c - 13
           else if c \<ge> 97 then c + 13
           else if c \<ge> 78 then c - 13
           else c + 13
      else c)"

text \<open>The loop over the bytes read.\<close>

fun translate_loop :: "nat \<Rightarrow> nat \<Rightarrow> bytes \<Rightarrow> bytes" where
  "translate_loop j 0 d = d"
| "translate_loop j (Suc k) d = translate_loop (Suc j) k (d[j := translate (d ! j)])"

text \<open>What the system does for a complete request: bytes of the input file, or bytes at an offset of the output file,
  where a gap before the offset is filled with zeros.\<close>

definition read_at :: "bytes \<Rightarrow> nat \<Rightarrow> nat \<Rightarrow> bytes" where
  "read_at f pos n = take n (drop pos f)"

definition write_at :: "bytes \<Rightarrow> nat \<Rightarrow> bytes \<Rightarrow> bytes" where
  "write_at f pos d = (if d = [] then f else take pos (f @ replicate (pos - length f) 0) @ d @ drop (pos + length d) f)"

text \<open>One buffer: a turn of the inner loop.\<close>

definition start_read :: "bytes \<Rightarrow> aio_turn \<Rightarrow> nat \<Rightarrow> aio \<Rightarrow> aio_error + aio" where
  "start_read ifile r i s =
     (let b = bufs s ! i;
          b1 = b\<lparr>op := READ_PENDING, aio_fildes := Ifd, aio_offset := off s,
                 last_block := (if off s + BSZ \<ge> length ifile then True else last_block b), aio_nbytes := BSZ\<rparr> in
      if \<not> aio_read_ok r i then Inl Aio_read_failed
      else Inr (s\<lparr>bufs := (bufs s)[i := b1], off := off s + BSZ, aiolist := (aiolist s)[i := True], numop := numop s + 1\<rparr>))"

definition read_done :: "bytes \<Rightarrow> aio_turn \<Rightarrow> nat \<Rightarrow> nat \<Rightarrow> aio \<Rightarrow> aio_error + aio" where
  "read_done ifile r i k s =
     (let b = bufs s ! i;
          got = read_at ifile (aio_offset b) (min (aio_nbytes b) (length ifile - aio_offset b) - k);
          n = length got;
          d = got @ drop n (buf_data b) in
      if n \<noteq> BSZ \<and> \<not> last_block b then Inl (Short_read n)
      else if \<not> aio_write_ok r i then Inl Aio_write_failed
      else Inr (s\<lparr>bufs := (bufs s)[i := b\<lparr>buf_data := translate_loop 0 n d, op := WRITE_PENDING, aio_fildes := Ofd, aio_nbytes := n\<rparr>]\<rparr>))"

definition write_done :: "nat \<Rightarrow> nat \<Rightarrow> aio \<Rightarrow> aio_error + aio" where
  "write_done i k s =
     (let b = bufs s ! i; n = aio_nbytes b - k in
      if n \<noteq> aio_nbytes b then Inl (Short_write n)
      else Inr (s\<lparr>bufs := (bufs s)[i := b\<lparr>op := UNUSED\<rparr>], ofile := write_at (ofile s) (aio_offset b) (take n (buf_data b)),
                  aiolist := (aiolist s)[i := False], numop := numop s - 1\<rparr>))"

definition visit :: "bytes \<Rightarrow> aio_turn \<Rightarrow> nat \<Rightarrow> aio \<Rightarrow> aio_error + aio" where
  "visit ifile r i s = (case op (bufs s ! i) of
       UNUSED \<Rightarrow> if off s < length ifile then start_read ifile r i s else Inr s
     | READ_PENDING \<Rightarrow> (case request r i of In_progress \<Rightarrow> Inr s | Failed \<Rightarrow> Inl Aio_failed | Done k \<Rightarrow> read_done ifile r i k s)
     | WRITE_PENDING \<Rightarrow> (case request r i of In_progress \<Rightarrow> Inr s | Failed \<Rightarrow> Inl Aio_failed | Done k \<Rightarrow> write_done i k s))"

fun visits :: "bytes \<Rightarrow> aio_turn \<Rightarrow> nat list \<Rightarrow> aio \<Rightarrow> aio_error + aio" where
  "visits ifile r [] s = Inr s"
| "visits ifile r (i # is) s = andthen (visit ifile r i s) (visits ifile r is)"

definition aio_round :: "bytes \<Rightarrow> aio_turn \<Rightarrow> aio \<Rightarrow> aio_error + bool \<times> aio" where
  "aio_round ifile r s = andthen (visits ifile r [0..<NBUF] s) (\<lambda>s.
     if numop s = 0 then Inr (off s \<ge> length ifile, s)
     else if suspend_ok r then Inr (False, s) else Inl Suspend_failed)"

fun aio_loop :: "bytes \<Rightarrow> aio_turn list \<Rightarrow> aio \<Rightarrow> aio_error + bool \<times> aio" where
  "aio_loop ifile [] s = Inr (False, s)"
| "aio_loop ifile (r # rs) s = andthen (aio_round ifile r s) (\<lambda>(ended, s'). if ended then Inr (True, s') else aio_loop ifile rs s')"

definition aio_start :: aio where
  "aio_start =
     \<lparr>bufs = replicate NBUF \<lparr>op = UNUSED, last_block = False, aio_fildes = Ifd, aio_offset = 0, aio_nbytes = 0, buf_data = replicate BSZ 0\<rparr>,
      off = 0, numop = 0, aiolist = replicate NBUF False, ofile = []\<rparr>"

definition asyncio_main :: "string list \<Rightarrow> bool \<Rightarrow> bytes \<Rightarrow> aio_turn list \<Rightarrow> bool \<Rightarrow> aio_error + bool \<times> aio" where
  "asyncio_main argv opens_ok ifile rounds fsync_ok =
     (if length argv \<noteq> 3 then Inl Usage
      else if \<not> opens_ok then Inl Open_error
      else andthen (aio_loop ifile rounds aio_start) (\<lambda>(ended, s).
        if ended \<and> \<not> fsync_ok then Inl Fsync_failed else Inr (ended, s)))"

section \<open>The translation\<close>

lemma unat_translate:
  "unat (translate c) = (let n = unat c in
     if 110 \<le> n \<and> n \<le> 122 \<or> 78 \<le> n \<and> n \<le> 90 then n - 13
     else if 97 \<le> n \<and> n < 110 \<or> 65 \<le> n \<and> n < 78 then n + 13 else n)"
proof -
  have sub: "unat (c - 13) = unat c - 13" if "78 \<le> unat c"
    using that by (subst unat_sub) (simp_all add: word_le_nat_alt)
  have add: "unat (c + 13) = unat c + 13" if "unat c < 110"
    using that by (subst unat_add_lem [THEN iffD1]) simp_all
  show ?thesis
    using sub add by (auto simp: translate_def is_alpha_def word_le_nat_alt Let_def)
qed

lemma translate_inverse: "translate (translate c) = c"
proof -
  have "unat (translate (translate c)) = unat c"
    by (simp only: unat_translate Let_def) (auto split: if_splits)
  then show ?thesis by (simp add: word_unat_eq_iff)
qed

lemma length_translate_loop [simp]: "length (translate_loop j k d) = length d"
  by (induction k arbitrary: j d) simp_all

lemma translate_loop_nth:
  "j + k \<le> length d \<Longrightarrow> p < length d \<Longrightarrow> translate_loop j k d ! p = (if j \<le> p \<and> p < j + k then translate (d ! p) else d ! p)"
  by (induction k arbitrary: j d) (auto simp: nth_list_update not_le less_Suc_eq_le order_less_imp_le)

lemma translate_loop_map: "n = length got \<Longrightarrow> translate_loop 0 n (got @ rest) = map translate got @ rest"
  by (rule nth_equalityI) (auto simp: translate_loop_nth nth_append)

section \<open>Writing at an offset\<close>

lemma length_write_at: "length (write_at f pos d) = (if d = [] then length f else max (length f) (pos + length d))"
  by (auto simp: write_at_def min_def max_def)

lemma write_at_nth:
  "p < length (write_at f pos d) \<Longrightarrow>
   write_at f pos d ! p = (if pos \<le> p \<and> p < pos + length d then d ! (p - pos) else if p < length f then f ! p else 0)"
  by (auto simp: write_at_def nth_append min_def split: if_splits)

section \<open>The invariant of the copy\<close>

text \<open>\<open>m\<close> is the number of bytes the output will have: all, or fewer when the read of the last block, which starts at
  \<open>last_off\<close>, was short.  Every byte below \<open>off\<close> and \<open>m\<close> is translated in the output file unless a request for
  its block is under way.\<close>

definition last_off :: "bytes \<Rightarrow> nat" where
  "last_off f = (length f - 1) div BSZ * BSZ"

definition pending :: "aio \<Rightarrow> nat \<Rightarrow> bool" where
  "pending s i \<longleftrightarrow> i < length (bufs s) \<and> op (bufs s ! i) \<noteq> UNUSED"

definition block_at :: "aio \<Rightarrow> nat \<Rightarrow> nat" where
  "block_at s i = aio_offset (bufs s ! i)"

definition covered :: "aio \<Rightarrow> nat \<Rightarrow> bool" where
  "covered s p \<longleftrightarrow> (\<exists>i. pending s i \<and> block_at s i \<le> p \<and> p < block_at s i + BSZ)"

definition last_open :: "bytes \<Rightarrow> aio \<Rightarrow> bool" where
  "last_open f s \<longleftrightarrow> off s \<le> last_off f \<or> (\<exists>i. pending s i \<and> block_at s i = last_off f)"

definition buf_ok :: "bytes \<Rightarrow> nat \<Rightarrow> nat \<Rightarrow> buf \<Rightarrow> bool" where
  "buf_ok f m pos b \<longleftrightarrow> (last_block b \<longrightarrow> length f \<le> pos) \<and>
     (op b \<noteq> UNUSED \<longrightarrow> BSZ dvd aio_offset b \<and> aio_offset b < pos \<and> aio_offset b < length f) \<and>
     (op b = READ_PENDING \<longrightarrow> aio_nbytes b = BSZ \<and> last_block b = (length f \<le> aio_offset b + BSZ)) \<and>
     (op b = WRITE_PENDING \<longrightarrow> aio_nbytes b = min BSZ (m - aio_offset b) \<and>
        take (aio_nbytes b) (buf_data b) = map translate (read_at f (aio_offset b) (aio_nbytes b)))"

definition aio_inv :: "bytes \<Rightarrow> nat \<Rightarrow> aio \<Rightarrow> bool" where
  "aio_inv f m s \<longleftrightarrow> length (bufs s) = NBUF \<and> BSZ dvd off s \<and>
     numop s = int (length (filter (\<lambda>b. op b \<noteq> UNUSED) (bufs s))) \<and>
     (\<forall>i < NBUF. buf_ok f m (off s) (bufs s ! i)) \<and>
     (\<forall>i j. pending s i \<and> pending s j \<and> block_at s i = block_at s j \<longrightarrow> i = j) \<and>
     (\<forall>p < min (off s) m. \<not> covered s p \<longrightarrow> p < length (ofile s) \<and> ofile s ! p = translate (f ! p)) \<and>
     length (ofile s) \<le> (if last_open f s then last_off f else m) \<and> last_off f \<le> m \<and> m \<le> length f"

subsection \<open>Blocks\<close>

lemma BSZ_pos [simp]: "0 < BSZ" by (simp add: BSZ_def)

lemma dvd_next: "d dvd a \<Longrightarrow> d dvd b \<Longrightarrow> a < b \<Longrightarrow> a + d \<le> b" for a b d :: nat
  by (metis dvd_diff_nat dvd_imp_le le_add_diff_inverse less_imp_le nat_add_left_cancel_le zero_less_diff)

lemma last_off_dvd: "BSZ dvd last_off f" by (simp add: last_off_def)

lemma last_off_less: "f \<noteq> [] \<Longrightarrow> last_off f < length f"
proof -
  assume "f \<noteq> []"
  moreover have "(length f - 1) div BSZ * BSZ \<le> length f - 1" by simp
  ultimately show ?thesis unfolding last_off_def using length_greater_0_conv [of f] by linarith
qed

lemma last_off_bound: "length f \<le> last_off f + BSZ"
proof -
  have "length f - 1 < (length f - 1) div BSZ * BSZ + BSZ"
    using dividend_less_div_times [OF BSZ_pos, of "length f - 1"] by (simp add: add.commute)
  then show ?thesis by (simp add: last_off_def)
qed

lemma block_le_last: "BSZ dvd pos \<Longrightarrow> pos < length f \<Longrightarrow> pos \<le> last_off f"
  using dvd_next [OF last_off_dvd, of pos f] last_off_bound [of f] by (cases "last_off f < pos") auto

lemma block_less_last: "BSZ dvd pos \<Longrightarrow> pos < length f \<Longrightarrow> pos \<noteq> last_off f \<Longrightarrow> pos + BSZ \<le> last_off f"
  using dvd_next [OF _ last_off_dvd, of pos f] block_le_last [of pos f] by simp

lemma block_is_last: "BSZ dvd pos \<Longrightarrow> pos < length f \<Longrightarrow> length f \<le> pos + BSZ \<longleftrightarrow> pos = last_off f"
  using block_less_last [of pos f] last_off_bound [of f] last_off_less [of f]
  by (cases "pos = last_off f"; cases "f = []") auto

subsection \<open>Updating one buffer\<close>

lemma pending_update: "i < length (bufs s) \<Longrightarrow> bufs s' = (bufs s)[i := b] \<Longrightarrow>
  pending s' j \<longleftrightarrow> (if j = i then op b \<noteq> UNUSED else pending s j)"
  by (auto simp: pending_def)

lemma block_at_update: "i < length (bufs s) \<Longrightarrow> bufs s' = (bufs s)[i := b] \<Longrightarrow>
  block_at s' j = (if j = i then aio_offset b else block_at s j)"
  by (auto simp: block_at_def)

lemma covered_update:
  assumes "i < length (bufs s)" "bufs s' = (bufs s)[i := b]"
  shows "covered s' p \<longleftrightarrow> op b \<noteq> UNUSED \<and> aio_offset b \<le> p \<and> p < aio_offset b + BSZ \<or>
    (\<exists>j. j \<noteq> i \<and> pending s j \<and> block_at s j \<le> p \<and> p < block_at s j + BSZ)"
  unfolding covered_def pending_update [OF assms] block_at_update [OF assms] by (auto split: if_splits)

lemma last_open_update:
  assumes "i < length (bufs s)" "bufs s' = (bufs s)[i := b]"
  shows "last_open f s' \<longleftrightarrow> off s' \<le> last_off f \<or> op b \<noteq> UNUSED \<and> aio_offset b = last_off f \<or>
    (\<exists>j. j \<noteq> i \<and> pending s j \<and> block_at s j = last_off f)"
  unfolding last_open_def pending_update [OF assms] block_at_update [OF assms] by (auto split: if_splits)

subsection \<open>Every step keeps the invariant\<close>

lemma aio_invD:
  assumes "aio_inv f m s"
  shows "length (bufs s) = NBUF" "BSZ dvd off s" "numop s = int (length (filter (\<lambda>b. op b \<noteq> UNUSED) (bufs s)))"
    "i < NBUF \<Longrightarrow> buf_ok f m (off s) (bufs s ! i)" "pending s i \<Longrightarrow> pending s j \<Longrightarrow> block_at s i = block_at s j \<Longrightarrow> i = j"
    "p < off s \<Longrightarrow> p < m \<Longrightarrow> \<not> covered s p \<Longrightarrow> p < length (ofile s) \<and> ofile s ! p = translate (f ! p)"
    "length (ofile s) \<le> (if last_open f s then last_off f else m)" "last_off f \<le> m" "m \<le> length f"
  using assms by (simp_all add: aio_inv_def)

lemma pendingD:
  assumes "aio_inv f m s" "pending s i"
  shows "i < NBUF" "BSZ dvd block_at s i" "block_at s i < off s" "block_at s i < length f"
  using aio_invD(1) [OF assms(1)] aio_invD(4) [OF assms(1), of i] assms(2) by (auto simp: pending_def buf_ok_def block_at_def)

lemma buf_ok_later: "buf_ok f m pos b \<Longrightarrow> pos \<le> pos' \<Longrightarrow> buf_ok f m pos' b"
  by (auto simp: buf_ok_def)

text \<open>Reading starts.\<close>

lemma start_read_inv:
  assumes inv: "aio_inv f m s" and i: "i < NBUF" "op (bufs s ! i) = UNUSED" and "off s < length f" "start_read f r i s = Inr s'"
  shows "aio_inv f m s'"
proof -
  note D = aio_invD [OF inv]
  define b where "b = (bufs s ! i)\<lparr>op := READ_PENDING, aio_fildes := Ifd, aio_offset := off s,
     last_block := (if off s + BSZ \<ge> length f then True else last_block (bufs s ! i)), aio_nbytes := BSZ\<rparr>"
  have s': "bufs s' = (bufs s)[i := b]" "off s' = off s + BSZ" "numop s' = numop s + 1" "ofile s' = ofile s"
    using assms(5) by (auto simp: start_read_def b_def Let_def split: if_splits)
  have len: "i < length (bufs s)" using D(1) i by simp
  note P = pending_update [OF len s'(1)] and B = block_at_update [OF len s'(1)]
  have b: "op b = READ_PENDING" "aio_offset b = off s" by (simp_all add: b_def)
  have notpend: "\<not> pending s i" using i by (simp add: pending_def)
  have before: "block_at s j \<noteq> off s" if "pending s j" for j using pendingD(3) [OF inv that] by simp
  have cov: "p < off s \<and> \<not> covered s p" if "p < off s + BSZ" "\<not> covered s' p" for p
    using that notpend unfolding covered_update [OF len s'(1)] b by (auto simp: covered_def)
  have "off s \<le> last_off f" using block_le_last [OF D(2) assms(4)] .
  then have op: "last_open f s" "last_open f s'"
    using dvd_next [OF D(2) last_off_dvd, of f] s'(2) unfolding last_open_update [OF len s'(1)] b by (auto simp: last_open_def)
  have "buf_ok f m (off s') b"
    using D(2) D(4) [of i] i assms(4) by (auto simp: buf_ok_def b_def s'(2))
  then have "\<forall>j < NBUF. buf_ok f m (off s') (bufs s' ! j)"
    using D(1) len buf_ok_later [OF D(4)] by (auto simp: s'(1,2) nth_list_update)
  moreover have "\<forall>j k. pending s' j \<and> pending s' k \<and> block_at s' j = block_at s' k \<longrightarrow> j = k"
    using D(5) before notpend by (auto simp: P B b split: if_splits) (metis before)
  moreover have "\<forall>p < min (off s') m. \<not> covered s' p \<longrightarrow> p < length (ofile s') \<and> ofile s' ! p = translate (f ! p)"
    using D(6) cov by (auto simp: s'(2,4))
  ultimately show ?thesis
    using D(1,2,3,7-9) op len i b by (simp add: aio_inv_def s' length_filter_update)
qed

text \<open>A read is complete: only the last block may be short, and then the output gets shorter.\<close>

lemma length_read_at: "length (read_at f pos n) = min n (length f - pos)"
  by (simp add: read_at_def min.commute)

lemma buf_ok_cut:
  assumes "buf_ok f m pos b" "last_off f \<le> m" "last_off f \<le> m'" "op b \<noteq> UNUSED \<longrightarrow> aio_offset b \<noteq> last_off f"
  shows "buf_ok f m' pos b"
proof (cases "op b = WRITE_PENDING")
  case True
  with assms(1,4) have "aio_offset b + BSZ \<le> last_off f" by (intro block_less_last) (auto simp: buf_ok_def)
  with assms(2,3) have "min BSZ (m - aio_offset b) = min BSZ (m' - aio_offset b)" by simp
  with assms(1) True show ?thesis by (auto simp: buf_ok_def)
qed (use assms in \<open>auto simp: buf_ok_def\<close>)

lemma read_done_inv:
  assumes inv: "aio_inv f m s" and i: "i < NBUF" "op (bufs s ! i) = READ_PENDING" and "read_done f r i k s = Inr s'"
  shows "\<exists>m'. aio_inv f m' s' \<and> (m' = m \<or> m' = length f \<or> 0 < k)"
proof -
  note D = aio_invD [OF inv]
  define pos n where "pos = aio_offset (bufs s ! i)" and "n = min BSZ (length f - pos) - k"
  have len: "i < length (bufs s)" using D(1) i by simp
  have bi: "BSZ dvd pos" "pos < off s" "pos < length f" "aio_nbytes (bufs s ! i) = BSZ" "last_block (bufs s ! i) = (pos = last_off f)"
    using D(4) [OF i(1)] i(2) block_is_last [of pos f] by (auto simp: buf_ok_def pos_def)
  have n: "length (read_at f pos n) = n" by (simp add: length_read_at n_def)
  define b where "b = (bufs s ! i)\<lparr>buf_data := map translate (read_at f pos n) @ drop n (buf_data (bufs s ! i)),
     op := WRITE_PENDING, aio_fildes := Ofd, aio_nbytes := n\<rparr>"
  have eq: "read_done f r i k s = (if n \<noteq> BSZ \<and> pos \<noteq> last_off f then Inl (Short_read n) else if \<not> aio_write_ok r i then Inl Aio_write_failed
     else Inr (s\<lparr>bufs := (bufs s)[i := b]\<rparr>))"
    unfolding read_done_def Let_def bi(4,5) pos_def [symmetric] n_def [symmetric] n translate_loop_map [OF n [symmetric]] b_def ..
  have s': "bufs s' = (bufs s)[i := b]" "off s' = off s" "numop s' = numop s" "ofile s' = ofile s" "n = BSZ \<or> pos = last_off f"
    using assms(4) unfolding eq by (auto split: if_splits)
  have b: "op b = WRITE_PENDING" "aio_offset b = pos" "aio_nbytes b = n" "last_block b = (pos = last_off f)"
    using bi by (simp_all add: b_def pos_def)
  define m' where "m' = (if pos = last_off f then pos + n else m)"
  have pend: "pending s i" "block_at s i = pos" using i len by (simp_all add: pending_def block_at_def pos_def)
  have other: "pos \<noteq> last_off f \<or> block_at s j \<noteq> last_off f" if "pending s j" "j \<noteq> i" for j
    using D(5) [OF that(1) pend(1)] that(2) pend(2) by auto
  have m': "last_off f \<le> m'" "m' \<le> length f" "m' = m \<or> m' = length f \<or> 0 < k" "n = min BSZ (m' - pos)"
    using D(8,9) bi s'(5) block_less_last [OF bi(1,3)] last_off_bound [of f] by (auto simp: m'_def n_def)
  have data: "take n (buf_data b) = map translate (read_at f pos n)" by (simp add: b_def n)
  have "pos = last_off f \<Longrightarrow> length f \<le> off s" using D(4) [OF i(1)] bi(5) by (simp add: buf_ok_def)
  then have "buf_ok f m' (off s') b"
    using bi(1-3) m'(4) data unfolding buf_ok_def b s'(2) by simp
  moreover have "buf_ok f m' (off s') (bufs s ! j)" if "j < NBUF" "j \<noteq> i" for j
  proof (cases "pos = last_off f")
    case True
    with other [OF _ that(2)] that D(1) show ?thesis
      using buf_ok_cut [OF D(4) [OF that(1)] D(8) m'(1)] by (auto simp: s'(2) pending_def block_at_def)
  qed (use D(4) [OF that(1)] in \<open>simp add: m'_def s'(2)\<close>)
  ultimately have bufs: "\<forall>j < NBUF. buf_ok f m' (off s') (bufs s' ! j)" 
    using len by (simp add: s'(1) nth_list_update)
  have same: "pending s' j = pending s j" "block_at s' j = block_at s j" for j
    using pend by (auto simp: pending_update [OF len s'(1)] block_at_update [OF len s'(1)] b)
  then have cov: "covered s' p = covered s p" "last_open f s' = last_open f s" for p
    by (simp_all add: covered_def last_open_def s'(2))
  have "\<forall>p < min (off s') m'. \<not> covered s' p \<longrightarrow> p < length (ofile s') \<and> ofile s' ! p = translate (f ! p)"
  proof (intro allI impI)
    fix p assume p: "p < min (off s') m'" "\<not> covered s' p"
    have "\<not> (pos \<le> p \<and> p < pos + BSZ)" using p(2) [unfolded cov] pend by (auto simp: covered_def)
    moreover have "n \<le> BSZ" by (simp add: n_def)
    ultimately have "p < m" using p(1) D(8) by (auto simp: m'_def split: if_splits)
    with p D(6) show "p < length (ofile s') \<and> ofile s' ! p = translate (f ! p)" by (simp add: s' cov)
  qed
  moreover have "length (ofile s') \<le> (if last_open f s' then last_off f else m')"
  proof (cases "pos = last_off f")
    case True
    with pend have "last_open f s" by (auto simp: last_open_def)
    with D(7) show ?thesis by (simp add: s'(4) cov)
  qed (use D(7) in \<open>simp add: s'(4) cov m'_def split: if_splits\<close>)
  ultimately have "aio_inv f m' s'"
    using D(1,2,3,5) bufs m' len i b by (simp add: aio_inv_def s' same length_filter_update)
  with m' show ?thesis by blast
qed

text \<open>A write is complete.\<close>

lemma write_done_inv:
  assumes inv: "aio_inv f m s" and i: "i < NBUF" "op (bufs s ! i) = WRITE_PENDING" and "write_done i k s = Inr s'"
  shows "aio_inv f m s'"
proof -
  note D = aio_invD [OF inv]
  define pos n where "pos = aio_offset (bufs s ! i)" and "n = min BSZ (m - pos)"
  have len: "i < length (bufs s)" using D(1) i by simp
  have bi: "BSZ dvd pos" "pos < off s" "pos < length f" "aio_nbytes (bufs s ! i) = n"
    "take n (buf_data (bufs s ! i)) = map translate (read_at f pos n)" "last_block (bufs s ! i) \<longrightarrow> length f \<le> off s"
    using D(4) [OF i(1)] i(2) by (auto simp: buf_ok_def pos_def n_def)
  define b where "b = (bufs s ! i)\<lparr>op := UNUSED\<rparr>"
  let ?d = "map translate (read_at f pos n)"
  have s': "bufs s' = (bufs s)[i := b]" "off s' = off s" "numop s' = numop s - 1" "ofile s' = write_at (ofile s) pos ?d"
    using assms(4) bi(4,5) unfolding write_done_def Let_def by (auto simp: b_def pos_def split: if_splits)
  have b: "op b = UNUSED" by (simp add: b_def)
  have pend: "pending s i" "block_at s i = pos" using i len by (simp_all add: pending_def block_at_def pos_def)
  have le: "pos + n \<le> m \<or> n = 0" "last_off f \<le> m" "m \<le> length f" using D(8,9) by (auto simp: n_def)
  have d: "length ?d = n" "\<And>q. q < n \<Longrightarrow> ?d ! q = translate (f ! (pos + q))"
    using le bi(3) by (auto simp: length_read_at n_def read_at_def)
  have pend': "pending s' j \<longleftrightarrow> j \<noteq> i \<and> pending s j" "j \<noteq> i \<Longrightarrow> block_at s' j = block_at s j" for j
    by (simp_all add: pending_update [OF len s'(1)] block_at_update [OF len s'(1)] b)
  have "buf_ok f m (off s') b" using bi(6) by (simp add: buf_ok_def b_def s'(2))
  then have bufs: "\<forall>j < NBUF. buf_ok f m (off s') (bufs s' ! j)" using len D(4) by (simp add: s'(1,2) nth_list_update)
  have "\<forall>p < min (off s') m. \<not> covered s' p \<longrightarrow> p < length (ofile s') \<and> ofile s' ! p = translate (f ! p)"
  proof (intro allI impI)
    fix p assume p: "p < min (off s') m" "\<not> covered s' p"
    show "p < length (ofile s') \<and> ofile s' ! p = translate (f ! p)"
    proof (cases "pos \<le> p \<and> p < pos + BSZ")
      case True
      with p(1) have "pos \<le> p" "p - pos < n" "p < pos + n" by (auto simp: n_def)
      moreover from this d(1) have "?d \<noteq> []" "p < length (ofile s')" by (auto simp: s'(4) length_write_at)
      ultimately show ?thesis using d by (simp add: s'(4) write_at_nth)
    next
      case False
      have "\<not> covered s p"
        using p(2) False pend unfolding covered_update [OF len s'(1)] b by (auto simp: covered_def)
      with p(1) D(6) have "p < length (ofile s)" "ofile s ! p = translate (f ! p)" by (simp_all add: s'(2))
      moreover have "n \<le> BSZ" by (simp add: n_def)
      moreover from calculation(1) have "p < length (ofile s')" by (auto simp: s'(4) length_write_at less_max_iff_disj)
      ultimately show ?thesis using False d(1) by (auto simp: s'(4) write_at_nth)
    qed
  qed
  moreover have "length (ofile s') \<le> (if last_open f s' then last_off f else m)"
  proof (cases "pos = last_off f")
    case True
    have "last_open f s" using pend True by (auto simp: last_open_def)
    moreover have "\<not> last_open f s'"
    proof
      assume "last_open f s'"
      then obtain j where "j \<noteq> i" "pending s j" "block_at s j = pos"
        using True bi(2) unfolding last_open_update [OF len s'(1)] b s'(2) by auto
      with D(5) [of j i] pend show False by simp
    qed
    ultimately show ?thesis using D(7) le True d(1) by (auto simp: s'(4) length_write_at)
  next
    case False
    have "pos + BSZ \<le> last_off f" using block_less_last [OF bi(1,3) False] .
    moreover have "last_open f s' = last_open f s"
      using False pend unfolding last_open_update [OF len s'(1)] b s'(2) by (auto simp: last_open_def)
    moreover have "n \<le> BSZ" by (simp add: n_def)
    ultimately show ?thesis using D(7) le d(1) by (auto simp: s'(4) length_write_at)
  qed
  moreover have "\<forall>j k. pending s' j \<and> pending s' k \<and> block_at s' j = block_at s' k \<longrightarrow> j = k"
    using D(5) pend' by metis
  ultimately show ?thesis
    using D(1,2,3) bufs le(2,3) len i b by (simp add: aio_inv_def s'(1-3) length_filter_update)
qed

lemma visit_inv:
  assumes "aio_inv f m s" "i < NBUF" "visit f r i s = Inr s'"
  shows "\<exists>m'. aio_inv f m' s' \<and> (m' = m \<or> m' = length f \<or> (\<exists>k > 0. request r i = Done k))"
  using assms start_read_inv [OF assms(1,2)] read_done_inv [OF assms(1,2)] write_done_inv [OF assms(1,2)]
  by (auto simp: visit_def split: rwop.splits polled_request.splits if_splits)

text \<open>The invariant of a run in which the answers of the turns \<open>rs\<close> were given.\<close>

definition copying :: "bytes \<Rightarrow> aio_turn set \<Rightarrow> aio \<Rightarrow> bool" where
  "copying f R s \<longleftrightarrow> (\<exists>m. aio_inv f m s \<and> (m = length f \<or> (\<exists>r\<in>R. \<exists>i. \<exists>k > 0. request r i = Done k)))"

lemma visits_copying:
  "copying f R s \<Longrightarrow> r \<in> R \<Longrightarrow> \<forall>i\<in>set is. i < NBUF \<Longrightarrow> visits f r is s = Inr s' \<Longrightarrow> copying f R s'"
proof (induction "is" arbitrary: s)
  case (Cons i "is")
  then obtain s1 where s1: "visit f r i s = Inr s1" "visits f r is s1 = Inr s'" by (auto simp: andthen_Inr_iff)
  from Cons.prems(1) obtain m where m: "aio_inv f m s" "m = length f \<or> (\<exists>r\<in>R. \<exists>i. \<exists>k > 0. request r i = Done k)"
    by (auto simp: copying_def)
  from visit_inv [OF m(1) _ s1(1)] Cons.prems(2,3) m(2) have "copying f R s1" by (auto simp: copying_def)
  with Cons s1(2) show ?case by simp
qed simp

lemma aio_loop_copying:
  "copying f R s \<Longrightarrow> set rs \<subseteq> R \<Longrightarrow> aio_loop f rs s = Inr (ended, s') \<Longrightarrow>
   copying f R s' \<and> (ended \<longrightarrow> numop s' = 0 \<and> length f \<le> off s')"
proof (induction rs arbitrary: s)
  case (Cons r rs)
  then obtain e1 s1 where s1: "aio_round f r s = Inr (e1, s1)" by (auto simp: andthen_Inr_iff)
  then have v: "visits f r [0..<NBUF] s = Inr s1" "e1 \<longrightarrow> numop s1 = 0 \<and> length f \<le> off s1"
    by (auto simp: aio_round_def andthen_Inr_iff split: if_splits)
  have "copying f R s1" using visits_copying [OF Cons.prems(1) _ _ v(1)] Cons.prems(2) by simp
  with Cons s1 v(2) show ?case by (auto split: if_splits)
qed simp

lemma aio_start_inv: "aio_inv f (length f) aio_start"
proof -
  have "\<not> pending aio_start i" for i by (auto simp: pending_def aio_start_def)
  then show ?thesis
    by (auto simp: aio_inv_def aio_start_def buf_ok_def) (use last_off_less [of f] in \<open>cases f; auto simp: last_off_def\<close>)+
qed

lemma aio_start_copying: "copying f R aio_start"
  using aio_start_inv by (auto simp: copying_def)

lemma aio_inv_end:
  assumes "aio_inv f m s" "numop s = 0" "length f \<le> off s"
  shows "ofile s = map translate (take m f)"
proof -
  note D = aio_invD [OF assms(1)]
  from D(3) assms(2) have "\<forall>b\<in>set (bufs s). op b = UNUSED" by (auto simp: filter_empty_conv)
  then have no: "\<not> pending s i" for i by (auto simp: pending_def)
  then have ok: "p < length (ofile s) \<and> ofile s ! p = translate (f ! p)" if "p < m" for p
    using D(6) [of p] D(9) assms(3) that by (simp add: covered_def)
  have "length (ofile s) \<le> m" using D(7,8) by (auto split: if_splits)
  moreover have "m \<le> length (ofile s)" using ok [of "m - 1"] by (cases m) auto
  ultimately show ?thesis using D(9) ok by (intro nth_equalityI) auto
qed

section \<open>Termination\<close>

text \<open>Three steps for every block: start of the read, end of the read, end of the write.\<close>

definition blocks :: "bytes \<Rightarrow> nat \<Rightarrow> nat" where
  "blocks f pos = (length f - pos + (BSZ - 1)) div BSZ"

fun weight :: "rwop \<Rightarrow> nat" where
  "weight UNUSED = 0" | "weight READ_PENDING = 2" | "weight WRITE_PENDING = 1"

definition work :: "bytes \<Rightarrow> aio \<Rightarrow> nat" where
  "work f s = 3 * blocks f (off s) + sum_list (map (weight \<circ> op) (bufs s))"

text \<open>A turn in which nothing fails, no count is short, and at least one request under way is complete, as
  \<open>aio_suspend\<close> promises; and a run of such turns.\<close>

definition good_turn :: "aio_turn \<Rightarrow> bool" where
  "good_turn r \<longleftrightarrow> suspend_ok r \<and> (\<forall>i. aio_read_ok r i \<and> aio_write_ok r i \<and> request r i \<in> {In_progress, Done 0})"

definition live_turn :: "aio_turn \<Rightarrow> aio \<Rightarrow> bool" where
  "live_turn r s \<longleftrightarrow> good_turn r \<and> ((\<exists>i. pending s i) \<longrightarrow> (\<exists>i. pending s i \<and> request r i = Done 0))"

fun live_run :: "bytes \<Rightarrow> aio_turn list \<Rightarrow> aio \<Rightarrow> bool" where
  "live_run f [] s = True"
| "live_run f (r # rs) s \<longleftrightarrow> live_turn r s \<and> (case aio_round f r s of Inr (False, s') \<Rightarrow> live_run f rs s' | _ \<Rightarrow> True)"

definition busy :: "bytes \<Rightarrow> aio_turn \<Rightarrow> aio \<Rightarrow> nat \<Rightarrow> bool" where
  "busy f r s i \<longleftrightarrow> (if op (bufs s ! i) = UNUSED then off s < length f else request r i = Done 0)"

lemma blocks_next:
  assumes "pos < length f"
  shows "blocks f pos = Suc (blocks f (pos + BSZ))"
proof (cases "pos + BSZ \<le> length f")
  case True
  then have "length f - pos + (BSZ - 1) = (length f - (pos + BSZ) + (BSZ - 1)) + BSZ" by simp
  then show ?thesis by (simp only: blocks_def div_add_self2 [OF BSZ_pos [THEN less_imp_neq, symmetric]] Suc_eq_plus1)
next
  case False
  with assms have "length f - pos + (BSZ - 1) = BSZ + (length f - pos - 1)" "length f - pos - 1 < BSZ" by simp_all
  then have "blocks f pos = 1" unfolding blocks_def by (simp only: div_add_self1 [OF BSZ_pos [THEN less_imp_neq, symmetric]] div_less)
  with False show ?thesis by (simp add: blocks_def)
qed

lemma work_step:
  assumes "i < length (bufs s)" "bufs s' = (bufs s)[i := b]"
    and "weight (op (bufs s ! i)) + 3 * blocks f (off s) = Suc (weight (op b) + 3 * blocks f (off s'))"
  shows "Suc (work f s') = work f s"
  using assms elem_le_sum_list [of i "map (weight \<circ> op) (bufs s)"]
  by (simp add: work_def map_update sum_list_update)

lemma visit_good:
  assumes inv: "aio_inv f (length f) s" and i: "i < NBUF" and r: "good_turn r"
  shows "\<exists>s'. visit f r i s = Inr s' \<and> (\<forall>j. j \<noteq> i \<longrightarrow> bufs s' ! j = bufs s ! j) \<and> work f s' + of_bool (busy f r s i) = work f s"
proof -
  have len: "i < length (bufs s)" using aio_invD(1) [OF inv] i by simp
  have ok: "aio_read_ok r i" "aio_write_ok r i" "request r i = In_progress \<or> request r i = Done 0"
    using r by (auto simp: good_turn_def)
  note buf = aio_invD(4) [OF inv i]
  show ?thesis
  proof (cases "op (bufs s ! i)")
    case UNUSED
    then show ?thesis
      using ok(1) blocks_next [of "off s" f]
      by (cases "off s < length f") (auto simp: visit_def start_read_def busy_def Let_def intro!: work_step [OF len])
  next
    case READ_PENDING
    with buf have "min (aio_nbytes (bufs s ! i)) (length f - aio_offset (bufs s ! i)) = BSZ \<or> last_block (bufs s ! i)"
      by (auto simp: buf_ok_def)
    with READ_PENDING show ?thesis
      using ok(2,3) by (auto simp: visit_def read_done_def busy_def length_read_at Let_def intro!: work_step [OF len])
  next
    case WRITE_PENDING
    then show ?thesis
      using ok(3) by (auto simp: visit_def write_done_def busy_def Let_def intro!: work_step [OF len])
  qed
qed

lemma visit_good_inv:
  assumes "aio_inv f (length f) s" "i < NBUF" "good_turn r" "visit f r i s = Inr s'"
  shows "aio_inv f (length f) s'"
  using visit_inv [OF assms(1,2,4)] assms(3) by (auto simp: good_turn_def) (metis less_irrefl polled_request.distinct(3) polled_request.inject)

lemma visits_good:
  "aio_inv f (length f) s \<Longrightarrow> good_turn r \<Longrightarrow> \<forall>i\<in>set is. i < NBUF \<Longrightarrow> distinct is \<Longrightarrow>
   \<exists>s'. visits f r is s = Inr s' \<and> aio_inv f (length f) s' \<and> work f s' \<le> work f s \<and>
     ((\<exists>i\<in>set is. op (bufs s ! i) \<noteq> UNUSED \<and> request r i = Done 0) \<or> is \<noteq> [] \<and> busy f r s (hd is) \<longrightarrow> work f s' < work f s)"
proof (induction "is" arbitrary: s)
  case (Cons i "is")
  from visit_good [OF Cons.prems(1) _ Cons.prems(2), of i] Cons.prems(3) obtain s1 where s1: "visit f r i s = Inr s1"
    "\<And>j. j \<noteq> i \<Longrightarrow> bufs s1 ! j = bufs s ! j" "work f s1 + of_bool (busy f r s i) = work f s" by auto
  have "aio_inv f (length f) s1" using visit_good_inv [OF Cons.prems(1) _ Cons.prems(2) s1(1)] Cons.prems(3) by simp
  from Cons.IH [OF this Cons.prems(2)] Cons.prems(3,4) obtain s' where s': "visits f r is s1 = Inr s'" "aio_inv f (length f) s'"
    "work f s' \<le> work f s1" "(\<exists>i\<in>set is. op (bufs s1 ! i) \<noteq> UNUSED \<and> request r i = Done 0) \<longrightarrow> work f s' < work f s1" by auto
  have "work f s' < work f s" if "(\<exists>j\<in>set (i # is). op (bufs s ! j) \<noteq> UNUSED \<and> request r j = Done 0) \<or> busy f r s i"
  proof (cases "busy f r s i")
    case False
    with that obtain j where "j \<in> set is" "op (bufs s ! j) \<noteq> UNUSED" "request r j = Done 0" by (auto simp: busy_def)
    moreover from this Cons.prems(4) have "j \<noteq> i" by auto
    ultimately show ?thesis using s'(4) s1(2,3) by fastforce
  qed (use s1(3) s'(3) in simp)
  with s1 s' show ?case by auto
qed simp

lemma round_good:
  assumes inv: "aio_inv f (length f) s" and live: "live_turn r s"
  shows "\<exists>ended s'. aio_round f r s = Inr (ended, s') \<and> aio_inv f (length f) s' \<and>
    (if ended then numop s' = 0 \<and> length f \<le> off s' else work f s' < work f s)"
proof -
  have r: "good_turn r" using live by (simp add: live_turn_def)
  have "\<forall>i\<in>set [0..<NBUF]. i < NBUF" "distinct [0..<NBUF]" by simp_all
  from visits_good [OF inv r this] obtain s' where s': "visits f r [0..<NBUF] s = Inr s'" "aio_inv f (length f) s'"
    "(\<exists>i\<in>set [0..<NBUF]. op (bufs s ! i) \<noteq> UNUSED \<and> request r i = Done 0) \<or> busy f r s 0 \<longrightarrow> work f s' < work f s"
    by (auto simp: NBUF_def)
  show ?thesis
  proof (cases "(\<exists>i. pending s i) \<or> off s < length f")
    case True
    have "work f s' < work f s"
    proof (cases "\<exists>i. pending s i")
      case True
      with live obtain i where "pending s i" "request r i = Done 0" by (auto simp: live_turn_def)
      with s'(3) aio_invD(1) [OF inv] show ?thesis by (auto simp: pending_def)
    next
      case False
      with \<open>_ \<or> _\<close> s'(3) aio_invD(1) [OF inv] show ?thesis by (auto simp: pending_def busy_def NBUF_def)
    qed
    with s' r show ?thesis by (auto simp: aio_round_def good_turn_def)
  next
    case False
    have "visits f r is s = Inr s" if "\<forall>i\<in>set is. i < NBUF" for "is"
      using that False aio_invD(1) [OF inv] by (induction "is") (auto simp: visit_def pending_def)
    then have "s' = s" using s'(1) by simp
    moreover have "numop s = 0"
      using False aio_invD(1,3) [OF inv] by (auto simp: pending_def filter_empty_conv in_set_conv_nth)
    ultimately show ?thesis using s' False by (auto simp: aio_round_def)
  qed
qed

lemma loop_good:
  "aio_inv f (length f) s \<Longrightarrow> live_run f rs s \<Longrightarrow> work f s < length rs \<Longrightarrow>
   \<exists>s'. aio_loop f rs s = Inr (True, s') \<and> ofile s' = map translate f"
proof (induction rs arbitrary: s)
  case (Cons r rs)
  have "live_turn r s" using Cons.prems(2) by simp
  from round_good [OF Cons.prems(1) this] obtain ended s1 where s1: "aio_round f r s = Inr (ended, s1)" "aio_inv f (length f) s1"
    "if ended then numop s1 = 0 \<and> length f \<le> off s1 else work f s1 < work f s" by blast
  show ?case
  proof (cases ended)
    case True
    with s1 aio_inv_end [OF s1(2)] show ?thesis by simp
  next
    case False
    with s1 Cons.prems(2,3) Cons.IH [OF s1(2)] show ?thesis by simp
  qed
qed simp

lemma asyncio_run:
  assumes "length argv = 3" "live_run f rounds aio_start" "3 * blocks f 0 < length rounds"
  shows "\<exists>s. asyncio_main argv True f rounds True = Inr (True, s) \<and> ofile s = map translate f"
proof -
  have "work f aio_start < length rounds"
    using assms(3) by (simp add: work_def aio_start_def sum_list_replicate)
  from loop_good [OF aio_start_inv assms(2) this] assms(1) show ?thesis by (auto simp: asyncio_main_def)
qed

text \<open>A system that completes every request at once.\<close>

definition quick_turn :: aio_turn where
  "quick_turn = \<lparr>aio_read_ok = \<lambda>i. True, aio_write_ok = \<lambda>i. True, request = \<lambda>i. Done 0, suspend_ok = True\<rparr>"

lemma quick_live: "live_run f (replicate n quick_turn) s"
  by (induction n arbitrary: s) (auto simp: live_turn_def good_turn_def quick_turn_def split: sum.split bool.split)

section \<open>Properties\<close>

text \<open>C11: whatever the order in which the requests complete and whatever the system answers, when the program gets to its
  end the output file is the translation of the input file, every block at its place, and complete unless a count was
  short; then at most the last block is cut.\<close>

theorem asyncio_copies:
  assumes "asyncio_main argv opens_ok f rounds fsync_ok = Inr (True, s)"
  shows "\<exists>m. ofile s = map translate (take m f) \<and> (length f - 1) div BSZ * BSZ \<le> m \<and> m \<le> length f \<and>
    (m = length f \<or> (\<exists>r\<in>set rounds. \<exists>i. \<exists>k > 0. request r i = Done k))"
proof -
  have run: "aio_loop f rounds aio_start = Inr (True, s)"
    using assms by (auto simp: asyncio_main_def andthen_Inr_iff split: if_splits)
  from aio_loop_copying [OF aio_start_copying order_refl run]
  obtain m where "aio_inv f m s" "m = length f \<or> (\<exists>r\<in>set rounds. \<exists>i. \<exists>k > 0. request r i = Done k)" "numop s = 0" "length f \<le> off s"
    by (auto simp: copying_def)
  then show ?thesis using aio_inv_end [of f m s] aio_invD(8,9) [of f m s] by (auto simp: last_off_def)
qed

theorem asyncio_copies_witness:
  "\<exists>s. asyncio_main [''a'', ''b'', ''c''] True [104, 105] (replicate 4 quick_turn) True = Inr (True, s) \<and> ofile s = [117, 118]"
proof -
  obtain s where s: "asyncio_main [''a'', ''b'', ''c''] True [104, 105] (replicate 4 quick_turn) True = Inr (True, s)"
    using asyncio_run [of "[''a'', ''b'', ''c'']" "[104, 105]" "replicate 4 quick_turn"] quick_live by (auto simp: blocks_def BSZ_def)
  moreover have "\<not> (\<exists>r\<in>set (replicate 4 quick_turn). \<exists>i. \<exists>k > 0. request r i = Done k)" by (simp add: quick_turn_def)
  ultimately obtain m where "ofile s = map translate (take m [104, 105])" "m = length [104, 105 :: 8 word]"
    using asyncio_copies [OF s] by blast
  with s show ?thesis by (simp add: translate_def is_alpha_def)
qed

text \<open>C23: the program ends: when no call fails, no count is short and \<open>aio_suspend\<close> returns only when a request is
  complete, it needs at most three turns for every block and one more, and the output is the translated input.\<close>

theorem asyncio_ends:
  assumes "length argv = 3" "live_run f rounds aio_start" "3 * ((length f + (BSZ - 1)) div BSZ) < length rounds"
  shows "\<exists>s. asyncio_main argv True f rounds True = Inr (True, s) \<and> ofile s = map translate f"
  using asyncio_run [OF assms(1,2)] assms(3) by (simp add: blocks_def)

theorem asyncio_ends_witness:
  "\<exists>s. asyncio_main [''a'', ''b'', ''c''] True [104, 105] (replicate 4 quick_turn) True = Inr (True, s) \<and> ofile s = [117, 118]"
  using asyncio_ends [of "[''a'', ''b'', ''c'']" "[104, 105]" "replicate 4 quick_turn"] quick_live
  by (simp add: BSZ_def translate_def is_alpha_def)

text \<open>The translation is its own inverse: a second run on the output gives the input back.\<close>

theorem asyncio_twice:
  assumes "length argv = 3" "live_run f rounds aio_start" "3 * ((length f + (BSZ - 1)) div BSZ) < length rounds"
    and "live_run (map translate f) rounds' aio_start" "length rounds' = length rounds"
  shows "\<exists>s s'. asyncio_main argv True f rounds True = Inr (True, s) \<and>
    asyncio_main argv True (ofile s) rounds' True = Inr (True, s') \<and> ofile s' = f"
proof -
  have "map translate (map translate f) = f" by (simp add: translate_inverse comp_def)
  then show ?thesis
    using asyncio_run [OF assms(1,2)] asyncio_run [OF assms(1,4)] assms(3,5) by (force simp: blocks_def)
qed

theorem asyncio_twice_witness:
  "\<exists>s s'. asyncio_main [''a'', ''b'', ''c''] True [104, 105] (replicate 4 quick_turn) True = Inr (True, s) \<and>
    asyncio_main [''a'', ''b'', ''c''] True (ofile s) (replicate 4 quick_turn) True = Inr (True, s') \<and> ofile s' = [104, 105]"
  by (rule asyncio_twice) (simp_all add: quick_live BSZ_def)

end
