(* ===== verification/Josep.thy ===== *)
theory Josep
  imports Prelude
begin

text \<open>
  The ring of \<^verbatim>\<open>src/c_code/algorithem/task/fakejose.c\<close>: a doubly linked ring of nodes from which \<open>josep\<close>
  keeps deleting groups of neighbours.  The heap maps addresses to nodes; a null pointer, an access to a node
  that was freed and an overflow of the counter are errors.  \<open>malloc\<close> is taken to succeed, with the address \<open>i\<close>
  for the node \<open>i\<close> and 0 for the header, whose field \<open>pre\<close> is never read.  Shown: for a positive step the
  program accesses live nodes only, ends, and prints what the same deletions on a list give; for the step 0 it
  never ends; without nodes it follows a null pointer.
\<close>

section \<open>Definitions\<close>

record dl =
  dl_value :: int
  dl_next :: "nat option"
  dl_pre :: "nat option"

type_synonym dl_heap = "nat \<rightharpoonup> dl"

datatype josep_error = Null_pointer | Dangling | Int_overflow | No_fuel

datatype josep_out = Params int int | Del int | The_p int | Arrow int

definition dl_load :: "dl_heap \<Rightarrow> nat option \<Rightarrow> josep_error + dl" where
  "dl_load h p = (case p of None \<Rightarrow> Inl Null_pointer | Some a \<Rightarrow> (case h a of None \<Rightarrow> Inl Dangling | Some d \<Rightarrow> Inr d))"

definition dl_store :: "(dl \<Rightarrow> dl) \<Rightarrow> nat option \<Rightarrow> dl_heap \<Rightarrow> josep_error + dl_heap" where
  "dl_store f p h = (case p of None \<Rightarrow> Inl Null_pointer | Some a \<Rightarrow> (case h a of None \<Rightarrow> Inl Dangling | Some d \<Rightarrow> Inr (h(a \<mapsto> f d))))"

definition set_next :: "nat option \<Rightarrow> nat option \<Rightarrow> dl_heap \<Rightarrow> josep_error + dl_heap" where
  "set_next p q = dl_store (\<lambda>d. d\<lparr>dl_next := q\<rparr>) p"

definition set_pre :: "nat option \<Rightarrow> nat option \<Rightarrow> dl_heap \<Rightarrow> josep_error + dl_heap" where
  "set_pre p q = dl_store (\<lambda>d. d\<lparr>dl_pre := q\<rparr>) p"

text \<open>The loop that appends the nodes \<open>i\<close>, \<open>i + 1\<close>, \dots\<close>

fun append_nodes :: "nat \<Rightarrow> nat \<Rightarrow> dl_heap \<Rightarrow> nat option \<Rightarrow> josep_error + dl_heap \<times> nat option" where
  "append_nodes 0 i h p = Inr (h, p)"
| "append_nodes (Suc k) i h p =
     (let temp = Some i; h1 = h(i \<mapsto> \<lparr>dl_value = int i, dl_next = None, dl_pre = None\<rparr>) in
      andthen (set_next p temp h1) (\<lambda>h2.
      andthen (set_pre temp p h2) (\<lambda>h3.
      andthen (dl_load h3 p) (\<lambda>d. append_nodes k (Suc i) h3 (dl_next d)))))"

definition build_ring :: "int \<Rightarrow> josep_error + dl_heap \<times> nat option" where
  "build_ring n =
     (let l = Some 0 in
      andthen (append_nodes (nat n) 1 [0 \<mapsto> \<lparr>dl_value = 0, dl_next = None, dl_pre = None\<rparr>] l) (\<lambda>(h, p).
      andthen (dl_load h l) (\<lambda>dl.
      andthen (set_pre (dl_next dl) p h) (\<lambda>h1.
      andthen (set_next p (dl_next dl) h1) (\<lambda>h2. Inr (h2, dl_next dl))))))"

text \<open>The inner loop deletes; the loop after it prints eleven values.\<close>

fun delete_loop :: "nat \<Rightarrow> dl_heap \<Rightarrow> nat option \<Rightarrow> josep_out list \<Rightarrow> josep_error + dl_heap \<times> nat option \<times> josep_out list" where
  "delete_loop 0 h p out = Inr (h, p, out)"
| "delete_loop (Suc m) h p out =
     andthen (dl_load h p) (\<lambda>del.
     andthen (set_pre (dl_next del) (dl_pre del) h) (\<lambda>h1.
     andthen (dl_load h1 p) (\<lambda>del1.
     andthen (set_next (dl_pre del1) (dl_next del) h1) (\<lambda>h2.
     let h3 = h2(the p := None) in
     andthen (dl_load h3 (dl_next del)) (\<lambda>d.
     delete_loop m h3 (dl_next del) (out @ [Del (dl_value del), The_p (dl_value d)]))))))"

fun show_loop :: "nat \<Rightarrow> dl_heap \<Rightarrow> nat option \<Rightarrow> josep_out list \<Rightarrow> josep_error + josep_out list" where
  "show_loop 0 h dp out = Inr out"
| "show_loop (Suc j) h dp out = andthen (dl_load h dp) (\<lambda>d. show_loop j h (dl_next d) (out @ [Arrow (dl_value d)]))"

definition in_int :: "int \<Rightarrow> bool" where
  "in_int z \<longleftrightarrow> - (2 ^ 31) \<le> z \<and> z < 2 ^ 31"

fun josep_loop :: "nat \<Rightarrow> int \<Rightarrow> int \<Rightarrow> dl_heap \<Rightarrow> nat option \<Rightarrow> josep_out list \<Rightarrow> josep_error + dl_heap \<times> josep_out list" where
  "josep_loop 0 t n h p out = Inl No_fuel"
| "josep_loop (Suc fuel) t n h p out =
     (let n = n - t in
      if \<not> in_int n then Inl Int_overflow
      else if n > 0
      then andthen (dl_load h p) (\<lambda>d.
           andthen (delete_loop (nat t) h (dl_next d) out) (\<lambda>(h, p, out).
           andthen (show_loop 11 h p out) (\<lambda>out. josep_loop fuel t n h p out)))
      else Inr (h, out))"

definition josep :: "nat \<Rightarrow> int \<Rightarrow> int \<Rightarrow> josep_out list \<Rightarrow> josep_error + dl_heap \<times> josep_out list" where
  "josep fuel m n out = andthen (build_ring n) (\<lambda>(h, p). josep_loop fuel m n h p out)"

text \<open>The arguments are one character each.\<close>

definition josep_main :: "nat \<Rightarrow> char \<Rightarrow> char \<Rightarrow> josep_error + dl_heap \<times> josep_out list" where
  "josep_main fuel a b =
     (let m = schar a - 48; n = schar b - 48 in josep fuel m n [Params m n])"

section \<open>Specification\<close>

text \<open>The ring from \<open>p\<close> on as a list: the first element is passed over, the next \<open>t\<close> are deleted.\<close>

definition deleted :: "nat \<Rightarrow> int list \<Rightarrow> josep_out list" where
  "deleted t ys = concat (map (\<lambda>j. [Del (ys ! j), The_p (ys ! Suc j)]) [0..<t])"

definition shown :: "int list \<Rightarrow> josep_out list" where
  "shown zs = map (\<lambda>j. Arrow (zs ! (j mod length zs))) [0..<11]"

function josep_spec :: "nat \<Rightarrow> int list \<Rightarrow> josep_out list \<times> int list" where
  "josep_spec t xs =
     (if 0 < t \<and> t < length xs
      then let ys = rotate1 xs; zs = drop t ys; (out, rest) = josep_spec t zs in (deleted t ys @ shown zs @ out, rest)
      else ([], xs))"
  by auto
termination by (relation "measure (length \<circ> snd)") auto

declare josep_spec.simps [simp del]

section \<open>Rings in the heap\<close>

fun links :: "dl_heap \<Rightarrow> nat list \<Rightarrow> bool" where
  "links h (a # b # xs) \<longleftrightarrow> (\<exists>d e. h a = Some d \<and> h b = Some e \<and> dl_next d = Some b \<and> dl_pre e = Some a) \<and> links h (b # xs)"
| "links h _ \<longleftrightarrow> True"

definition ring :: "dl_heap \<Rightarrow> nat list \<Rightarrow> bool" where
  "ring h xs \<longleftrightarrow> xs \<noteq> [] \<and> distinct xs \<and> links h (xs @ [hd xs])"

definition vals :: "dl_heap \<Rightarrow> nat list \<Rightarrow> int list" where
  "vals h = map (\<lambda>a. dl_value (the (h a)))"

lemma links_split: "links h (xs @ a # ys) \<longleftrightarrow> links h (xs @ [a]) \<and> links h (a # ys)"
proof (induction xs)
  case (Cons x xs)
  then show ?case by (cases xs) auto
qed simp

lemma ring_rotate: "ring h (a # xs) \<Longrightarrow> ring h (xs @ [a])"
proof (cases xs)
  case (Cons b ys)
  assume "ring h (a # xs)"
  with Cons show ?thesis using links_split [of h "b # ys" a "[b]"] by (simp add: ring_def)
qed (simp add: ring_def)

lemma links_cong: "(\<And>x. x \<in> set xs \<Longrightarrow> h' x = h x) \<Longrightarrow> links h' xs = links h xs"
  by (induction h xs rule: links.induct) auto

lemma links_snoc: "xs \<noteq> [] \<Longrightarrow> links h (xs @ [a]) \<longleftrightarrow> links h xs \<and> links h [last xs, a]"
  by (induction h xs rule: links.induct) auto

text \<open>Links survive a change of the first node's predecessor and the last one's successor.\<close>

lemma links_ends:
  assumes "links h xs" "distinct xs"
    and "\<And>x. x \<in> set xs \<Longrightarrow> \<exists>d d'. h x = Some d \<and> h' x = Some d' \<and> (x \<noteq> hd xs \<longrightarrow> dl_pre d' = dl_pre d) \<and> (x \<noteq> last xs \<longrightarrow> dl_next d' = dl_next d)"
  shows "links h' xs"
  using assms
proof (induction h xs rule: links.induct)
  case (1 h a b xs)
  have ne: "a \<noteq> b" "a \<noteq> last (b # xs)" using 1(3) last_in_set [of "b # xs"] by auto
  have "links h' (b # xs)"
  proof (rule 1(1))
    fix x assume "x \<in> set (b # xs)"
    with 1(3) 1(4) [of x] show "\<exists>d d'. h x = Some d \<and> h' x = Some d' \<and> (x \<noteq> hd (b # xs) \<longrightarrow> dl_pre d' = dl_pre d) \<and> (x \<noteq> last (b # xs) \<longrightarrow> dl_next d' = dl_next d)"
      by auto
  qed (use 1(2,3) in auto)
  with 1(2) 1(4) [of a] 1(4) [of b] ne show ?case by auto
qed simp_all

lemma ring_head:
  assumes "ring h (a # xs)"
  obtains d where "h a = Some d" "dl_next d = Some (hd (xs @ [a]))" "dl_pre d = Some (last (a # xs))"
proof -
  have "links h (a # xs @ [a])" using assms by (simp add: ring_def)
  then have "links h [last (a # xs), a]" using links_snoc [of "a # xs" h a] by simp
  moreover have "\<exists>d. h a = Some d \<and> dl_next d = Some (hd (xs @ [a]))"
    using \<open>links h (a # xs @ [a])\<close> by (cases xs) auto
  ultimately show thesis using that by auto
qed

lemma ring_alloc: "ring h xs \<Longrightarrow> x \<in> set xs \<Longrightarrow> \<exists>d. h x = Some d"
proof -
  assume "ring h xs" "x \<in> set xs"
  moreover have "links h ys \<Longrightarrow> x \<in> set (butlast ys) \<Longrightarrow> \<exists>d. h x = Some d" for ys
    by (induction h ys rule: links.induct) (auto split: if_splits)
  ultimately show ?thesis by (metis butlast_snoc ring_def)
qed

text \<open>Unlinking the first node of a ring of two or more.\<close>

definition unlinked :: "nat \<Rightarrow> nat \<Rightarrow> nat \<Rightarrow> dl_heap \<Rightarrow> dl_heap" where
  "unlinked q a b h =
     (let h1 = h(b \<mapsto> (the (h b))\<lparr>dl_pre := Some q\<rparr>) in (h1(q \<mapsto> (the (h1 q))\<lparr>dl_next := Some b\<rparr>))(a := None))"

lemma ring_delete:
  assumes "ring h (a # b # xs)"
  shows "ring (unlinked (last (b # xs)) a b h) (b # xs)"
    and "x \<in> set (b # xs) \<Longrightarrow> \<exists>d d'. h x = Some d \<and> unlinked (last (b # xs)) a b h x = Some d' \<and> dl_value d' = dl_value d"
proof -
  let ?q = "last (b # xs)" and ?h = "unlinked (last (b # xs)) a b h"
  have ds: "a \<notin> set (b # xs)" "distinct (b # xs)" "links h ((b # xs) @ [a])" using assms by (auto simp: ring_def)
  have q: "?q \<in> set (b # xs)" "?q \<noteq> a" using ds last_in_set [of "b # xs"] by auto
  from ring_alloc [OF assms, of b] ring_alloc [OF assms, of ?q] q(1) obtain db dq where d: "h b = Some db" "h ?q = Some dq" by auto
  show "x \<in> set (b # xs) \<Longrightarrow> \<exists>d d'. h x = Some d \<and> ?h x = Some d' \<and> dl_value d' = dl_value d"
    using ring_alloc [OF assms, of x] ds(1) by (auto simp: unlinked_def Let_def)
  have mid: "links h (b # xs)" using ds(3) links_snoc [of "b # xs" h a] by simp
  have keep: "links ?h (b # xs)"
  proof (rule links_ends [OF mid ds(2)])
    fix x assume "x \<in> set (b # xs)"
    with ring_alloc [OF assms, of x] ds(1)
    show "\<exists>d d'. h x = Some d \<and> ?h x = Some d' \<and> (x \<noteq> hd (b # xs) \<longrightarrow> dl_pre d' = dl_pre d) \<and> (x \<noteq> last (b # xs) \<longrightarrow> dl_next d' = dl_next d)"
      by (auto simp: unlinked_def Let_def simp del: last.simps)
  qed
  have "links ?h [?q, b]" using d q ds(1) by (auto simp: unlinked_def Let_def)
  then have "links ?h ((b # xs) @ [b])"
    using keep links_snoc [of "b # xs" ?h b] by simp
  with ds show "ring ?h (b # xs)" by (simp add: ring_def)
qed

lemma vals_unlinked: "ring h (a # b # xs) \<Longrightarrow> vals (unlinked (last (b # xs)) a b h) (b # xs) = vals h (b # xs)"
  using ring_delete(2) [of h a b xs] by (fastforce simp: vals_def simp del: last.simps)

section \<open>The loops\<close>

lemma delete_step:
  assumes "ring h (a # b # xs)"
  shows "delete_loop (Suc m) h (Some a) out =
    delete_loop m (unlinked (last (b # xs)) a b h) (Some b) (out @ [Del (dl_value (the (h a))), The_p (dl_value (the (h b)))])"
proof -
  from ring_head [OF assms] obtain d where d: "h a = Some d" "dl_next d = Some b" "dl_pre d = Some (last (b # xs))" by auto
  have q: "last (b # xs) \<in> set (b # xs)" "a \<noteq> b" "a \<noteq> last (b # xs)"
    using assms last_in_set [of "b # xs"] by (auto simp: ring_def)
  from ring_alloc [OF assms, of b] ring_alloc [OF assms, of "last (b # xs)"] q(1) obtain db dq where "h b = Some db" "h (last (b # xs)) = Some dq" by auto
  then show ?thesis
    using d q by (auto simp: dl_load_def set_pre_def set_next_def dl_store_def andthen_def unlinked_def Let_def simp del: last.simps)
qed

lemma deleted_Suc: "vs \<noteq> [] \<Longrightarrow> deleted (Suc k) (v # vs) = Del v # The_p (hd vs) # deleted k vs"
proof -
  assume "vs \<noteq> []"
  moreover have "[0..<Suc k] = 0 # map Suc [0..<k]" by (simp add: map_Suc_upt upt_conv_Cons)
  ultimately show ?thesis by (simp add: deleted_def hd_conv_nth comp_def del: upt_Suc)
qed

lemma delete_ring:
  "ring h (as @ b # xs) \<Longrightarrow>
   \<exists>h'. delete_loop (length as) h (Some (hd (as @ [b]))) out = Inr (h', Some b, out @ deleted (length as) (vals h (as @ b # xs))) \<and>
     ring h' (b # xs) \<and> vals h' (b # xs) = vals h (b # xs)"
proof (induction as arbitrary: h out)
  case Nil
  then show ?case by (auto simp: deleted_def)
next
  case (Cons a as)
  obtain c ys where c: "as @ b # xs = c # ys" by (cases as) auto
  let ?h = "unlinked (last (c # ys)) a c h"
  from Cons.prems have r: "ring h (a # c # ys)" by (simp add: c)
  have hd: "hd (as @ [b]) = c" using c by (cases as) auto
  from ring_delete(1) [OF r] have "ring ?h (as @ b # xs)" by (simp add: c del: last.simps)
  from Cons.IH [OF this, of "out @ [Del (dl_value (the (h a))), The_p (dl_value (the (h c)))]"] obtain h' where
    h': "delete_loop (length as) ?h (Some c) (out @ [Del (dl_value (the (h a))), The_p (dl_value (the (h c)))]) =
      Inr (h', Some b, (out @ [Del (dl_value (the (h a))), The_p (dl_value (the (h c)))]) @ deleted (length as) (vals ?h (as @ b # xs)))"
      "ring h' (b # xs)" "vals h' (b # xs) = vals ?h (b # xs)" by (auto simp: hd)
  have v: "vals ?h (as @ b # xs) = vals h (as @ b # xs)" using vals_unlinked [OF r] by (simp add: c del: last.simps)
  then have "vals ?h (b # xs) = vals h (b # xs)" by (simp add: vals_def)
  moreover have "deleted (length (a # as)) (vals h ((a # as) @ b # xs)) = Del (dl_value (the (h a))) # The_p (dl_value (the (h c))) # deleted (length as) (vals h (as @ b # xs))"
    using deleted_Suc [of "vals h (as @ b # xs)"] by (simp add: vals_def c)
  ultimately show ?case
    using h' delete_step [OF r, of "length as" out] v by (simp del: last.simps delete_loop.simps)
qed

lemma show_ring:
  "ring h xs \<Longrightarrow> show_loop k h (Some (hd xs)) out = Inr (out @ map (\<lambda>j. Arrow (vals h xs ! (j mod length xs))) [0..<k])"
proof (induction k arbitrary: xs out)
  case (Suc k)
  then obtain a ys where xs: "xs = a # ys" by (cases xs) (auto simp: ring_def)
  from ring_head [OF Suc.prems [unfolded xs]] obtain d where d: "h a = Some d" "dl_next d = Some (hd (ys @ [a]))" by auto
  have len: "0 < length xs" by (simp add: xs)
  have nth: "vals h (ys @ [a]) ! (j mod length xs) = vals h xs ! (Suc j mod length xs)" for j
    using nth_rotate1 [of "j mod length xs" "vals h xs"] len mod_less_divisor [of "length xs" j] by (simp add: vals_def xs mod_Suc_eq)
  have "[0..<Suc k] = 0 # map Suc [0..<k]" by (simp add: map_Suc_upt upt_conv_Cons)
  then have "map (\<lambda>j. Arrow (vals h xs ! (j mod length xs))) [0..<Suc k] = Arrow (dl_value d) # map (\<lambda>j. Arrow (vals h (ys @ [a]) ! (j mod length xs))) [0..<k]"
    using d(1) nth by (simp add: xs vals_def del: upt_Suc)
  with Suc.IH [OF ring_rotate [OF Suc.prems [unfolded xs]], of "out @ [Arrow (dl_value d)]"] d show ?case
    by (simp add: xs dl_load_def andthen_def del: upt_Suc)
qed simp

lemma josep_loop_ring:
  assumes "ring h xs" "int (length xs) = n" "0 < t" "in_int t" "in_int n" "length xs \<le> fuel"
  shows "\<exists>h' zs. josep_loop fuel t n h (Some (hd xs)) out = Inr (h', out @ fst (josep_spec (nat t) (vals h xs))) \<and>
    ring h' zs \<and> vals h' zs = snd (josep_spec (nat t) (vals h xs))"
  using assms
proof (induction fuel arbitrary: h xs n out)
  case 0
  then show ?case by (simp add: ring_def)
next
  case (Suc fuel)
  have len: "length (vals h ys) = length ys" for h ys by (simp add: vals_def)
  have int: "in_int (n - t)" using Suc.prems by (simp add: in_int_def)
  show ?case
  proof (cases "0 < n - t")
    case False
    then have "josep_spec (nat t) (vals h xs) = ([], vals h xs)"
      using Suc.prems(2) by (subst josep_spec.simps) (auto simp: len)
    with False int Suc.prems(1) show ?thesis by auto
  next
    case True
    from Suc.prems(1) obtain a ys where xs: "xs = a # ys" by (cases xs) (auto simp: ring_def)
    from ring_head [OF Suc.prems(1) [unfolded xs]] obtain d where d: "h a = Some d" "dl_next d = Some (hd (ys @ [a]))" by auto
    have r: "ring h (ys @ [a])" using ring_rotate Suc.prems(1) xs by simp
    have lt: "nat t < length (ys @ [a])" using True Suc.prems(2) xs by simp
    obtain as b zs where sp: "ys @ [a] = as @ b # zs" "length as = nat t"
      using id_take_nth_drop [OF lt] lt by (metis length_take less_imp_le min.absorb4)
    have "hd (as @ [b]) = hd (ys @ [a])" unfolding sp(1) by (cases as) simp_all
    with delete_ring [OF r [unfolded sp(1)], of out] sp obtain h1 where h1:
      "delete_loop (nat t) h (Some (hd (ys @ [a]))) out = Inr (h1, Some b, out @ deleted (nat t) (vals h (ys @ [a])))"
      "ring h1 (b # zs)" "vals h1 (b # zs) = vals h (b # zs)" by auto
    have dr: "drop (nat t) (vals h (ys @ [a])) = vals h (b # zs)" using sp by (simp add: vals_def)
    have rot: "rotate1 (vals h xs) = vals h (ys @ [a])" by (simp add: vals_def xs)
    have spec: "josep_spec (nat t) (vals h xs) = (let (o1, rest) = josep_spec (nat t) (vals h (b # zs)) in
        (deleted (nat t) (vals h (ys @ [a])) @ shown (vals h (b # zs)) @ o1, rest))"
      using lt Suc.prems(3) by (subst josep_spec.simps) (simp add: len xs rot [unfolded xs] dr [unfolded append_Cons] Let_def)
    have sh: "show_loop 11 h1 (Some b) o1 = Inr (o1 @ shown (vals h (b # zs)))" for o1
      using show_ring [OF h1(2), of 11 o1] h1(3) len [of h "b # zs"] by (simp only: shown_def list.sel)
    have l: "int (length (b # zs)) = n - t" "length (b # zs) \<le> fuel"
      using arg_cong [OF sp(1), of length] sp(2) Suc.prems(2,3,6) xs by auto
    from Suc.IH [OF h1(2) l(1) Suc.prems(3,4) int l(2), of "(out @ deleted (nat t) (vals h (ys @ [a]))) @ shown (vals h (b # zs))"]
    show ?thesis
      using True int d h1(1,3) sh spec xs by (simp add: dl_load_def andthen_def split_beta Let_def)
  qed
qed

section \<open>Building the ring\<close>

definition chain :: "nat \<Rightarrow> dl_heap" where
  "chain k = (\<lambda>a. if a \<le> k
     then Some \<lparr>dl_value = int a, dl_next = (if a < k then Some (Suc a) else None), dl_pre = (if a = 0 then None else Some (a - 1))\<rparr>
     else None)"

lemma append_chain: "append_nodes k (Suc j) (chain j) (Some j) = Inr (chain (j + k), Some (j + k))"
proof (induction k arbitrary: j)
  case (Suc k)
  have "set_next (Some j) (Some (Suc j)) ((chain j)(Suc j \<mapsto> \<lparr>dl_value = int (Suc j), dl_next = None, dl_pre = None\<rparr>)) =
      Inr ((chain j)(Suc j \<mapsto> \<lparr>dl_value = int (Suc j), dl_next = None, dl_pre = None\<rparr>, j \<mapsto> (the (chain j j))\<lparr>dl_next := Some (Suc j)\<rparr>))"
    by (simp add: set_next_def dl_store_def chain_def)
  moreover have "set_pre (Some (Suc j)) (Some j)
      ((chain j)(Suc j \<mapsto> \<lparr>dl_value = int (Suc j), dl_next = None, dl_pre = None\<rparr>, j \<mapsto> (the (chain j j))\<lparr>dl_next := Some (Suc j)\<rparr>)) =
      Inr (chain (Suc j))"
    by (auto simp: set_pre_def dl_store_def chain_def fun_eq_iff)
  moreover have "dl_load (chain (Suc j)) (Some j) = Inr (the (chain (Suc j) j))" "dl_next (the (chain (Suc j) j)) = Some (Suc j)"
    by (simp_all add: dl_load_def chain_def)
  ultimately show ?case using Suc.IH [of "Suc j"] by (simp add: andthen_def Let_def)
qed simp

lemma links_upt:
  assumes "\<And>i. a \<le> i \<Longrightarrow> Suc i < b \<Longrightarrow> \<exists>d e. h i = Some d \<and> h (Suc i) = Some e \<and> dl_next d = Some (Suc i) \<and> dl_pre e = Some i"
  shows "links h [a..<b]"
  using assms
proof (induction "b - a" arbitrary: a)
  case (Suc k)
  then show ?case
    using Suc.hyps(1) [of "Suc a"] Suc.prems [of a] by (cases "Suc a < b") (auto simp: upt_conv_Cons)
qed simp

lemma build_ring_ok:
  assumes "0 < N"
  shows "\<exists>h. build_ring (int N) = Inr (h, Some 1) \<and> ring h [1..<Suc N] \<and> vals h [1..<Suc N] = map int [1..<Suc N]"
proof -
  let ?h1 = "(chain N)(1 \<mapsto> (the (chain N 1))\<lparr>dl_pre := Some N\<rparr>)"
  let ?h2 = "?h1(N \<mapsto> (the (?h1 N))\<lparr>dl_next := Some 1\<rparr>)"
  have "[0 \<mapsto> \<lparr>dl_value = 0, dl_next = None, dl_pre = None\<rparr>] = chain 0" by (auto simp: chain_def)
  then have b: "build_ring (int N) = Inr (?h2, Some 1)"
    using assms append_chain [of N 0]
    by (auto simp: build_ring_def andthen_def dl_load_def set_pre_def set_next_def dl_store_def chain_def Let_def)
  have val: "vals ?h2 [1..<Suc N] = map int [1..<Suc N]" by (auto simp: vals_def chain_def)
  have "links ?h2 [1..<Suc N]" by (rule links_upt) (auto simp: chain_def)
  moreover have "links ?h2 [N, 1]" using assms by (auto simp: chain_def)
  moreover have "hd [1..<Suc N] = 1" "last [1..<Suc N] = N" using assms by (simp_all add: upt_conv_Cons [of 1 "Suc N"] del: upt_Suc)
  ultimately have "ring ?h2 [1..<Suc N]" using assms links_snoc [of "[1..<Suc N]" ?h2 1] by (simp add: ring_def del: upt_Suc)
  with b val show ?thesis by blast
qed

section \<open>Properties\<close>

text \<open>C33: with a positive step and at least one node the program ends after at most \<open>n\<close> rounds, follows no null pointer and no pointer to a
  freed node, and prints what the same deletions on the list 1, \dots, \<open>n\<close> give: round by round the group of \<open>m\<close>
  neighbours behind the current one goes, as long as a node is left, and the nodes left form a ring again.\<close>

theorem josep_deletes_groups:
  assumes "0 < m" "m < 2 ^ 31" "0 < n" "n < 2 ^ 31" "nat n \<le> fuel"
  shows "\<exists>h zs. josep fuel m n out = Inr (h, out @ fst (josep_spec (nat m) (map int [1..<Suc (nat n)]))) \<and>
    ring h zs \<and> vals h zs = snd (josep_spec (nat m) (map int [1..<Suc (nat n)]))"
proof -
  obtain h where h: "build_ring n = Inr (h, Some 1)" "ring h [1..<Suc (nat n)]" "vals h [1..<Suc (nat n)] = map int [1..<Suc (nat n)]"
    using build_ring_ok [of "nat n"] assms(3) by auto
  have "hd [1..<Suc (nat n)] = 1" using assms(3) by (simp add: upt_conv_Cons [of 1 "Suc (nat n)"] del: upt_Suc)
  moreover have "in_int m" "in_int n" "int (length [1..<Suc (nat n)]) = n" "length [1..<Suc (nat n)] \<le> fuel"
    using assms by (auto simp: in_int_def)
  ultimately show ?thesis
    using josep_loop_ring [OF h(2) _ assms(1), of n fuel out] h by (simp add: josep_def andthen_def del: upt_Suc)
qed

theorem josep_deletes_groups_witness:
  "\<exists>h zs. josep 7 3 7 [] = Inr (h, fst (josep_spec 3 [1, 2, 3, 4, 5, 6, 7])) \<and> vals h zs = [5] \<and>
     filter (\<lambda>e. case e of Del _ \<Rightarrow> True | _ \<Rightarrow> False) (fst (josep_spec 3 [1, 2, 3, 4, 5, 6, 7])) = map Del [2, 3, 4, 6, 7, 1]"
proof -
  have "map int [1..<Suc (nat 7)] = [1, 2, 3, 4, 5, 6, 7]" by code_simp
  moreover have "josep_spec 3 [1, 2, 3, 4, 5, 6, 7] = (deleted 3 [2, 3, 4, 5, 6, 7, 1] @ shown [5, 6, 7, 1] @ deleted 3 [6, 7, 1, 5] @ shown [5], [5])"
    by (simp add: josep_spec.simps Let_def)
  ultimately show ?thesis
    using josep_deletes_groups [of 3 7 7 "[]"] by (auto simp: deleted_def shown_def upt_rec)
qed

text \<open>The step 0: a ring is passed round for ever.\<close>

lemma josep_loop_zero: "ring h xs \<Longrightarrow> 0 < n \<Longrightarrow> in_int n \<Longrightarrow> josep_loop fuel 0 n h (Some (hd xs)) out = Inl No_fuel"
proof (induction fuel arbitrary: xs out)
  case (Suc fuel)
  from Suc.prems(1) obtain a ys where xs: "xs = a # ys" by (cases xs) (auto simp: ring_def)
  from ring_head [OF Suc.prems(1) [unfolded xs]] obtain d where d: "h a = Some d" "dl_next d = Some (hd (ys @ [a]))" by auto
  have r: "ring h (ys @ [a])" using ring_rotate Suc.prems(1) xs by simp
  from show_ring [OF r, of 11 out] Suc.IH [OF r] d Suc.prems(2,3) xs show ?case by (simp add: dl_load_def andthen_def)
qed simp

lemma josep_step_zero:
  assumes "0 < n" "n < 2 ^ 31"
  shows "josep fuel 0 n out = Inl No_fuel"
proof -
  obtain h where h: "build_ring n = Inr (h, Some 1)" "ring h [1..<Suc (nat n)]"
    using build_ring_ok [of "nat n"] assms(1) by auto
  have "hd [1..<Suc (nat n)] = 1" using assms(1) by (simp add: upt_conv_Cons [of 1 "Suc (nat n)"] del: upt_Suc)
  with josep_loop_zero [OF h(2) assms(1), of fuel out] h assms show ?thesis by (simp add: josep_def andthen_def in_int_def del: upt_Suc)
qed

lemma josep_no_nodes: "n \<le> 0 \<Longrightarrow> josep fuel m n out = Inl Null_pointer"
  by (simp add: josep_def build_ring_def andthen_def dl_load_def set_pre_def dl_store_def)

end
