(* ===== verification/Deadlock.thy ===== *)
theory Deadlock
  imports Prelude
begin

text \<open>
  Two processes that lock each other out: \<^verbatim>\<open>src/c_code/apue/advio/dead_lock.c\<close>, which keeps step through the
  pipes of \<^verbatim>\<open>src/c_code/apue/tellwait.c\<close>.  A state holds the record locks, the contents of the two pipes, which
  process sleeps for which byte, and the two program counters; a step is a step of one process.  \<open>fcntl\<close> behaves
  as documented: a lock another process holds is waited for, unless that process sleeps for one of ours, when the
  call fails; locks are released at exit.  The calls on the pipes do not fail.  Shown: in every interleaving no
  process reads a wrong byte, some process can always go on until both have exited, a run has at most twenty
  steps, and in the end exactly one process failed and the other got both its locks.
\<close>

section \<open>Definitions\<close>

datatype who = Child | Parent

fun other :: "who \<Rightarrow> who" where
  "other Child = Parent" | "other Parent = Child"

datatype exit_how = Ended | Lock_failed | Incorrect_data

record world =
  locks :: "nat \<Rightarrow> who option"
  sleeps :: "who \<Rightarrow> nat option"
  pfd1 :: string
  pfd2 :: string

datatype reaction = Goes world | Sleeps world | Dies exit_how

text \<open>\<^verbatim>\<open>tellwait.c\<close>.\<close>

definition TELL_WAIT :: "world \<Rightarrow> world" where
  "TELL_WAIT w = w\<lparr>pfd1 := [], pfd2 := []\<rparr>"

definition TELL_PARENT :: "world \<Rightarrow> reaction" where
  "TELL_PARENT w = Goes (w\<lparr>pfd2 := pfd2 w @ ''c''\<rparr>)"

definition WAIT_PARENT :: "world \<Rightarrow> reaction" where
  "WAIT_PARENT w = (case pfd1 w of
       [] \<Rightarrow> Sleeps w
     | c # cs \<Rightarrow> if c \<noteq> CHR ''p'' then Dies Incorrect_data else Goes (w\<lparr>pfd1 := cs\<rparr>))"

definition TELL_CHILD :: "world \<Rightarrow> reaction" where
  "TELL_CHILD w = Goes (w\<lparr>pfd1 := pfd1 w @ ''p''\<rparr>)"

definition WAIT_CHILD :: "world \<Rightarrow> reaction" where
  "WAIT_CHILD w = (case pfd2 w of
       [] \<Rightarrow> Sleeps w
     | c # cs \<Rightarrow> if c \<noteq> CHR ''c'' then Dies Incorrect_data else Goes (w\<lparr>pfd2 := cs\<rparr>))"

text \<open>\<^verbatim>\<open>dead_lock.c\<close>.\<close>

definition lockabypt :: "who \<Rightarrow> nat \<Rightarrow> world \<Rightarrow> reaction" where
  "lockabypt p b w =
     (if locks w b = None \<or> locks w b = Some p
      then Goes (w\<lparr>locks := (locks w)(b \<mapsto> p), sleeps := (sleeps w)(p := None)\<rparr>)
      else if (case sleeps w (other p) of None \<Rightarrow> False | Some b' \<Rightarrow> locks w b' = Some p) then Dies Lock_failed
      else Sleeps (w\<lparr>sleeps := (sleeps w)(p \<mapsto> b)\<rparr>))"

fun child_code :: "nat \<Rightarrow> (world \<Rightarrow> reaction) option" where
  "child_code pc =
     (if pc = 0 then Some (lockabypt Child 0)
      else if pc = 1 then Some TELL_PARENT
      else if pc = 2 then Some WAIT_PARENT
      else if pc = 3 then Some (lockabypt Child 1)
      else None)"

fun parent_code :: "nat \<Rightarrow> (world \<Rightarrow> reaction) option" where
  "parent_code pc =
     (if pc = 0 then Some (lockabypt Parent 1)
      else if pc = 1 then Some TELL_CHILD
      else if pc = 2 then Some WAIT_CHILD
      else if pc = 3 then Some (lockabypt Parent 0)
      else None)"

fun dl_code :: "who \<Rightarrow> nat \<Rightarrow> (world \<Rightarrow> reaction) option" where
  "dl_code Child pc = child_code pc"
| "dl_code Parent pc = parent_code pc"

record two =
  world_of :: world
  pcs :: "who \<Rightarrow> nat"
  exits :: "who \<Rightarrow> exit_how option"

definition dl_start :: two where
  "dl_start = \<lparr>world_of = TELL_WAIT \<lparr>locks = \<lambda>_. None, sleeps = \<lambda>_. None, pfd1 = [], pfd2 = []\<rparr>, pcs = \<lambda>_. 0, exits = \<lambda>_. None\<rparr>"

text \<open>The end of a process releases its locks.\<close>

definition leave :: "who \<Rightarrow> exit_how \<Rightarrow> two \<Rightarrow> two" where
  "leave p x s = s\<lparr>world_of := (world_of s)\<lparr>locks := (\<lambda>b. if locks (world_of s) b = Some p then None else locks (world_of s) b),
     sleeps := (sleeps (world_of s))(p := None)\<rparr>, exits := (exits s)(p \<mapsto> x)\<rparr>"

inductive dl_step :: "two \<Rightarrow> two \<Rightarrow> bool" where
  go: "exits s p = None \<Longrightarrow> dl_code p (pcs s p) = Some f \<Longrightarrow> f (world_of s) = Goes w \<Longrightarrow>
    dl_step s (s\<lparr>world_of := w, pcs := (pcs s)(p := Suc (pcs s p))\<rparr>)"
| sleep: "exits s p = None \<Longrightarrow> dl_code p (pcs s p) = Some f \<Longrightarrow> f (world_of s) = Sleeps w \<Longrightarrow> w \<noteq> world_of s \<Longrightarrow>
    dl_step s (s\<lparr>world_of := w\<rparr>)"
| die: "exits s p = None \<Longrightarrow> dl_code p (pcs s p) = Some f \<Longrightarrow> f (world_of s) = Dies x \<Longrightarrow> dl_step s (leave p x s)"
| ends: "exits s p = None \<Longrightarrow> dl_code p (pcs s p) = None \<Longrightarrow> dl_step s (leave p Ended s)"

inductive dl_reach :: "nat \<Rightarrow> two \<Rightarrow> bool" where
  start: "dl_reach 0 dl_start"
| next_step: "dl_reach n s \<Longrightarrow> dl_step s s' \<Longrightarrow> dl_reach (Suc n) s'"

text \<open>One turn of a process, and a run as a sequence of turns.\<close>

definition dl_turn :: "who \<Rightarrow> two \<Rightarrow> two option" where
  "dl_turn p s =
     (if exits s p \<noteq> None then None
      else case dl_code p (pcs s p) of
        None \<Rightarrow> Some (leave p Ended s)
      | Some f \<Rightarrow> (case f (world_of s) of
          Goes w \<Rightarrow> Some (s\<lparr>world_of := w, pcs := (pcs s)(p := Suc (pcs s p))\<rparr>)
        | Sleeps w \<Rightarrow> if sleeps w p = sleeps (world_of s) p then None else Some (s\<lparr>world_of := w\<rparr>)
        | Dies x \<Rightarrow> Some (leave p x s)))"

fun dl_turns :: "who list \<Rightarrow> two \<Rightarrow> two option" where
  "dl_turns [] s = Some s"
| "dl_turns (p # ps) s = (case dl_turn p s of None \<Rightarrow> None | Some s' \<Rightarrow> dl_turns ps s')"

lemma lockabypt_eq:
  "lockabypt p b w =
     (if locks w b = None \<or> locks w b = Some p
      then Goes (w\<lparr>locks := (locks w)(b \<mapsto> p), sleeps := (sleeps w)(p := None)\<rparr>)
      else if \<exists>b'. sleeps w (other p) = Some b' \<and> locks w b' = Some p then Dies Lock_failed
      else Sleeps (w\<lparr>sleeps := (sleeps w)(p \<mapsto> b)\<rparr>))"
  by (auto simp: lockabypt_def split: option.splits)

lemma dl_turn_step: "dl_turn p s = Some s' \<Longrightarrow> dl_step s s'"
  by (auto simp: dl_turn_def split: if_splits option.splits reaction.splits intro: dl_step.intros)

lemma dl_turns_reach: "dl_turns ps s = Some s' \<Longrightarrow> dl_reach n s \<Longrightarrow> dl_reach (n + length ps) s'"
proof (induction ps arbitrary: s n)
  case (Cons p ps)
  then obtain s1 where "dl_turn p s = Some s1" "dl_turns ps s1 = Some s'" by (auto split: option.splits)
  with Cons.IH [of s1 "Suc n"] Cons.prems(2) show ?case by (auto intro: dl_reach.next_step dl_turn_step)
qed simp

section \<open>The invariant\<close>

text \<open>The byte a process locks first and the one it locks second; the pipe it reads from.\<close>

fun first_byte :: "who \<Rightarrow> nat" where
  "first_byte Child = 0" | "first_byte Parent = 1"

fun inbox :: "who \<Rightarrow> world \<Rightarrow> string" where
  "inbox Child w = pfd1 w" | "inbox Parent w = pfd2 w"

fun letter :: "who \<Rightarrow> string" where
  "letter Child = ''p''" | "letter Parent = ''c''"

definition holds_first :: "two \<Rightarrow> who \<Rightarrow> bool" where
  "holds_first s p \<longleftrightarrow> exits s p = None \<and> 1 \<le> pcs s p"

definition proc_inv :: "two \<Rightarrow> who \<Rightarrow> bool" where
  "proc_inv s p \<longleftrightarrow>
     inbox p (world_of s) = (if 2 \<le> pcs s (other p) \<and> pcs s p < 3 then letter p else []) \<and>
     pcs s p \<le> 4 \<and> (3 \<le> pcs s p \<longrightarrow> 2 \<le> pcs s (other p)) \<and>
     locks (world_of s) (first_byte p) =
       (if holds_first s p then Some p else if exits s (other p) = None \<and> pcs s (other p) = 4 then Some (other p) else None) \<and>
     (pcs s p = 4 \<longrightarrow> exits s (other p) = Some Lock_failed) \<and>
     (exits s p = None \<or> exits s p = Some Ended \<and> pcs s p = 4 \<or>
       exits s p = Some Lock_failed \<and> pcs s p = 3 \<and> exits s (other p) \<noteq> Some Lock_failed \<and> 3 \<le> pcs s (other p)) \<and>
     (sleeps (world_of s) p \<noteq> None \<longrightarrow> sleeps (world_of s) p = Some (first_byte (other p)) \<and> pcs s p = 3 \<and> exits s p = None)"

definition dl_inv :: "two \<Rightarrow> bool" where
  "dl_inv s \<longleftrightarrow> proc_inv s Child \<and> proc_inv s Parent"

lemma dl_inv_start: "dl_inv dl_start"
  by (simp add: dl_inv_def proc_inv_def dl_start_def TELL_WAIT_def holds_first_def)

lemmas dl_defs = dl_inv_def proc_inv_def holds_first_def lockabypt_eq TELL_PARENT_def TELL_CHILD_def WAIT_PARENT_def WAIT_CHILD_def leave_def

lemma pc_cases:
  assumes "dl_inv s"
  shows "pcs s p = 0 \<or> pcs s p = 1 \<or> pcs s p = 2 \<or> pcs s p = 3 \<or> pcs s p = 4"
proof -
  have "pcs s p \<le> 4" using assms by (cases p) (simp_all add: dl_inv_def proc_inv_def)
  then show ?thesis by linarith
qed

lemma dl_inv_go:
  assumes "dl_inv s" "exits s p = None" "dl_code p (pcs s p) = Some f" "f (world_of s) = Goes w"
  shows "dl_inv (s\<lparr>world_of := w, pcs := (pcs s)(p := Suc (pcs s p))\<rparr>)"
  using pc_cases [OF assms(1), of p] assms
  by (cases p) (elim disjE; auto simp: dl_defs split: if_splits list.splits)+

lemma dl_inv_sleep:
  assumes "dl_inv s" "exits s p = None" "dl_code p (pcs s p) = Some f" "f (world_of s) = Sleeps w"
  shows "dl_inv (s\<lparr>world_of := w\<rparr>)"
  using pc_cases [OF assms(1), of p] assms
  by (cases p) (elim disjE; auto simp: dl_defs split: if_splits list.splits)+

lemma dl_inv_die:
  assumes "dl_inv s" "exits s p = None" "dl_code p (pcs s p) = Some f" "f (world_of s) = Dies x"
  shows "dl_inv (leave p x s)"
  using pc_cases [OF assms(1), of p] assms
  by (cases p) (elim disjE; auto simp: dl_defs split: if_splits list.splits)+

lemma dl_inv_ends:
  assumes "dl_inv s" "exits s p = None" "dl_code p (pcs s p) = None"
  shows "dl_inv (leave p Ended s)"
  using pc_cases [OF assms(1), of p] assms
  by (cases p) (elim disjE; auto simp: dl_defs split: if_splits list.splits)+

lemma dl_reach_inv: "dl_reach n s \<Longrightarrow> dl_inv s"
proof (induction rule: dl_reach.induct)
  case (next_step n s s')
  from next_step(2,3) show ?case
    by (cases rule: dl_step.cases) (simp_all add: dl_inv_go dl_inv_sleep dl_inv_die dl_inv_ends)
qed (rule dl_inv_start)

section \<open>Progress and the length of a run\<close>

definition proc_rank :: "two \<Rightarrow> who \<Rightarrow> nat" where
  "proc_rank s p = (if exits s p = None then 2 * (5 - pcs s p) - of_bool (sleeps (world_of s) p \<noteq> None) else 0)"

definition dl_rank :: "two \<Rightarrow> nat" where
  "dl_rank s = proc_rank s Child + proc_rank s Parent"

lemmas rank_defs = dl_rank_def proc_rank_def

lemma goes_sleeps: "dl_code p pc = Some f \<Longrightarrow> f w = Goes w' \<Longrightarrow> sleeps w' q = sleeps w q \<or> q = p \<and> sleeps w' q = None"
  by (cases p) (auto simp: dl_defs split: if_splits list.splits)

lemma falls_asleep:
  assumes "dl_inv s" "dl_code p (pcs s p) = Some f" "f (world_of s) = Sleeps w" "w \<noteq> world_of s"
  shows "sleeps (world_of s) p = None \<and> sleeps w p \<noteq> None \<and> sleeps w (other p) = sleeps (world_of s) (other p)"
proof -
  obtain b where b: "w = (world_of s)\<lparr>sleeps := (sleeps (world_of s))(p \<mapsto> b)\<rparr>" "pcs s p = 3 \<longrightarrow> b = first_byte (other p)"
    using assms(2-4) by (cases p) (auto simp: dl_defs split: if_splits list.splits)
  have "sleeps (world_of s) p = None"
  proof (rule ccontr)
    assume "sleeps (world_of s) p \<noteq> None"
    with assms(1) have "sleeps (world_of s) p = Some (first_byte (other p))" "pcs s p = 3"
      by (cases p; simp add: dl_inv_def proc_inv_def)+
    with b assms(4) show False by (simp add: fun_upd_idem)
  qed
  with b show ?thesis by (cases p) auto
qed

lemma dl_rank_alt: "dl_rank s = proc_rank s p + proc_rank s (other p)"
  by (cases p) (simp_all add: dl_rank_def)

lemma other_neq [simp]: "other p \<noteq> p" "p \<noteq> other p"
  by (cases p; simp)+

lemma dl_step_rank: "dl_step s s' \<Longrightarrow> dl_inv s \<Longrightarrow> dl_rank s' < dl_rank s"
proof (induction rule: dl_step.induct)
  case (go s p f w)
  then show ?case
    using pc_cases [of s p] goes_sleeps [OF go(2,3), of p] goes_sleeps [OF go(2,3), of "other p"]
    by (auto simp: dl_rank_alt [of _ p] proc_rank_def)
next
  case (sleep s p f w)
  then show ?case
    using pc_cases [of s p] falls_asleep [of s p f w] by (auto simp: dl_rank_alt [of _ p] proc_rank_def)
next
  case (die s p f x)
  then show ?case using pc_cases [of s p] by (auto simp: dl_rank_alt [of _ p] proc_rank_def leave_def)
next
  case (ends s p)
  then show ?case using pc_cases [of s p] by (auto simp: dl_rank_alt [of _ p] proc_rank_def leave_def)
qed

lemma dl_reach_rank: "dl_reach n s \<Longrightarrow> n + dl_rank s \<le> 20"
proof (induction rule: dl_reach.induct)
  case start
  then show ?case by (simp add: rank_defs dl_start_def TELL_WAIT_def)
next
  case (next_step n s s')
  with dl_step_rank [of s s'] dl_reach_inv [of n s] show ?case by simp
qed

text \<open>A process that cannot move sleeps for a pipe or a lock; two of them cannot.\<close>

definition moves :: "two \<Rightarrow> who \<Rightarrow> bool" where
  "moves s p \<longleftrightarrow> exits s p = None \<and>
     (case dl_code p (pcs s p) of None \<Rightarrow> True | Some f \<Rightarrow> (\<forall>w. f (world_of s) = Sleeps w \<longrightarrow> w \<noteq> world_of s))"

lemma moves_step: "moves s p \<Longrightarrow> \<exists>s'. dl_step s s'"
proof (cases "dl_code p (pcs s p)")
  case None
  assume "moves s p"
  with None show ?thesis by (auto simp: moves_def intro: dl_step.ends)
next
  case (Some f)
  assume "moves s p"
  with Some show ?thesis
    by (cases "f (world_of s)") (auto simp: moves_def intro: dl_step.go dl_step.sleep dl_step.die)
qed

lemma dl_invD:
  assumes "dl_inv s"
  shows "inbox p (world_of s) = (if 2 \<le> pcs s (other p) \<and> pcs s p < 3 then letter p else [])"
    and "locks (world_of s) (first_byte p) =
       (if holds_first s p then Some p else if exits s (other p) = None \<and> pcs s (other p) = 4 then Some (other p) else None)"
    and "pcs s p = 4 \<Longrightarrow> exits s (other p) = Some Lock_failed"
    and "exits s p \<noteq> None \<Longrightarrow> 3 \<le> pcs s p"
    and "exits s p = None \<or> exits s p = Some Ended \<and> pcs s p = 4 \<or> exits s p = Some Lock_failed \<and> exits s (other p) \<noteq> Some Lock_failed"
    and "3 \<le> pcs s p \<Longrightarrow> 2 \<le> pcs s (other p)"
proof -
  have "proc_inv s p" using assms by (cases p) (simp_all add: dl_inv_def)
  note * = this [unfolded proc_inv_def]
  show "inbox p (world_of s) = (if 2 \<le> pcs s (other p) \<and> pcs s p < 3 then letter p else [])" using * by blast
  show "locks (world_of s) (first_byte p) =
       (if holds_first s p then Some p else if exits s (other p) = None \<and> pcs s (other p) = 4 then Some (other p) else None)" using * by blast
  show "pcs s p = 4 \<Longrightarrow> exits s (other p) = Some Lock_failed" "3 \<le> pcs s p \<Longrightarrow> 2 \<le> pcs s (other p)" using * by blast+
  have ex: "exits s p = None \<or> exits s p = Some Ended \<and> pcs s p = 4 \<or>
       exits s p = Some Lock_failed \<and> pcs s p = 3 \<and> exits s (other p) \<noteq> Some Lock_failed \<and> 3 \<le> pcs s (other p)" using * by blast
  then show "exits s p \<noteq> None \<Longrightarrow> 3 \<le> pcs s p" by auto
  from ex show "exits s p = None \<or> exits s p = Some Ended \<and> pcs s p = 4 \<or> exits s p = Some Lock_failed \<and> exits s (other p) \<noteq> Some Lock_failed" by blast
qed

lemma other_other [simp]: "other (other p) = p"
  by (cases p) simp_all

lemma who_or: "q = p \<or> q = other p"
  by (cases p; cases q) simp_all

text \<open>The instructions of both processes in one form.\<close>

lemma dl_code_cases:
  "dl_code p 0 = Some (lockabypt p (first_byte p))" "dl_code p 3 = Some (lockabypt p (first_byte (other p)))"
  by (cases p; simp)+

lemma moves_tell: "exits s p = None \<Longrightarrow> pcs s p = 1 \<Longrightarrow> moves s p"
  by (cases p) (simp_all add: moves_def TELL_PARENT_def TELL_CHILD_def)

lemma moves_wait: "exits s p = None \<Longrightarrow> pcs s p = 2 \<Longrightarrow> \<not> moves s p \<Longrightarrow> inbox p (world_of s) = []"
  by (cases p) (simp_all add: moves_def WAIT_PARENT_def WAIT_CHILD_def split: list.splits if_splits)

lemma sleeps_upd: "w = w\<lparr>sleeps := (sleeps w)(p \<mapsto> b)\<rparr> \<Longrightarrow> sleeps w p = Some b"
  by (drule arg_cong [of _ _ "\<lambda>w. sleeps w p"]) simp

lemma stuck:
  assumes inv: "dl_inv s" and "exits s p = None" "\<not> moves s p"
  shows "pcs s p = 2 \<and> inbox p (world_of s) = [] \<or>
    pcs s p = 3 \<and> sleeps (world_of s) p = Some (first_byte (other p)) \<and> locks (world_of s) (first_byte (other p)) = Some (other p) \<and>
      \<not> (\<exists>b. sleeps (world_of s) (other p) = Some b \<and> locks (world_of s) b = Some p)"
proof -
  let ?w = "world_of s" and ?b = "first_byte (other p)"
  from pc_cases [OF inv, of p] show ?thesis
  proof (elim disjE)
    assume 0: "pcs s p = 0"
    with assms(2) have "locks ?w (first_byte p) = None"
      using dl_invD(2) [OF inv, of p] dl_invD(3) [OF inv, of "other p"] by (auto simp: holds_first_def)
    with 0 assms(2,3) show ?thesis by (simp add: moves_def dl_code_cases lockabypt_eq)
  next
    assume "pcs s p = 1"
    with moves_tell [of s p] assms show ?thesis by simp
  next
    assume "pcs s p = 2"
    with moves_wait [of s p] assms show ?thesis by simp
  next
    assume 3: "pcs s p = 3"
    with assms(2,3) obtain w where w: "lockabypt p ?b ?w = Sleeps w" "w = ?w"
      by (auto simp: moves_def dl_code_cases)
    then have "locks ?w ?b \<noteq> None" "locks ?w ?b \<noteq> Some p"
      "\<not> (\<exists>b. sleeps ?w (other p) = Some b \<and> locks ?w b = Some p)" "?w = ?w\<lparr>sleeps := (sleeps ?w)(p \<mapsto> ?b)\<rparr>"
      by (simp_all add: lockabypt_eq split: if_splits)
    moreover from this(4) have "sleeps ?w p = Some ?b" by (rule sleeps_upd)
    moreover from calculation(1,2) who_or [of _ p] have "locks ?w ?b = Some (other p)" by (cases "locks ?w ?b") auto
    ultimately show ?thesis using 3 by simp
  next
    assume "pcs s p = 4"
    with assms(2,3) show ?thesis by (cases p) (simp_all add: moves_def)
  qed
qed

lemma somebody_moves:
  assumes inv: "dl_inv s" and "exits s p = None"
  shows "moves s p \<or> moves s (other p)"
proof (rule ccontr)
  assume no: "\<not> (moves s p \<or> moves s (other p))"
  have ne: "letter p \<noteq> []" "[] \<noteq> letter p" for p by (cases p; simp)+
  from no have "\<not> moves s p" "\<not> moves s (other p)" by simp_all
  from stuck [OF inv assms(2) this(1)] show False
  proof (elim disjE conjE)
    assume wait: "pcs s p = 2" "inbox p (world_of s) = []"
    with dl_invD(1) [OF inv, of p] ne(1) [of p] have lt: "pcs s (other p) < 2" by (auto split: if_splits)
    with dl_invD(4) [OF inv, of "other p"] have "exits s (other p) = None" by force
    from stuck [OF inv this \<open>\<not> moves s (other p)\<close>] lt show False by auto
  next
    assume lock: "pcs s p = 3" "locks (world_of s) (first_byte (other p)) = Some (other p)"
      "\<not> (\<exists>b. sleeps (world_of s) (other p) = Some b \<and> locks (world_of s) b = Some p)"
    have mine: "locks (world_of s) (first_byte p) = Some p" using dl_invD(2) [OF inv, of p] lock(1) assms(2) by (simp add: holds_first_def)
    have ex: "exits s (other p) = None" using dl_invD(2) [OF inv, of "other p"] lock(1,2) by (auto simp: holds_first_def split: if_splits)
    from stuck [OF inv ex \<open>\<not> moves s (other p)\<close>] show False
    proof (elim disjE conjE)
      assume "pcs s (other p) = 2" "inbox (other p) (world_of s) = []"
      with dl_invD(1) [OF inv, of "other p"] lock(1) ne [of "other p"] show False by simp
    next
      assume "sleeps (world_of s) (other p) = Some (first_byte (other (other p)))"
      with lock(3) mine show False by simp
    qed
  qed
qed

section \<open>Properties\<close>

text \<open>C26: in every interleaving of the two processes: a run has at most twenty steps; as long as a process has not exited
  one of them can go on, so that nobody waits for ever although the locks are taken in opposite orders; no process reads
  a wrong byte; and when both have exited, exactly one had its lock refused and the other got to its end.\<close>

theorem deadlock_resolved:
  assumes "dl_reach n s"
  shows "n \<le> 20 \<and> (\<forall>p. exits s p \<noteq> Some Incorrect_data) \<and>
    ((\<exists>s'. dl_step s s') \<or> (\<exists>p. exits s p = Some Ended \<and> exits s (other p) = Some Lock_failed))"
proof -
  have inv: "dl_inv s" using assms by (rule dl_reach_inv)
  have "\<exists>s'. dl_step s s'" if "exits s p = None" for p
    using somebody_moves [OF inv that] moves_step by blast
  moreover have "\<exists>p. exits s p = Some Ended \<and> exits s (other p) = Some Lock_failed" if "\<forall>p. exits s p \<noteq> None"
  proof (cases "exits s Child = Some Ended")
    case True
    with dl_invD(3,5) [OF inv, of Child] show ?thesis by auto
  next
    case False
    with spec [OF that, of Child] dl_invD(5) [OF inv, of Child] have "exits s Child = Some Lock_failed" "exits s Parent \<noteq> Some Lock_failed" by auto
    with spec [OF that, of Parent] dl_invD(5) [OF inv, of Parent] show ?thesis by (intro exI [of _ Parent]) auto
  qed
  moreover have "exits s p \<noteq> Some Incorrect_data" for p using dl_invD(5) [OF inv, of p] by auto
  ultimately show ?thesis using dl_reach_rank [OF assms] by fastforce
qed

theorem deadlock_resolved_witness:
  "\<exists>s. dl_turns [Child, Parent, Child, Parent, Child, Parent, Child, Parent, Child, Child] dl_start = Some s \<and> dl_reach 10 s \<and>
     exits s Child = Some Ended \<and> exits s Parent = Some Lock_failed \<and> (10 :: nat) \<le> 20 \<and> (\<forall>p. exits s p \<noteq> Some Incorrect_data)"
proof -
  obtain s where s: "dl_turns [Child, Parent, Child, Parent, Child, Parent, Child, Parent, Child, Child] dl_start = Some s"
    "exits s Child = Some Ended" "exits s Parent = Some Lock_failed"
    by (simp add: dl_start_def dl_turn_def TELL_WAIT_def lockabypt_def TELL_PARENT_def TELL_CHILD_def WAIT_PARENT_def WAIT_CHILD_def leave_def)
  have "dl_reach 10 s" using dl_turns_reach [OF s(1) dl_reach.start] by (simp add: eval_nat_numeral)
  with s deadlock_resolved [OF this] show ?thesis by auto
qed

text \<open>The order of events the pipes enforce: nobody asks for the other's byte before both hold their own.\<close>

lemma both_hold_first:
  assumes "dl_reach n s" "pcs s p = 3" "exits s p = None" "exits s (other p) = None"
  shows "locks (world_of s) (first_byte p) = Some p \<and> locks (world_of s) (first_byte (other p)) = Some (other p)"
proof -
  have inv: "dl_inv s" using assms(1) by (rule dl_reach_inv)
  have "2 \<le> pcs s (other p)" using dl_invD(6) [OF inv, of p] assms(2) by simp
  with assms(2-4) dl_invD(2) [OF inv, of p] dl_invD(2) [OF inv, of "other p"] show ?thesis by (simp add: holds_first_def)
qed

end
