(* ===== verification/Nonblock.thy ===== *)
theory Nonblock
  imports Prelude
begin

text \<open>
  Non-blocking descriptors: \<open>set_fl\<close> and \<open>clr_fl\<close> of \<^verbatim>\<open>src/c_code/apue/set_fl.c\<close>, the program
  \<^verbatim>\<open>src/c_code/apue/advio/nonBlockio.c\<close> that uses them, and \<open>connect_nonb\<close> of
  \<^verbatim>\<open>src/c_code/unp/connect_nonb.c\<close>.  The status flags are a 32-bit word; the answers of the system calls come
  as records.  Shown: what the two functions do to the flags and when they undo each other; the program writes
  once only, whatever the write took; and exactly when \<open>connect_nonb\<close> reports a connection: also when \<open>select\<close>
  failed, although there is none.
\<close>

unbundle bit_operations_syntax

section \<open>Definitions\<close>

type_synonym fl = "32 word"

definition O_NONBLOCK :: fl where "O_NONBLOCK = 2048"

datatype nb_error = Getfl_error | Setfl_error | Select_error

text \<open>\<open>getfl\<close> and \<open>setfl\<close> say whether \<open>F_GETFL\<close> and \<open>F_SETFL\<close> succeed.\<close>

definition set_fl :: "bool \<Rightarrow> bool \<Rightarrow> fl \<Rightarrow> fl \<Rightarrow> nb_error + fl" where
  "set_fl getfl setfl flags val =
     (if \<not> getfl then Inl Getfl_error else if \<not> setfl then Inl Setfl_error else Inr (val OR flags))"

definition clr_fl :: "bool \<Rightarrow> bool \<Rightarrow> fl \<Rightarrow> fl \<Rightarrow> nb_error + fl" where
  "clr_fl getfl setfl flags val =
     (if \<not> getfl then Inl Getfl_error else if \<not> setfl then Inl Setfl_error else Inr (val AND NOT flags))"

subsection \<open>\<^verbatim>\<open>nonBlockio.c\<close>\<close>

record nbio_answers =
  stdin_read :: "string option"
  set_getfl :: bool
  set_setfl :: bool
  stdout_write :: "string \<Rightarrow> nat option"
  clr_getfl :: bool
  clr_setfl :: bool

definition nbio_buf :: nat where "nbio_buf = 500000"

text \<open>One turn of the loop ends the process; \<open>None\<close> for \<open>stdout_write\<close> is -1.\<close>

definition nbio_main :: "nbio_answers \<Rightarrow> fl \<Rightarrow> nb_error + string \<times> fl" where
  "nbio_main a val =
     (let buf = (case stdin_read a of None \<Rightarrow> [] | Some s \<Rightarrow> take nbio_buf s);
          ntowrite = (case stdin_read a of None \<Rightarrow> - 1 | Some s \<Rightarrow> int (length buf)) in
      andthen (set_fl (set_getfl a) (set_setfl a) O_NONBLOCK val) (\<lambda>val.
      if ntowrite > 0 then
        let out = (case stdout_write a buf of None \<Rightarrow> [] | Some n \<Rightarrow> take n buf) in
        andthen (clr_fl (clr_getfl a) (clr_setfl a) O_NONBLOCK val) (\<lambda>val. Inr (out, val))
      else Inr ([], val)))"

subsection \<open>\<^verbatim>\<open>connect_nonb.c\<close>\<close>

text \<open>Every call may fail with an error number, which goes to \<open>errno\<close>: \<open>None\<close> is success, \<open>Some e\<close> the
  error \<open>e\<close>.  \<open>nb_connect\<close> is \<open>None\<close> when \<open>connect\<close> returns 0; \<open>nb_so_error\<close> is \<open>Inl\<close> the error of
  \<open>getsockopt\<close> or \<open>Inr\<close> the pending error of the socket it reports.\<close>

datatype select_answer = Timeout | Select_failed int | Ready bool bool

record nb_answers =
  nb_getfl :: "int option"
  nb_setfl1 :: "int option"
  nb_setfl2 :: "int option"
  nb_connect :: "int option"
  nb_select :: select_answer
  nb_so_error :: "int + int"
  nb_close :: "int option"

record nb_sock =
  nb_flags :: fl
  nb_open :: bool
  nb_errno :: int

definition ETIMEDOUT :: int where "ETIMEDOUT = 110"
definition EINPROGRESS :: int where "EINPROGRESS = 115"

definition call_fl :: "int option \<Rightarrow> fl \<Rightarrow> nb_sock \<Rightarrow> nb_sock" where
  "call_fl r flags s = (case r of None \<Rightarrow> s\<lparr>nb_flags := flags\<rparr> | Some e \<Rightarrow> s\<lparr>nb_errno := e\<rparr>)"

text \<open>The descriptor is gone after \<open>close\<close>, also when it reports an error.\<close>

definition call_close :: "int option \<Rightarrow> nb_sock \<Rightarrow> nb_sock" where
  "call_close r s = (case r of None \<Rightarrow> s\<lparr>nb_open := False\<rparr> | Some e \<Rightarrow> s\<lparr>nb_open := False, nb_errno := e\<rparr>)"

definition nb_done :: "nb_answers \<Rightarrow> fl \<Rightarrow> int \<Rightarrow> nb_sock \<Rightarrow> nb_error + int \<times> nb_sock" where
  "nb_done a flags error s =
     (let s = call_fl (nb_setfl2 a) flags s in
      if error \<noteq> 0 then Inr (- 1, call_close (nb_close a) s) else Inr (0, s))"

text \<open>A failed \<open>select\<close> leaves both sets as they were, with the socket in them.\<close>

definition connect_nonb :: "nb_answers \<Rightarrow> nb_sock \<Rightarrow> nb_error + int \<times> nb_sock" where
  "connect_nonb a s =
     (let (flags, s) = (case nb_getfl a of None \<Rightarrow> (nb_flags s, s) | Some e \<Rightarrow> (- 1, s\<lparr>nb_errno := e\<rparr>));
          s = call_fl (nb_setfl1 a) (flags OR O_NONBLOCK) s;
          error = 0 in
      case nb_connect a of
        None \<Rightarrow> nb_done a flags error s
      | Some e \<Rightarrow>
          let s = s\<lparr>nb_errno := e\<rparr> in
          if e \<noteq> EINPROGRESS then Inr (- 1, s)
          else
            case (case nb_select a of
                    Timeout \<Rightarrow> None
                  | Select_failed e \<Rightarrow> Some (True, True, s\<lparr>nb_errno := e\<rparr>)
                  | Ready r w \<Rightarrow> Some (r, w, s)) of
              None \<Rightarrow> Inr (- 1, (call_close (nb_close a) s)\<lparr>nb_errno := ETIMEDOUT\<rparr>)
            | Some (r, w, s) \<Rightarrow>
                if r \<or> w
                then (case nb_so_error a of
                        Inl e \<Rightarrow> Inr (- 1, s\<lparr>nb_errno := e\<rparr>)
                      | Inr error \<Rightarrow> nb_done a flags error s)
                else Inl Select_error)"

section \<open>Properties\<close>

text \<open>\<open>clr_fl\<close> undoes \<open>set_fl\<close> exactly when none of the flags was set before.\<close>

lemma clr_set_iff: "(val OR flags) AND NOT flags = val \<longleftrightarrow> val AND flags = 0" for val :: fl
proof -
  have "(val OR flags) AND NOT flags = val AND NOT flags" by (rule bit_eqI) (auto simp: bit_simps)
  moreover have "val AND NOT flags = val \<longleftrightarrow> val AND flags = 0"
    by (auto simp: bit_eq_iff bit_simps)
  ultimately show ?thesis by simp
qed

theorem clr_fl_undoes_set_fl:
  "andthen (set_fl True True flags val) (clr_fl True True flags) = Inr val \<longleftrightarrow> val AND flags = 0"
  by (simp add: set_fl_def clr_fl_def clr_set_iff)

text \<open>The program writes once: what the first \<open>write\<close> does not take is lost, and with an empty input the descriptor
  stays non-blocking.\<close>

theorem nbio_writes_once:
  assumes "stdin_read a = Some s" "set_getfl a" "set_setfl a" "clr_getfl a" "clr_setfl a"
  shows "nbio_main a val =
    (if s = [] then Inr ([], val OR O_NONBLOCK)
     else Inr (case stdout_write a (take nbio_buf s) of None \<Rightarrow> [] | Some n \<Rightarrow> take n (take nbio_buf s), (val OR O_NONBLOCK) AND NOT O_NONBLOCK))"
proof -
  have "0 < nbio_buf" by (simp add: nbio_buf_def)
  with assms show ?thesis by (auto simp: nbio_main_def set_fl_def clr_fl_def Let_def)
qed

theorem nbio_writes_once_witness:
  "nbio_main \<lparr>stdin_read = Some ''abc'', set_getfl = True, set_setfl = True, stdout_write = \<lambda>s. Some 1, clr_getfl = True, clr_setfl = True\<rparr> 1 =
     Inr (''a'', (1 OR O_NONBLOCK) AND NOT O_NONBLOCK)"
  using nbio_writes_once [of "\<lparr>stdin_read = Some ''abc'', set_getfl = True, set_setfl = True, stdout_write = \<lambda>s. Some 1, clr_getfl = True, clr_setfl = True\<rparr>" "''abc''" 1]
  by (simp add: nbio_buf_def)

text \<open>The connection is there when \<open>connect\<close> says so at once, or when the socket becomes ready without an error.\<close>

definition established :: "nb_answers \<Rightarrow> bool" where
  "established a \<longleftrightarrow> nb_connect a = None \<or>
     nb_connect a = Some EINPROGRESS \<and> (\<exists>r w. nb_select a = Ready r w \<and> (r \<or> w)) \<and> nb_so_error a = Inr 0"

text \<open>The error number a failed call left behind before the pending error of the socket is looked up.\<close>

definition errno_after_select :: "nb_answers \<Rightarrow> int" where
  "errno_after_select a = (case nb_select a of Select_failed e \<Rightarrow> e | _ \<Rightarrow> EINPROGRESS)"

text \<open>C36: every outcome of \<open>connect_nonb\<close> when its calls of \<open>fcntl\<close> succeed.  It gives up with a message exactly when
  \<open>select\<close> returns without the socket in a set.  It returns 0 exactly when the connection is established or, wrongly, when
  \<open>select\<close> failed and the socket has no error yet; the status flags are then as before and the socket is open.  Otherwise
  it returns -1: after an error of \<open>connect\<close> or of \<open>getsockopt\<close> with that error in \<open>errno\<close> and the socket left open and
  non-blocking, after a timeout with \<open>ETIMEDOUT\<close> and the socket closed, and after an error of the socket with the socket
  closed and its error not in \<open>errno\<close>, which holds what \<open>close\<close>, \<open>select\<close> or \<open>connect\<close> last put there.\<close>

theorem connect_nonb_outcomes:
  assumes "nb_getfl a = None" "nb_setfl1 a = None" "nb_setfl2 a = None" "nb_open s"
  shows "(\<forall>x. connect_nonb a s = Inl x \<longleftrightarrow> x = Select_error \<and> nb_connect a = Some EINPROGRESS \<and> nb_select a = Ready False False) \<and>
    ((\<exists>s'. connect_nonb a s = Inr (0, s')) \<longleftrightarrow>
      established a \<or> nb_connect a = Some EINPROGRESS \<and> (\<exists>e. nb_select a = Select_failed e) \<and> nb_so_error a = Inr 0) \<and>
    (\<forall>r s'. connect_nonb a s = Inr (r, s') \<longrightarrow>
      (if r = 0 then nb_flags s' = nb_flags s \<and> nb_open s'
       else r = - 1 \<and>
         (if nb_connect a \<noteq> Some EINPROGRESS
          then nb_flags s' = nb_flags s OR O_NONBLOCK \<and> nb_open s' \<and> nb_connect a = Some (nb_errno s')
          else if nb_select a = Timeout then \<not> nb_open s' \<and> nb_errno s' = ETIMEDOUT
          else (case nb_so_error a of
                  Inl e \<Rightarrow> nb_flags s' = nb_flags s OR O_NONBLOCK \<and> nb_open s' \<and> nb_errno s' = e
                | Inr e \<Rightarrow> e \<noteq> 0 \<and> \<not> nb_open s' \<and> nb_flags s' = nb_flags s \<and>
                    nb_errno s' = (case nb_close a of Some e \<Rightarrow> e | None \<Rightarrow> errno_after_select a)))))"
  using assms
  by (cases "nb_connect a"; cases "nb_select a"; cases "nb_so_error a"; cases "nb_close a")
    (auto simp: connect_nonb_def nb_done_def call_fl_def call_close_def errno_after_select_def established_def Let_def
      split: if_splits)

definition refused :: "int + int \<Rightarrow> nb_answers" where
  "refused so = \<lparr>nb_getfl = None, nb_setfl1 = None, nb_setfl2 = None, nb_connect = Some EINPROGRESS,
     nb_select = Select_failed 4, nb_so_error = so, nb_close = None\<rparr>"

lemma refused_simps [simp]:
  "nb_getfl (refused so) = None" "nb_setfl1 (refused so) = None" "nb_setfl2 (refused so) = None"
  "nb_connect (refused so) = Some EINPROGRESS" "nb_select (refused so) = Select_failed 4"
  "nb_so_error (refused so) = so" "nb_close (refused so) = None"
  by (simp_all add: refused_def)

theorem connect_nonb_outcomes_witness:
  "(\<exists>s'. connect_nonb (refused (Inr 0)) \<lparr>nb_flags = 2, nb_open = True, nb_errno = 0\<rparr> = Inr (0, s')) \<and>
   \<not> established (refused (Inr 0)) \<and>
   (\<exists>s'. connect_nonb (refused (Inr 111)) \<lparr>nb_flags = 2, nb_open = True, nb_errno = 0\<rparr> = Inr (- 1, s') \<and>
      \<not> nb_open s' \<and> nb_errno s' = 4)"
  using connect_nonb_outcomes [of "refused (Inr 0)" "\<lparr>nb_flags = 2, nb_open = True, nb_errno = 0\<rparr>"]
    connect_nonb_outcomes [of "refused (Inr 111)" "\<lparr>nb_flags = 2, nb_open = True, nb_errno = 0\<rparr>"]
  by (cases "connect_nonb (refused (Inr 111)) \<lparr>nb_flags = 2, nb_open = True, nb_errno = 0\<rparr>")
    (auto simp: established_def errno_after_select_def split: if_splits)

end
