(* ===== verification/Spec2Isabelle.thy ===== *)
theory Spec2Isabelle
  imports Db_Props Cvm_Props Jobs Slist Fibm Filters_Props Cdecl_Rec Tiny_Main Mm_Check Strcli Web Pollsrv Sbuf Popen
    Asyncio Josep Deadlock Nonblock
begin

text \<open>
  A verification development for \<^verbatim>\<open>somenote\<close>, a collection of C programs written along textbooks
  on Unix programming.  The programs are independent of each other but for two shared packages:
  \<^verbatim>\<open>csapp/tiny.c\<close> reads and writes through the robust I/O package of \<^verbatim>\<open>csapp.c\<close>, and
  \<^verbatim>\<open>mm.c\<close> takes its memory from \<^verbatim>\<open>memlib.c\<close>.  All paths below are relative to \<^verbatim>\<open>src/c_code\<close>.


  \<^bold>\<open>Conventions.\<close>  Definitions carry the names of the C functions.  State is passed in and
  returned.  Whatever ends a program or is undefined in C (a failed assertion, an access outside an
  array or through a null pointer, an uninitialised variable, \<open>exit\<close>) is the left part of a sum type, and
  \<open>andthen\<close> passes it on.  A loop that may not end has a fuel or is a \<open>partial_function\<close> whose
  value is then \<open>None\<close>; the theorems state how much fuel is enough, or that no fuel is.  Theory
  \<open>Prelude\<close> holds these conventions, the C strings and files, shared lemmas, and the locale
  \<open>simulation\<close>: one step of a program refines one step of a specification, hence any sequence of
  steps does.  \<open>Cstdio\<close> models the parts of \<open>scanf\<close>, \<open>fgets\<close>, \<open>strstr\<close> and \<open>strrchr\<close> in use.


  \<^bold>\<open>The database\<close> (\<^verbatim>\<open>apue/mydb/db.c\<close>; theories \<open>Db\<close> to \<open>Db_Props\<close>).  \<open>Db\<close> translates every
  function; the index and the data file are lists of bytes with an offset, and the environment
  decides which system calls fail.  \<open>Db_Layout\<close> describes the index file, \<open>Db_Map\<close> the hash chains
  and the map a pair of files represents, \<open>Db_Refine\<close> and \<open>Db_Ops\<close> the operations on it.  Fetch,
  store and delete refine the operations of a finite map on every branch, alone and in sequences
  (locale \<open>kv_db\<close>); a scan lists every pair once; closing and opening keep the map; \<open>Db_Faults\<close>
  shows that a call that returns in spite of failing system calls has done its work.  The fuel of
  a chain search is one more than the length of the file: a longer search visits an offset twice.


  \<^bold>\<open>The virtual machine control program\<close> (\<^verbatim>\<open>cvm/cvm.c\<close>; \<open>Cvm\<close>, \<open>Cvm_Loops\<close>, \<open>Cvm_Props\<close>).  One
  definition for every handler and helper that is not commented out, and the dispatcher.  The shell, the monitors, the
  local daemon, the file system and the clock are the parameter \<open>ext\<close>, whose answers may depend on everything asked
  before; a log or token file that cannot be opened crashes the program.  Shown: the commands issued and their order, the search for a name in a listing, the rate
  taken from a log, that a machine that is on is not started and for one that is off one command is
  sent if the daemon can be reached, the loops that do not end without
  \<open>-1\<close>, and a string that does not fit its array.


  \<^bold>\<open>The malloc package\<close> (\<^verbatim>\<open>csapp/code/vm/malloc/mm.c\<close> and \<^verbatim>\<open>memlib.c\<close>; \<open>Mm\<close> to \<open>Mm_Props\<close>).
  \<open>Mm\<close> works on memory byte by byte, with 32-bit tags, 64-bit sizes and the \<open>int\<close> argument of
  \<open>mem_sbrk\<close>; an access outside the heap is an error.  \<open>Mm_Layout\<close> says when memory holds a row of
  blocks; \<open>Mm_Row\<close> specifies allocation and release on rows; \<open>Mm_Ops\<close> and \<open>Mm_Calls\<close> relate each
  operation to its counterpart.  Shown: \<open>mm_malloc\<close> and \<open>mm_free\<close> refine the operations on rows,
  all heaps reachable with requests below \<open>2 ^ 32 - 15\<close> bytes satisfy the invariant (tags agree, blocks aligned and disjoint, no two
  neighbouring free blocks), a block keeps its bytes until it is freed (locale \<open>allocator\<close>),
  \<open>mm_realloc\<close> copies, and a request of \<open>2 ^ 32\<close> bytes gets a block of eight.  The search of
  \<open>find_fit\<close> needs no fuel: every step moves on, and leaving the heap is an error.


  \<open>Mm_Check\<close> translates the consistency checker \<open>checkheap\<close> with what it prints and shows that it finds
  nothing to report on any reachable heap.


  \<^bold>\<open>Robust I/O and the tiny web server\<close> (\<^verbatim>\<open>apue/rdwr_n.c\<close>, \<^verbatim>\<open>csapp/code/src/csapp.c\<close>,
  \<^verbatim>\<open>csapp/tiny.c\<close>; \<open>Rio\<close>, \<open>Rio_Props\<close>, \<open>Tiny\<close>, \<open>Tiny_Props\<close>, \<open>Tiny_Main\<close>).  Short counts, interrupts and errors
  of \<open>read\<close> and \<open>write\<close> come from the environment.  The buffered reader refines a byte stream for
  every sequence of calls; the writers send everything or a prefix.  \<open>doit\<close> sends exactly the answer
  the specification gives for a GET request, rejects other methods, loops on a connection that is
  closed early, and ends the server for small files.  The fuel of the header loop is one more than
  the number of headers.  \<open>Tiny_Main\<close> adds the listening socket and the main loop: every client gets the answer
  to its own request, up to the first request that ends the process.


  \<^bold>\<open>Network clients and servers\<close> (\<^verbatim>\<open>unp/strclinonb.c\<close>, \<^verbatim>\<open>unp/web/web.c\<close>, \<^verbatim>\<open>unp/tcpsrvpoll.c\<close>;
  \<open>Strcli\<close>, \<open>Web\<close>, \<open>Pollsrv\<close>).  One turn of the loop around \<open>select\<close> or \<open>poll\<close> is a function of what the
  system answers in that turn, and a run is a list of turns.  The two buffers of the non-blocking client share the
  locale \<open>byte_queue\<close>; no byte is lost or reordered in them, with willing descriptors everything is
  delivered, a full buffer is taken for the end of the input, and a partial write after the end of the
  input loses the rest.  The counters of the web client count the states of its files whatever the system
  answers, and when it ends every file was requested once and read.  The poll server overwrites its listening
  descriptor and never accepts.


  \<^bold>\<open>Processes and threads\<close> (\<^verbatim>\<open>apue/popen_close.c\<close>, \<^verbatim>\<open>csapp/code/conc/sbuf.c\<close>; \<open>Popen\<close>, \<open>Sbuf\<close>).
  The table of \<open>popen\<close> and \<open>pclose\<close> refines a finite map from streams to children, the descriptors of a child
  are given exactly, and so is what a failed call leaves behind.  The bounded buffer is a step relation on
  threads between the semaphore operations: under every interleaving one thread at most is in a critical
  section, the buffer is a queue, and threads block only when the buffer is full or empty for all of them.


  \<open>Deadlock\<close> is \<^verbatim>\<open>apue/advio/dead_lock.c\<close> with the pipes of \<^verbatim>\<open>apue/tellwait.c\<close>, two processes that lock in
  opposite orders, as a step relation: somebody can always go on, a run has at most twenty steps, and exactly one
  process has its lock refused.


  \<^bold>\<open>Asynchronous and non-blocking I/O\<close> (\<^verbatim>\<open>asyncio.c\<close>, \<^verbatim>\<open>apue/set_fl.c\<close>, \<^verbatim>\<open>apue/advio/nonBlockio.c\<close>,
  \<^verbatim>\<open>unp/connect_nonb.c\<close>; \<open>Asyncio\<close>, \<open>Nonblock\<close>).  The eight buffers of the asynchronous copy go through three
  states; an invariant on blocks shows that the output is the translated input in whatever order the requests
  complete, and a measure that the program ends within three turns per block.  \<open>connect_nonb\<close> is described on
  every path, with what each failed call leaves in \<open>errno\<close>.


  \<^bold>\<open>The declaration readers\<close> (\<^verbatim>\<open>expert_c/cdecl2.c\<close>, \<^verbatim>\<open>expert_c/char3_analytype.c\<close>; \<open>Cdecl\<close>,
  \<open>Cdecl_Props\<close>, \<open>Cdecl_Rec\<close>).  A state machine and a recursive program that say a C declaration in
  English.  Declarations are described by a datatype; both programs end on every declaration of the words they
  know that fits their stack, with a fuel linear in its tokens, and print its parts in the same order.
  They differ: the recursive one does not know \<open>static\<close>, and it runs its words together; blanks apart, the
  outputs are the same.  The tokenizers share a locale.


  \<^bold>\<open>Smaller programs.\<close>  \<open>Jobs\<close>: the job queue of \<^verbatim>\<open>apue/rwlock.c\<close>, a doubly linked list in a heap of
  nodes, refines a list (the file does not compile; the type of \<open>j_prev\<close> is read as \<open>struct job *\<close>).  \<open>Slist\<close>: \<^verbatim>\<open>algorithem/task/reverselist.c\<close>, reversal in place.  \<open>Fibm\<close>:
  \<^verbatim>\<open>algorithem/fib.c\<close>, memoised Fibonacci numbers with the bounds of the table and of \<open>long\<close>.
  \<open>Josep\<close>: \<^verbatim>\<open>algorithem/task/fakejose.c\<close>, groups of neighbours deleted from a doubly linked ring in a heap.
  \<open>Filters\<close>, \<open>Filters_Props\<close>: \<^verbatim>\<open>1-23-rcomment.c\<close>, \<^verbatim>\<open>1-24-checkgrammer.c\<close>, \<^verbatim>\<open>1-19-reverse.c\<close> and
  \<^verbatim>\<open>1-20-detab.c\<close>, what they keep, count, reverse and print, and when they run for ever.  Program texts are described as
  sequences of comments, quoted parts and characters; a quote right after a slash, which both programs miss,
  is described apart.


  \<^bold>\<open>Not modelled.\<close>  The other programs of the author are exercises around one system call each
  (sockets, signals, threads, pipes, locks) and have no logic of their own, or do not compile
  (\<^verbatim>\<open>csapp/echo/echoclient.c\<close>, \<^verbatim>\<open>epoll_lizi.c\<close>, \<^verbatim>\<open>pthread_timeout.c\<close>, \<^verbatim>\<open>apue/sigproc.c\<close>,
  \<^verbatim>\<open>poly_add.c\<close>, \<^verbatim>\<open>poly_multi.c\<close>, \<open>job_find\<close> of \<^verbatim>\<open>rwlock.c\<close>).  The trees \<^verbatim>\<open>apue/apue.3e\<close>,
  \<^verbatim>\<open>unp/unpv13e\<close> and the rest of \<^verbatim>\<open>csapp/code\<close> are the source code of the textbooks; files below
  \<^verbatim>\<open>cmake-build-debug\<close> are generated.  Of the modelled files, the \<open>NEXT_FIT\<close> code of \<^verbatim>\<open>mm.c\<close>, which is
  switched off, and \<open>sbuf_deinit\<close> of \<^verbatim>\<open>sbuf.c\<close>, a single \<open>free\<close>, are left out, as are messages for the user
  where they carry no state.
\<close>

end
